(* ===== verification/Prelude.thy ===== *)
theory Prelude
  imports Main "HOL-Library.Word"
begin

text \<open>
  Shared vocabulary of the development: bytes and byte strings, the Go subslice
  operations the program uses (slicing, \<open>copy\<close>, the big-endian accessors of
  \<open>encoding/binary\<close>), and the generic lemmas about words and lists on which the
  component theories rest.

  Go panics on an index out of range, HOL lists do not.  Every definition of the
  development that indexes a subslice does so under the length guard of the source,
  and the lemmas about it carry that guard.
\<close>

unbundle bit_operations_syntax

section \<open>Types and collections\<close>

type_synonym byte = "8 word"
type_synonym bytes = "8 word list"

named_theorems go_defs \<open>definitions of the Go subslice operations, for unfolding\<close>
named_theorems len_simps \<open>lengths of the byte strings the program builds\<close>

section \<open>Slices\<close>

definition subslice :: "'a list \<Rightarrow> nat \<Rightarrow> nat \<Rightarrow> 'a list" where
  \<comment> \<open>\<open>xs[i:j]\<close>\<close>
  "subslice xs i j = take (j - i) (drop i xs)"

definition copy_into :: "'a list \<Rightarrow> nat \<Rightarrow> nat \<Rightarrow> 'a list \<Rightarrow> 'a list" where
  \<comment> \<open>\<open>copy(dst[i:j], src)\<close>: the shorter of the two lengths is copied\<close>
  "copy_into dst i j src =
     take i dst @ take (j - i) src @ drop (i + min (j - i) (length src)) dst"

definition uint16_be :: "bytes \<Rightarrow> 16 word" where
  \<comment> \<open>\<open>binary.BigEndian.Uint16\<close>\<close>
  "uint16_be b = push_bit 8 (ucast (b ! 0)) OR ucast (b ! 1)"

definition put_uint16 :: "bytes \<Rightarrow> nat \<Rightarrow> 16 word \<Rightarrow> bytes" where
  \<comment> \<open>\<open>binary.BigEndian.PutUint16(xs[i:i+2], v)\<close>\<close>
  "put_uint16 xs i v = xs[i := ucast (drop_bit 8 v), Suc i := ucast v]"

definition uint32_be :: "bytes \<Rightarrow> 32 word" where
  \<comment> \<open>\<open>binary.BigEndian.Uint32\<close>\<close>
  "uint32_be b = push_bit 24 (ucast (b ! 0)) OR push_bit 16 (ucast (b ! 1))
     OR push_bit 8 (ucast (b ! 2)) OR ucast (b ! 3)"

definition put_uint32 :: "bytes \<Rightarrow> nat \<Rightarrow> 32 word \<Rightarrow> bytes" where
  \<comment> \<open>\<open>binary.BigEndian.PutUint32(xs[i:i+4], v)\<close>\<close>
  "put_uint32 xs i v = xs[i := ucast (drop_bit 24 v), i + 1 := ucast (drop_bit 16 v),
     i + 2 := ucast (drop_bit 8 v), i + 3 := ucast v]"

lemmas slice_defs [go_defs] = subslice_def copy_into_def put_uint16_def put_uint32_def

section \<open>Lemmas on slices\<close>

lemma list_update_Cons_numeral [simp]:
  "(x # xs)[numeral v := y] = x # xs[numeral v - 1 := y]"
  by (cases "numeral v :: nat") auto

lemma length_subslice [len_simps]: "j \<le> length xs \<Longrightarrow> length (subslice xs i j) = j - i"
  by (simp add: subslice_def)

lemma subslice_all [simp]: "subslice xs 0 (length xs) = xs"
  by (simp add: subslice_def)

lemma subslice_nth: "i + k < j \<Longrightarrow> j \<le> length xs \<Longrightarrow> subslice xs i j ! k = xs ! (i + k)"
  by (simp add: subslice_def)

lemma length_copy_into [len_simps]:
  "i \<le> j \<Longrightarrow> j \<le> length dst \<Longrightarrow> length (copy_into dst i j src) = length dst"
  by (simp add: copy_into_def min_def)

lemma length_put_uint16 [len_simps, simp]: "length (put_uint16 xs i v) = length xs"
  by (simp add: put_uint16_def)

lemma length_put_uint32 [len_simps, simp]: "length (put_uint32 xs i v) = length xs"
  by (simp add: put_uint32_def)

section \<open>Lemmas on words\<close>

lemma uint16_be_split [simp]:
  "uint16_be (ucast (drop_bit 8 v) # ucast v # xs) = (v :: 16 word)"
  by (rule bit_word_eqI) (auto simp: uint16_be_def bit_simps)

lemma uint32_be_split [simp]:
  "uint32_be [ucast (drop_bit 24 v), ucast (drop_bit 16 v), ucast (drop_bit 8 v), ucast v]
     = (v :: 32 word)"
proof (rule bit_word_eqI)
  fix n assume "n < LENGTH(32)"
  then consider "n < 8" | "8 \<le> n" "n < 16" | "16 \<le> n" "n < 24" | "24 \<le> n" "n < 32"
    by fastforce
  then show "bit (uint32_be [ucast (drop_bit 24 v), ucast (drop_bit 16 v), ucast (drop_bit 8 v),
      ucast v]) n \<longleftrightarrow> bit v n"
    by cases (auto simp: uint32_be_def bit_simps)
qed

lemma unat_byte_less [simp]: "unat (b :: byte) < 256"
  using unsigned_less [of b] by simp

lemma unat_not_16: "unat (NOT w :: 16 word) = 65535 - unat w"
proof -
  have "unat (-1 - w) = unat (-1 :: 16 word) - unat w"
    by (rule unat_sub) simp
  moreover have "NOT w = -1 - w" by (simp add: not_eq_complement)
  moreover have "unat (-1 :: 16 word) = 65535" by (simp add: unsigned_minus_1_eq_mask mask_eq_exp_minus_1)
  ultimately show ?thesis by (simp only:)
qed

lemma unat_byte_pair:
  "unat (push_bit 8 (ucast (a :: byte)) OR ucast (b :: byte) :: 'a::len word)
     = 256 * unat a + unat b" if "16 \<le> LENGTH('a)"
proof -
  have "push_bit 8 (ucast a) OR ucast b = (push_bit 8 (ucast a) + ucast b :: 'a word)"
    by (rule disjunctive_add_eq_or [symmetric])
      (auto simp: bit_eq_iff bit_simps dest: bit_imp_le_length)
  also have "\<dots> = of_nat (256 * unat a + unat b)"
    by (simp add: push_bit_eq_mult ac_simps)
  finally have eq: "push_bit 8 (ucast a) OR ucast b = (of_nat (256 * unat a + unat b) :: 'a word)" .
  have "256 * unat a + unat b < 65536"
    using unat_byte_less [of a] unat_byte_less [of b] by linarith
  also have "\<dots> = 2 ^ 16" by simp
  also have "(2::nat) ^ 16 \<le> 2 ^ LENGTH('a)"
    using that by (rule power_increasing) simp
  finally show ?thesis unfolding eq unat_of_nat by simp
qed

end
