(* ===== verification/Scheduler.thy ===== *)
theory Scheduler
  imports Prelude
begin

text \<open>
  The round-robin scheduler of \<open>internal/multipath/scheduler.go\<close>, and the contract of a
  round-robin cursor, which the path sets of the client and of the server share.
\<close>

section \<open>RoundRobin\<close>

record round_robin =
  pathCount :: int
  rr_next :: int

datatype scheduler_error = PathCountNotPositive int

definition new_round_robin :: "int \<Rightarrow> scheduler_error + round_robin" where
  "new_round_robin n =
     (if n \<le> 0 then Inl (PathCountNotPositive n) else Inr \<lparr>pathCount = n, rr_next = 0\<rparr>)"

definition next_path_index :: "round_robin \<Rightarrow> int \<times> round_robin" where
  "next_path_index r = (let path = rr_next r in (path, r\<lparr>rr_next := (rr_next r + 1) mod pathCount r\<rparr>))"

definition round_robin_ok :: "round_robin \<Rightarrow> bool" where
  "round_robin_ok r \<longleftrightarrow> 0 \<le> rr_next r \<and> rr_next r < pathCount r"

section \<open>The contract of a cursor\<close>

fun picks :: "('s \<Rightarrow> nat \<times> 's) \<Rightarrow> nat \<Rightarrow> 's \<Rightarrow> nat list" where
  "picks pick 0 s = []"
| "picks pick (Suc n) s = (case pick s of (i, s') \<Rightarrow> i # picks pick n s')"

lemma shift_mod_inj_le:
  assumes "k \<le> j" "j < n" "(p + k) mod n = (p + j) mod (n :: nat)"
  shows "k = j"
proof -
  have "n dvd (p + j) - (p + k)"
    using assms by (simp only: mod_eq_dvd_iff_nat [of "p + k" "p + j" n, symmetric] add_left_mono)
  then have "n dvd j - k" by simp
  with assms(1,2) show ?thesis by (auto dest: dvd_imp_le)
qed

lemma shift_mod_inj:
  assumes "k < n" "j < n" "(p + k) mod n = (p + j) mod (n :: nat)"
  shows "k = j"
  using assms shift_mod_inj_le [of k j n p] shift_mod_inj_le [of j k n p]
  by (cases "k \<le> j") auto

locale round_robin_cursor =
  fixes size :: "'s \<Rightarrow> nat"
    and pos :: "'s \<Rightarrow> nat"
    and pick :: "'s \<Rightarrow> nat \<times> 's"
    and ok :: "'s \<Rightarrow> bool"
  assumes pick_index: "ok s \<Longrightarrow> fst (pick s) = pos s"
    and pick_pos: "ok s \<Longrightarrow> pos (snd (pick s)) = (pos s + 1) mod size s"
    and pick_size: "ok s \<Longrightarrow> size (snd (pick s)) = size s"
    and pick_ok: "ok s \<Longrightarrow> ok (snd (pick s))"
    and pos_less: "ok s \<Longrightarrow> pos s < size s"
begin

lemma length_picks [simp]: "length (picks pick n s) = n"
  by (induction n arbitrary: s) (auto split: prod.splits)

lemma picks_nth: "ok s \<Longrightarrow> k < n \<Longrightarrow> picks pick n s ! k = (pos s + k) mod size s"
proof (induction n arbitrary: s k)
  case (Suc n)
  obtain i s' where p: "pick s = (i, s')" by fastforce
  have s': "i = pos s" "pos s' = (pos s + 1) mod size s" "size s' = size s" "ok s'"
    using pick_index pick_pos pick_size pick_ok Suc.prems(1) p by force+
  show ?case
  proof (cases k)
    case 0
    with s' p pos_less [OF Suc.prems(1)] show ?thesis by simp
  next
    case (Suc j)
    with Suc.prems s' p Suc.IH [of s' j] show ?thesis
      by (simp add: mod_add_left_eq)
  qed
qed simp

lemma picks_eq: "ok s \<Longrightarrow> picks pick n s = map (\<lambda>k. (pos s + k) mod size s) [0..<n]"
  by (rule nth_equalityI) (auto simp: picks_nth)

lemma picks_distinct: "ok s \<Longrightarrow> distinct (picks pick (size s) s)"
proof -
  assume "ok s"
  have "inj_on (\<lambda>k. (pos s + k) mod size s) {0..<size s}"
    by (rule inj_onI) (simp add: shift_mod_inj)
  with \<open>ok s\<close> show ?thesis by (simp add: picks_eq distinct_map)
qed

lemma picks_cover: "ok s \<Longrightarrow> set (picks pick (size s) s) = {..<size s}"
proof (rule card_subset_eq)
  assume "ok s"
  then show "set (picks pick (size s) s) \<subseteq> {..<size s}"
    using pos_less [of s] by (auto simp: picks_eq)
  show "card (set (picks pick (size s) s)) = card {..<size s}"
    using picks_distinct [OF \<open>ok s\<close>] by (simp add: distinct_card)
qed simp

end

interpretation rr: round_robin_cursor
  "\<lambda>r. nat (pathCount r)" "\<lambda>r. nat (rr_next r)"
  "\<lambda>r. case next_path_index r of (i, r') \<Rightarrow> (nat i, r')" round_robin_ok
proof (unfold_locales, goal_cases)
  case (2 s)
  then show ?case
    by (simp add: next_path_index_def round_robin_ok_def nat_mod_distrib nat_add_distrib)
next
  case (4 s)
  then show ?case by (simp add: next_path_index_def round_robin_ok_def)
qed (auto simp: next_path_index_def round_robin_ok_def)

section \<open>Properties\<close>

definition next_path_indexes :: "nat \<Rightarrow> round_robin \<Rightarrow> nat list" where
  \<comment> \<open>the results of \<open>n\<close> calls of \<open>Next\<close>\<close>
  "next_path_indexes = picks (\<lambda>r. case next_path_index r of (i, r') \<Rightarrow> (nat i, r'))"

text \<open>
  A scheduler is created exactly for a positive path count; its \<open>k\<close>-th result is then
  \<open>k mod pathCount\<close>, so every round of \<open>pathCount\<close> calls names each path index once.
\<close>

theorem round_robin_schedule:
  assumes "new_round_robin n = Inr r"
  shows "0 < n \<and> (\<forall>m k. k < m \<longrightarrow> next_path_indexes m r ! k = k mod nat n) \<and>
    set (next_path_indexes (nat n) r) = {..<nat n} \<and> distinct (next_path_indexes (nat n) r)"
proof -
  from assms have n: "0 < n" and r: "r = \<lparr>pathCount = n, rr_next = 0\<rparr>"
    by (auto simp: new_round_robin_def split: if_splits)
  then have ok: "round_robin_ok r" by (simp add: round_robin_ok_def)
  show ?thesis
    using n r rr.picks_nth [OF ok] rr.picks_cover [OF ok] rr.picks_distinct [OF ok]
    by (simp add: next_path_indexes_def)
qed

theorem round_robin_schedule_witness:
  "next_path_indexes 4 \<lparr>pathCount = 3, rr_next = 0\<rparr> ! 3 = 0"
  using round_robin_schedule [of 3 "\<lparr>pathCount = 3, rr_next = 0\<rparr>"]
  by (simp add: new_round_robin_def)

end
