(* ===== verification/Path_Pool.thy ===== *)
theory Path_Pool
  imports Prelude
begin

text \<open>
  What the path set of the client and the path list of the server share: the search for
  the first entry, its deletion, the adjustment of the round-robin cursor after a
  deletion, and the contract under which a sender picks paths and discards broken ones.
\<close>

section \<open>Lists of paths\<close>

fun first_index :: "('a \<Rightarrow> bool) \<Rightarrow> 'a list \<Rightarrow> nat option" where
  \<comment> \<open>a \<open>for i, x := range xs\<close> loop that stops at the first hit\<close>
  "first_index P [] = None"
| "first_index P (x # xs) = (if P x then Some 0 else map_option Suc (first_index P xs))"

definition delete_at :: "nat \<Rightarrow> 'a list \<Rightarrow> 'a list" where
  \<comment> \<open>\<open>append(xs[:i], xs[i+1:]...)\<close>\<close>
  "delete_at i xs = take i xs @ drop (Suc i) xs"

definition cursor_after_removal :: "nat \<Rightarrow> nat \<Rightarrow> nat" where
  \<comment> \<open>the cursor after a removal that leaves \<open>n\<close> entries\<close>
  "cursor_after_removal n cur = (if n = 0 then 0 else if n \<le> cur then cur mod n else cur)"

definition cursor_ok :: "nat \<Rightarrow> nat \<Rightarrow> bool" where
  "cursor_ok n cur \<longleftrightarrow> (if n = 0 then cur = 0 else cur < n)"

lemma first_index_Some:
  "first_index P xs = Some i \<Longrightarrow> i < length xs \<and> P (xs ! i) \<and> (\<forall>j<i. \<not> P (xs ! j))"
  by (induction xs arbitrary: i)
    (auto split: if_splits simp: less_Suc_eq_0_disj nth_Cons split: nat.splits)

lemma first_index_None: "first_index P xs = None \<longleftrightarrow> (\<forall>x \<in> set xs. \<not> P x)"
  by (induction xs) auto

lemma length_delete_at [len_simps]: "i < length xs \<Longrightarrow> length (delete_at i xs) = length xs - 1"
  by (simp add: delete_at_def)

lemma delete_at_split: "i < length xs \<Longrightarrow> xs = take i xs @ xs ! i # drop (Suc i) xs"
  by (rule id_take_nth_drop)

lemma set_delete_at:
  assumes "distinct xs" "i < length xs"
  shows "set (delete_at i xs) = set xs - {xs ! i}"
proof -
  have "distinct (take i xs @ xs ! i # drop (Suc i) xs)"
    using assms delete_at_split by metis
  moreover have "set xs = set (take i xs @ xs ! i # drop (Suc i) xs)"
    using assms(2) delete_at_split by metis
  ultimately show ?thesis by (auto simp: delete_at_def)
qed

lemma map_delete_at: "map f (delete_at i xs) = delete_at i (map f xs)"
  by (simp add: delete_at_def take_map drop_map)

lemma distinct_delete_at: "distinct xs \<Longrightarrow> distinct (delete_at i xs)"
  using set_take_disj_set_drop_if_distinct [of xs i "Suc i"] by (simp add: delete_at_def)

lemma cursor_ok_removal: "cursor_ok n (cursor_after_removal n cur)"
  by (simp add: cursor_ok_def cursor_after_removal_def)

lemma cursor_ok_next: "0 < n \<Longrightarrow> cursor_ok n (k mod n)"
  by (simp add: cursor_ok_def)

section \<open>The contract of a path pool\<close>

text \<open>
  A pool hands out one of its members as long as there is one; discarding a member
  removes it and nothing else.  \<open>'t\<close> is what an operation may depend on besides the
  pool, such as the current time.
\<close>

locale path_pool =
  fixes members :: "'s \<Rightarrow> 'p list"
    and invar :: "'s \<Rightarrow> bool"
    and pick :: "'t \<Rightarrow> 's \<Rightarrow> 'p option \<times> 's"
    and discard :: "'t \<Rightarrow> 'p \<Rightarrow> 's \<Rightarrow> 's"
  assumes pick_None: "invar s \<Longrightarrow> fst (pick t s) = None \<longleftrightarrow> members s = []"
    and pick_member: "invar s \<Longrightarrow> fst (pick t s) = Some p \<Longrightarrow> p \<in> set (members s)"
    and pick_members: "invar s \<Longrightarrow> members (snd (pick t s)) = members s"
    and pick_invar: "invar s \<Longrightarrow> invar (snd (pick t s))"
    and invar_distinct: "invar s \<Longrightarrow> distinct (members s)"
    and discard_members: "invar s \<Longrightarrow> p \<in> set (members s) \<Longrightarrow>
      set (members (discard t p s)) = set (members s) - {p}"
    and discard_invar: "invar s \<Longrightarrow> invar (discard t p s)"
begin

lemma discard_length:
  assumes "invar s" "p \<in> set (members s)"
  shows "length (members (discard t p s)) + 1 = length (members s)"
proof -
  have "length (members (discard t p s)) = card (set (members s) - {p})"
    using assms discard_members discard_invar invar_distinct distinct_card by metis
  also have "\<dots> + 1 = card (set (members s))"
    using assms(2) by (metis List.finite_set card_Suc_Diff1 Suc_eq_plus1)
  finally show ?thesis using assms(1) invar_distinct distinct_card by metis
qed

lemma retry_induct [consumes 1, case_names retry]:
  assumes "invar s"
    and step: "\<And>s. invar s \<Longrightarrow>
      (\<And>t t' p. fst (pick t s) = Some p \<Longrightarrow> P (discard t' p (snd (pick t s)))) \<Longrightarrow> P s"
  shows "P s"
  using assms(1)
proof (induction "length (members s)" arbitrary: s rule: less_induct)
  case less
  show ?case
  proof (rule step [OF less.prems])
    fix t t' p assume p: "fst (pick t s) = Some p"
    let ?s = "snd (pick t s)"
    have ok: "invar ?s" using less.prems by (rule pick_invar)
    have mem: "p \<in> set (members ?s)"
      using pick_member [OF less.prems p] pick_members [OF less.prems] by simp
    have "length (members (discard t' p ?s)) < length (members s)"
      using discard_length [OF ok mem, of t'] pick_members [OF less.prems, of t] by simp
    then show "P (discard t' p ?s)"
      using less.hyps discard_invar [OF ok] by blast
  qed
qed

end

end
