(* ===== verification/Client_Paths.thy ===== *)
theory Client_Paths
  imports Scheduler Path_Pool
begin

text \<open>
  The set of active QUIC paths of the TUN client, \<open>clientPathSet\<close> of
  \<open>internal/quictransport/client.go\<close>: the paths in round-robin order, the cursor, and the
  write-failure record of each path id with its cooldown.  Every method holds the mutex
  from start to end, so each is one function on the state.

  Streams and connections are identities (numbers); \<open>path.stream == stream\<close> is their
  equality.  A path always has a stream, since \<open>dialClientPath\<close> sets it; its
  connection may be nil.  Times and durations are nanoseconds on one time line, the zero
  \<open>time.Time\<close> is 0.  The cursor is a Go int that is never negative.
\<close>

section \<open>State\<close>

record client_path =
  cp_id :: int
  cp_address :: string
  cp_conn :: "nat option"
  cp_stream :: nat

record path_health =
  consecutiveFailures :: "64 word"
  cooldownUntil :: int

record client_path_set =
  cps_paths :: "client_path list"
  cps_next :: nat
  cps_health :: "int \<Rightarrow> path_health option"

definition zero_health :: path_health where
  "zero_health = \<lparr>consecutiveFailures = 0, cooldownUntil = 0\<rparr>"

definition health_of :: "client_path_set \<Rightarrow> int \<Rightarrow> path_health" where
  \<comment> \<open>\<open>s.health[id]\<close>: the zero value for a missing key\<close>
  "health_of s pid = (case cps_health s pid of None \<Rightarrow> zero_health | Some h \<Rightarrow> h)"

section \<open>Operations\<close>

definition second :: int where "second = 1000000000"

definition is_cooling_down :: "path_health \<Rightarrow> int \<Rightarrow> bool" where
  "is_cooling_down h now \<longleftrightarrow> cooldownUntil h \<noteq> 0 \<and> now < cooldownUntil h"

definition client_path_cooldown :: "64 word \<Rightarrow> int" where
  "client_path_cooldown n =
     (if n = 0 then 0
      else let n = (if 5 < n then 5 else n) in push_bit (unat (n - 1)) second)"

definition new_client_path_set :: "client_path list \<Rightarrow> client_path_set" where
  "new_client_path_set ps = \<lparr>cps_paths = ps, cps_next = 0, cps_health = (\<lambda>_. None)\<rparr>"

definition cps_add :: "client_path_set \<Rightarrow> client_path \<Rightarrow> client_path option \<times> client_path_set" where
  "cps_add s path =
     (case first_index (\<lambda>current. cp_id current = cp_id path) (cps_paths s) of
        Some i \<Rightarrow> (Some (cps_paths s ! i), s\<lparr>cps_paths := (cps_paths s)[i := path]\<rparr>)
      | None \<Rightarrow> (None, s\<lparr>cps_paths := cps_paths s @ [path]\<rparr>))"

definition choose_index :: "client_path_set \<Rightarrow> int \<Rightarrow> nat" where
  "choose_index s now =
     (let n = length (cps_paths s); start = cps_next s mod n
      in case find (\<lambda>i. \<not> is_cooling_down
                 (health_of s (cp_id (cps_paths s ! ((start + i) mod n)))) now) [0..<n] of
           None \<Rightarrow> start
         | Some i \<Rightarrow> (start + i) mod n)"

definition cps_next_path ::
  "client_path_set \<Rightarrow> int \<Rightarrow> client_path option \<times> client_path_set" where
  "cps_next_path s now =
     (if length (cps_paths s) = 0 then (None, s)
      else let index = choose_index s now
           in (Some (cps_paths s ! index), s\<lparr>cps_next := (index + 1) mod length (cps_paths s)\<rparr>))"

definition cps_remove :: "client_path_set \<Rightarrow> nat \<Rightarrow> client_path option \<times> client_path_set" where
  "cps_remove s stream =
     (case first_index (\<lambda>path. cp_stream path = stream) (cps_paths s) of
        None \<Rightarrow> (None, s)
      | Some i \<Rightarrow>
          let ps = delete_at i (cps_paths s)
          in (Some (cps_paths s ! i),
              s\<lparr>cps_paths := ps, cps_next := cursor_after_removal (length ps) (cps_next s)\<rparr>))"

definition cps_has_path_id :: "client_path_set \<Rightarrow> int \<Rightarrow> bool" where
  "cps_has_path_id s pid \<longleftrightarrow> list_ex (\<lambda>path. cp_id path = pid) (cps_paths s)"

definition cps_mark_success :: "client_path_set \<Rightarrow> int \<Rightarrow> client_path_set" where
  "cps_mark_success s pid = s\<lparr>cps_health := (cps_health s)(pid := None)\<rparr>"

definition cps_mark_failure :: "client_path_set \<Rightarrow> int \<Rightarrow> int \<Rightarrow> path_health \<times> client_path_set" where
  "cps_mark_failure s now pid =
     (let h = health_of s pid;
          h = h\<lparr>consecutiveFailures := consecutiveFailures h + 1\<rparr>;
          h = h\<lparr>cooldownUntil := now + client_path_cooldown (consecutiveFailures h)\<rparr>
      in (h, s\<lparr>cps_health := (cps_health s)(pid \<mapsto> h)\<rparr>))"

definition cps_len :: "client_path_set \<Rightarrow> nat" where
  "cps_len s = length (cps_paths s)"

definition cps_snapshot :: "client_path_set \<Rightarrow> client_path list" where
  "cps_snapshot s = cps_paths s"

section \<open>The invariant\<close>

definition path_set_ok :: "client_path_set \<Rightarrow> bool" where
  "path_set_ok s \<longleftrightarrow>
     distinct (map cp_id (cps_paths s)) \<and> distinct (map cp_stream (cps_paths s)) \<and>
     cursor_ok (length (cps_paths s)) (cps_next s)"

lemma path_set_ok_new:
  "distinct (map cp_id ps) \<Longrightarrow> distinct (map cp_stream ps) \<Longrightarrow> path_set_ok (new_client_path_set ps)"
  by (simp add: path_set_ok_def new_client_path_set_def cursor_ok_def)

lemma choose_index_less: "cps_paths s \<noteq> [] \<Longrightarrow> choose_index s now < length (cps_paths s)"
  by (simp add: choose_index_def Let_def split: option.split)

lemma next_path_eq:
  "cps_paths s \<noteq> [] \<Longrightarrow> cps_next_path s now =
     (Some (cps_paths s ! choose_index s now),
      s\<lparr>cps_next := (choose_index s now + 1) mod length (cps_paths s)\<rparr>)"
  by (simp add: cps_next_path_def Let_def)

lemma next_path_None [simp]: "cps_paths s = [] \<Longrightarrow> cps_next_path s now = (None, s)"
  by (simp add: cps_next_path_def)

lemma next_path_paths [simp]: "cps_paths (snd (cps_next_path s now)) = cps_paths s"
  by (simp add: cps_next_path_def Let_def)

lemma next_path_member: "fst (cps_next_path s now) = Some p \<Longrightarrow> p \<in> set (cps_paths s)"
  by (auto simp: cps_next_path_def Let_def choose_index_less split: if_splits)

lemma next_path_ok: "path_set_ok s \<Longrightarrow> path_set_ok (snd (cps_next_path s now))"
  by (auto simp: path_set_ok_def cps_next_path_def Let_def cursor_ok_next)

lemma mark_success_simps [simp]:
  "cps_paths (cps_mark_success s i) = cps_paths s" "cps_next (cps_mark_success s i) = cps_next s"
  by (simp_all add: cps_mark_success_def)

lemma mark_failure_simps [simp]:
  "cps_paths (snd (cps_mark_failure s now i)) = cps_paths s"
  "cps_next (snd (cps_mark_failure s now i)) = cps_next s"
  by (simp_all add: cps_mark_failure_def Let_def)

lemma mark_ok [simp]:
  "path_set_ok (cps_mark_success s i) = path_set_ok s"
  "path_set_ok (snd (cps_mark_failure s now i)) = path_set_ok s"
  by (simp_all add: path_set_ok_def)

lemma add_ok:
  assumes "path_set_ok s" "cp_stream path \<notin> cp_stream ` set (cps_paths s)"
  shows "path_set_ok (snd (cps_add s path))"
proof (cases "first_index (\<lambda>current. cp_id current = cp_id path) (cps_paths s)")
  case None
  then have "snd (cps_add s path) = s\<lparr>cps_paths := cps_paths s @ [path]\<rparr>"
    by (simp add: cps_add_def)
  moreover have "cp_id path \<notin> cp_id ` set (cps_paths s)"
    using None by (force simp: first_index_None)
  ultimately show ?thesis
    using assms by (auto simp: path_set_ok_def cursor_ok_def split: if_splits)
next
  case (Some i)
  then have i: "i < length (cps_paths s)" "cp_id (cps_paths s ! i) = cp_id path"
    by (auto dest: first_index_Some)
  have "map cp_id ((cps_paths s)[i := path]) = map cp_id (cps_paths s)"
    using i by (metis list_update_id map_update nth_map)
  moreover have "distinct (map cp_stream ((cps_paths s)[i := path]))"
    using assms by (simp add: map_update path_set_ok_def distinct_list_update)
  ultimately show ?thesis
    using assms(1) Some by (simp add: path_set_ok_def cps_add_def)
qed

lemma remove_ok: "path_set_ok s \<Longrightarrow> path_set_ok (snd (cps_remove s stream))"
  by (auto simp: path_set_ok_def cps_remove_def Let_def map_delete_at distinct_delete_at
      cursor_ok_removal split: option.split)

lemma distinct_paths: "path_set_ok s \<Longrightarrow> distinct (cps_paths s)"
  by (auto simp: path_set_ok_def distinct_map)

lemma stream_of_active:
  "path_set_ok s \<Longrightarrow> p \<in> set (cps_paths s) \<Longrightarrow> q \<in> set (cps_paths s) \<Longrightarrow>
   cp_stream p = cp_stream q \<Longrightarrow> p = q"
  by (auto simp: path_set_ok_def distinct_map dest: inj_onD)

lemma id_of_active:
  "path_set_ok s \<Longrightarrow> p \<in> set (cps_paths s) \<Longrightarrow> q \<in> set (cps_paths s) \<Longrightarrow> cp_id p = cp_id q \<Longrightarrow> p = q"
  by (auto simp: path_set_ok_def distinct_map dest: inj_onD)

lemma remove_None:
  "fst (cps_remove s stream) = None \<longleftrightarrow> stream \<notin> cp_stream ` set (cps_paths s)"
  by (auto simp: cps_remove_def Let_def first_index_None split: option.split
      dest: first_index_Some)

lemma remove_unchanged: "fst (cps_remove s stream) = None \<Longrightarrow> snd (cps_remove s stream) = s"
  by (auto simp: cps_remove_def Let_def split: option.splits)

lemma remove_Some:
  assumes "fst (cps_remove s stream) = Some p"
  shows "p \<in> set (cps_paths s)" "cp_stream p = stream"
    "length (cps_paths (snd (cps_remove s stream))) = length (cps_paths s) - 1"
  using assms
  by (auto simp: cps_remove_def Let_def len_simps split: option.splits dest!: first_index_Some)

lemma remove_member:
  assumes "path_set_ok s" "p \<in> set (cps_paths s)"
  shows "fst (cps_remove s (cp_stream p)) = Some p"
    "set (cps_paths (snd (cps_remove s (cp_stream p)))) = set (cps_paths s) - {p}"
proof -
  obtain i where i: "first_index (\<lambda>path. cp_stream path = cp_stream p) (cps_paths s) = Some i"
    using assms(2) first_index_None by (metis (mono_tags, lifting) not_None_eq)
  then have less: "i < length (cps_paths s)" and eq: "cp_stream (cps_paths s ! i) = cp_stream p"
    by (auto dest: first_index_Some)
  have p: "cps_paths s ! i = p"
    using assms less eq by (auto simp: path_set_ok_def distinct_map dest: inj_onD)
  show "fst (cps_remove s (cp_stream p)) = Some p"
    using i p by (simp add: cps_remove_def Let_def)
  show "set (cps_paths (snd (cps_remove s (cp_stream p)))) = set (cps_paths s) - {p}"
    using i p set_delete_at [OF distinct_paths [OF assms(1)] less]
    by (simp add: cps_remove_def Let_def)
qed

lemma remove_length_less:
  "fst (cps_next_path s now) = Some p \<Longrightarrow>
   length (cps_paths (snd (cps_remove (snd (cps_mark_failure (snd (cps_next_path s now)) now' i))
     (cp_stream p)))) < length (cps_paths s)"
proof -
  assume "fst (cps_next_path s now) = Some p"
  then have mem: "p \<in> set (cps_paths s)" by (rule next_path_member)
  let ?s = "snd (cps_mark_failure (snd (cps_next_path s now)) now' i)"
  have "fst (cps_remove ?s (cp_stream p)) \<noteq> None" using mem by (simp add: remove_None)
  then obtain q where "fst (cps_remove ?s (cp_stream p)) = Some q" by blast
  from remove_Some(3) [OF this] mem show ?thesis by (cases "cps_paths s") auto
qed

definition cps_discard :: "int \<Rightarrow> client_path \<Rightarrow> client_path_set \<Rightarrow> client_path_set" where
  \<comment> \<open>what the sender does with a path whose write failed\<close>
  "cps_discard now p s = snd (cps_remove (snd (cps_mark_failure s now (cp_id p))) (cp_stream p))"

interpretation cps: path_pool cps_paths path_set_ok "\<lambda>now s. cps_next_path s now" cps_discard
proof (unfold_locales, goal_cases)
  case (1 s t)
  then show ?case by (cases "cps_paths s = []") (simp_all add: next_path_eq)
next
  case (6 s p t)
  let ?s = "snd (cps_mark_failure s t (cp_id p))"
  from 6 have "path_set_ok ?s" "p \<in> set (cps_paths ?s)" by simp_all
  from remove_member(2) [OF this] show ?case by (simp add: cps_discard_def)
next
  case (7 s t p)
  then show ?case by (simp add: cps_discard_def remove_ok)
qed (simp_all add: next_path_member next_path_ok distinct_paths)

section \<open>Which path is picked\<close>

definition cooling :: "client_path_set \<Rightarrow> int \<Rightarrow> client_path \<Rightarrow> bool" where
  "cooling s now p \<longleftrightarrow> is_cooling_down (health_of s (cp_id p)) now"

definition path_from :: "client_path_set \<Rightarrow> nat \<Rightarrow> client_path" where
  \<comment> \<open>the path \<open>k\<close> places after the cursor\<close>
  "path_from s k = cps_paths s ! ((cps_next s + k) mod length (cps_paths s))"

lemma find_upt_Some:
  "find P [0..<n] = Some k \<Longrightarrow> k < n \<and> P k \<and> (\<forall>j<k. \<not> P j)"
  by (auto simp: find_Some_iff)

lemma choose_index_cases:
  assumes "cps_paths s \<noteq> []"
  obtains k where "k < length (cps_paths s)" "\<not> cooling s now (path_from s k)"
      "\<forall>j<k. cooling s now (path_from s j)"
      "choose_index s now = (cps_next s + k) mod length (cps_paths s)"
  | "\<forall>j<length (cps_paths s). cooling s now (path_from s j)"
      "choose_index s now = cps_next s mod length (cps_paths s)"
proof -
  let ?n = "length (cps_paths s)"
  let ?P = "\<lambda>i. \<not> is_cooling_down
    (health_of s (cp_id (cps_paths s ! ((cps_next s mod ?n + i) mod ?n)))) now"
  have P: "?P i = (\<not> cooling s now (path_from s i))" for i
    by (simp add: cooling_def path_from_def mod_add_left_eq)
  show ?thesis
  proof (cases "find ?P [0..<?n]")
    case None
    then have "\<forall>j<?n. cooling s now (path_from s j)" by (auto simp: find_None_iff P)
    with None show ?thesis using that(2) by (simp add: choose_index_def Let_def)
  next
    case (Some k)
    from find_upt_Some [OF this] have "k < ?n" "\<not> cooling s now (path_from s k)"
      "\<forall>j<k. cooling s now (path_from s j)" by (auto simp: P)
    with Some show ?thesis using that(1) by (simp add: choose_index_def Let_def mod_add_left_eq)
  qed
qed

lemma path_from_covers:
  assumes "p \<in> set (cps_paths s)"
  obtains k where "k < length (cps_paths s)" "path_from s k = p"
proof -
  let ?n = "length (cps_paths s)"
  obtain i where i: "i < ?n" "cps_paths s ! i = p" using assms by (auto simp: in_set_conv_nth)
  define k where "k = (i + (?n - cps_next s mod ?n)) mod ?n"
  have "cps_next s mod ?n < ?n" using i(1) by (intro mod_less_divisor) linarith
  then have "cps_next s mod ?n + (i + (?n - cps_next s mod ?n)) = i + ?n" by simp
  moreover have "(cps_next s + k) mod ?n = (cps_next s mod ?n + (i + (?n - cps_next s mod ?n))) mod ?n"
    unfolding k_def by (simp only: mod_add_right_eq mod_add_left_eq)
  ultimately have "(cps_next s + k) mod ?n = i" using i(1) by simp
  then have "path_from s k = p" using i by (simp add: path_from_def)
  moreover have "k < ?n" unfolding k_def using i(1) by (intro mod_less_divisor) linarith
  ultimately show ?thesis using that by blast
qed

section \<open>Fairness while nothing cools down\<close>

definition all_awake :: "client_path_set \<Rightarrow> int \<Rightarrow> bool" where
  "all_awake s now \<longleftrightarrow> list_all (\<lambda>p. \<not> cooling s now p) (cps_paths s)"

lemma choose_index_awake:
  assumes "path_set_ok s" "cps_paths s \<noteq> []" "all_awake s now"
  shows "choose_index s now = cps_next s"
proof -
  have cur: "cps_next s < length (cps_paths s)"
    using assms(1,2) by (simp add: path_set_ok_def cursor_ok_def)
  then have "path_from s 0 \<in> set (cps_paths s)" by (simp add: path_from_def)
  then have "\<not> cooling s now (path_from s 0)" using assms(3) by (simp add: all_awake_def list_all_iff)
  with cur show ?thesis
    by (cases rule: choose_index_cases [OF assms(2), of now]) (force, auto)
qed

definition client_pick :: "int \<Rightarrow> client_path_set \<Rightarrow> nat \<times> client_path_set" where
  \<comment> \<open>\<open>nextPath\<close>, seen as the index it picks\<close>
  "client_pick now s = (choose_index s now, snd (cps_next_path s now))"

interpretation cps_cursor: round_robin_cursor "\<lambda>s. length (cps_paths s)" cps_next "client_pick now"
  "\<lambda>s. path_set_ok s \<and> cps_paths s \<noteq> [] \<and> all_awake s now" for now
proof (unfold_locales, goal_cases)
  case (4 s)
  have "cooling (snd (cps_next_path s now)) now p = cooling s now p" for p
    by (simp add: cooling_def health_of_def cps_next_path_def Let_def)
  with 4 show ?case by (simp add: client_pick_def next_path_ok all_awake_def)
next
  case (5 s)
  then show ?case by (simp add: path_set_ok_def cursor_ok_def)
qed (auto simp: client_pick_def choose_index_awake next_path_eq)

section \<open>Sequences of operations\<close>

datatype cps_op =
  OpAdd client_path | OpNext int | OpRemove nat | OpSuccess int | OpFailure int int

fun cps_apply :: "cps_op \<Rightarrow> client_path_set \<Rightarrow> client_path_set" where
  "cps_apply (OpAdd p) s = snd (cps_add s p)"
| "cps_apply (OpNext now) s = snd (cps_next_path s now)"
| "cps_apply (OpRemove stream) s = snd (cps_remove s stream)"
| "cps_apply (OpSuccess pid) s = cps_mark_success s pid"
| "cps_apply (OpFailure now pid) s = snd (cps_mark_failure s now pid)"

fun cps_run :: "cps_op list \<Rightarrow> client_path_set \<Rightarrow> client_path_set" where
  "cps_run [] s = s"
| "cps_run (x # xs) s = cps_run xs (cps_apply x s)"

fun op_fresh :: "cps_op \<Rightarrow> client_path_set \<Rightarrow> bool" where
  \<comment> \<open>a dialled path brings a stream of its own\<close>
  "op_fresh (OpAdd p) s = (\<not> list_ex (\<lambda>q. cp_stream q = cp_stream p) (cps_paths s))"
| "op_fresh _ s = True"

fun ops_fresh :: "cps_op list \<Rightarrow> client_path_set \<Rightarrow> bool" where
  "ops_fresh [] s = True"
| "ops_fresh (x # xs) s = (op_fresh x s \<and> ops_fresh xs (cps_apply x s))"

lemma cps_apply_ok: "path_set_ok s \<Longrightarrow> op_fresh x s \<Longrightarrow> path_set_ok (cps_apply x s)"
  by (cases x) (auto simp: next_path_ok remove_ok list_ex_iff intro!: add_ok)

lemma cps_run_ok: "path_set_ok s \<Longrightarrow> ops_fresh xs s \<Longrightarrow> path_set_ok (cps_run xs s)"
  by (induction xs arbitrary: s) (auto simp: cps_apply_ok)

section \<open>Cooldowns\<close>

lemma cooldown_eq:
  "client_path_cooldown n = (if n = 0 then 0 else second * 2 ^ (min (unat n) 5 - 1))"
proof (cases "n = 0")
  case False
  then have pos: "1 \<le> n" by (simp add: word_le_nat_alt Suc_leI unat_gt_0)
  have less: "5 < n \<longleftrightarrow> 5 < unat n" by (simp add: word_less_nat_alt)
  have "unat (n - 1) = unat n - 1" using unat_sub [OF pos] by simp
  with False less show ?thesis
    by (auto simp: client_path_cooldown_def push_bit_eq_mult min_def Let_def)
qed (simp add: client_path_cooldown_def)

fun fail_at :: "int \<Rightarrow> int list \<Rightarrow> client_path_set \<Rightarrow> client_path_set" where
  "fail_at pid [] s = s"
| "fail_at pid (t # ts) s = fail_at pid ts (snd (cps_mark_failure s t pid))"

lemma health_mark_failure:
  "health_of (snd (cps_mark_failure s t i)) j =
     (if j = i then \<lparr>consecutiveFailures = consecutiveFailures (health_of s i) + 1,
        cooldownUntil = t + client_path_cooldown (consecutiveFailures (health_of s i) + 1)\<rparr>
      else health_of s j)"
  by (simp add: cps_mark_failure_def health_of_def Let_def)

lemma health_fail_at:
  "ts \<noteq> [] \<Longrightarrow> health_of (fail_at i ts s) i =
     \<lparr>consecutiveFailures = consecutiveFailures (health_of s i) + of_nat (length ts),
      cooldownUntil = last ts +
        client_path_cooldown (consecutiveFailures (health_of s i) + of_nat (length ts))\<rparr>"
  by (induction ts arbitrary: s) (auto simp: health_mark_failure ac_simps)

section \<open>Properties\<close>

text \<open>
  (C27) \<open>nextPath\<close> skips cooling paths: it returns the first path from the cursor that is
  not cooling down, falls back to the path at the cursor when all of them are, moves the
  cursor just behind its result and changes nothing else; it fails only on an empty set.
\<close>

theorem next_path_skips_cooling:
  assumes "path_set_ok s"
  shows "(cps_paths s = [] \<longrightarrow> cps_next_path s now = (None, s)) \<and>
    (cps_paths s \<noteq> [] \<longrightarrow>
      (\<exists>k p. k < length (cps_paths s) \<and> p = path_from s k \<and>
        cps_next_path s now =
          (Some p, s\<lparr>cps_next := (cps_next s + k + 1) mod length (cps_paths s)\<rparr>) \<and>
        (\<forall>j<k. cooling s now (path_from s j)) \<and>
        (cooling s now p \<longrightarrow> k = 0 \<and> list_all (cooling s now) (cps_paths s))))"
proof (cases "cps_paths s = []")
  case False
  have next_eq: "cps_next_path s now =
      (Some (path_from s k), s\<lparr>cps_next := (cps_next s + k + 1) mod length (cps_paths s)\<rparr>)"
    if "choose_index s now = (cps_next s + k) mod length (cps_paths s)" for k
    using False that by (simp add: next_path_eq path_from_def mod_Suc_eq)
  show ?thesis
  proof (cases rule: choose_index_cases [OF False, of now])
    case (1 k)
    with False next_eq [OF 1(4)] show ?thesis by blast
  next
    case 2
    then have "choose_index s now = (cps_next s + 0) mod length (cps_paths s)" by simp
    note eq = next_eq [OF this]
    have "list_all (cooling s now) (cps_paths s)"
      using 2(1) path_from_covers unfolding list_all_iff by metis
    then show ?thesis
      using False eq by (intro conjI impI exI [of _ 0] exI [of _ "path_from s 0"]) simp_all
  qed
qed simp

definition example_path :: "int \<Rightarrow> nat \<Rightarrow> client_path" where
  \<comment> \<open>a path for the concrete instances of the theorems\<close>
  "example_path pid stream =
     \<lparr>cp_id = pid, cp_address = ''localhost:4433'', cp_conn = None, cp_stream = stream\<rparr>"

theorem next_path_skips_cooling_witness:
  \<comment> \<open>path 0, at which the cursor stands, is cooling down: path 1 is returned\<close>
  "\<exists>s. cps_paths s = [example_path 0 10, example_path 1 11] \<and> cps_next s = 0 \<and>
     cooling s 7 (example_path 0 10) \<and> cps_next_path s 7 = (Some (example_path 1 11), s)"
proof -
  define s where "s = snd (cps_mark_failure (new_client_path_set [example_path 0 10, example_path 1 11]) 5 0)"
  have "path_set_ok (new_client_path_set [example_path 0 10, example_path 1 11])"
    by (rule path_set_ok_new) (simp_all add: example_path_def)
  then have ok: "path_set_ok s" by (simp add: s_def)
  have s: "cps_paths s = [example_path 0 10, example_path 1 11]" "cps_next s = 0"
    by (simp_all add: s_def new_client_path_set_def cps_mark_failure_def Let_def)
  have health: "health_of (new_client_path_set ps) i = zero_health" for ps i
    by (simp add: health_of_def new_client_path_set_def)
  have none: "consecutiveFailures zero_health = 0" "cooldownUntil zero_health = 0"
    by (simp_all add: zero_health_def)
  have hot: "cooling s 7 (example_path 0 10)" and cool: "\<not> cooling s 7 (example_path 1 11)"
    by (simp_all add: s_def cooling_def health_mark_failure health none is_cooling_down_def
        cooldown_eq second_def example_path_def)
  have "cps_paths s \<noteq> []" by (simp add: s)
  then obtain k where "k < length (cps_paths s)" "cps_next_path s 7 =
        (Some (path_from s k), s\<lparr>cps_next := (cps_next s + k + 1) mod length (cps_paths s)\<rparr>)"
    and hot_only: "cooling s 7 (path_from s k) \<longrightarrow> list_all (cooling s 7) (cps_paths s)"
    using next_path_skips_cooling [OF ok, of 7] by blast
  moreover have "length (cps_paths s) = 2" by (simp add: s)
  ultimately have k: "k < 2" "cps_next_path s 7 = (Some (path_from s k), s\<lparr>cps_next := (k + 1) mod 2\<rparr>)"
    by (simp_all only: s(2) add_0)
  have "\<not> cooling s 7 (path_from s k)" using hot_only cool by (auto simp: s)
  moreover have "path_from s 0 = example_path 0 10" by (simp add: path_from_def s)
  ultimately have "k \<noteq> 0" using hot by (metis (no_types))
  with k(1) have "k = 1" by simp
  moreover have "path_from s 1 = example_path 1 11" by (simp add: path_from_def s)
  moreover have "s\<lparr>cps_next := 0\<rparr> = s" using s(2) by simp
  ultimately have "cps_next_path s 7 = (Some (example_path 1 11), s)" using k(2) by simp
  with s hot show ?thesis by blast
qed

text \<open>
  As long as no path cools down, the picks go round: the \<open>k\<close>-th of \<open>m\<close> successive
  picks is the path \<open>k\<close> places after the cursor, and one round uses every path once.
\<close>

theorem client_round_robin_fair:
  assumes "path_set_ok s" "cps_paths s \<noteq> []" "all_awake s now"
  shows "picks (client_pick now) m s =
      map (\<lambda>k. (cps_next s + k) mod length (cps_paths s)) [0..<m] \<and>
    set (picks (client_pick now) (length (cps_paths s)) s) = {..<length (cps_paths s)}"
  using assms cps_cursor.picks_eq [where s = s and now = now]
    cps_cursor.picks_cover [where s = s and now = now] by simp

theorem client_round_robin_fair_witness:
  "picks (client_pick 5) 3 (new_client_path_set [example_path 0 10, example_path 1 11]) = [0, 1, 0]"
proof -
  let ?s = "new_client_path_set [example_path 0 10, example_path 1 11]"
  have ok: "path_set_ok ?s" by (rule path_set_ok_new) (simp_all add: example_path_def)
  have paths: "cps_paths ?s = [example_path 0 10, example_path 1 11]" "cps_next ?s = 0"
    "cps_health ?s = (\<lambda>_. None)"
    by (simp_all add: new_client_path_set_def)
  then have "cps_paths ?s \<noteq> []" by simp
  moreover have "all_awake ?s 5"
    by (simp add: all_awake_def cooling_def health_of_def zero_health_def is_cooling_down_def paths)
  ultimately show ?thesis
    using client_round_robin_fair [OF ok, of 5 3] by (simp add: paths upt_rec)
qed

text \<open>
  (C26) Whatever sequence of additions, picks, removals and health updates the goroutines
  run, path ids and streams stay pairwise distinct and the cursor stays inside the list
  (zero on the empty one), provided each dialled path has a stream of its own.
\<close>

theorem path_set_invariant:
  assumes "distinct (map cp_id ps)" "distinct (map cp_stream ps)"
    "ops_fresh ops (new_client_path_set ps)"
  shows "path_set_ok (cps_run ops (new_client_path_set ps))"
  using assms by (intro cps_run_ok path_set_ok_new)

theorem path_set_invariant_witness:
  "path_set_ok (cps_run [OpFailure 7 0, OpRemove 10, OpNext 8, OpAdd (example_path 0 12), OpNext 9]
     (new_client_path_set [example_path 0 10, example_path 1 11]))"
  by (rule path_set_invariant)
    (simp_all add: example_path_def new_client_path_set_def cps_remove_def Let_def delete_at_def
      cps_mark_failure_def)

text \<open>
  A reconnect replaces the path of its id in place, and the receiver of the replaced
  path, when it stops and removes its own stream, no longer finds it: the new path stays.
\<close>

theorem stale_receiver_keeps_new_path:
  assumes "path_set_ok s" "cp_stream path \<notin> cp_stream ` set (cps_paths s)"
    "cps_add s path = (Some old, s')"
  shows "old \<in> set (cps_paths s) \<and> cp_id old = cp_id path \<and> path \<in> set (cps_paths s') \<and>
    length (cps_paths s') = length (cps_paths s) \<and> cps_remove s' (cp_stream old) = (None, s')"
proof -
  obtain i where i: "first_index (\<lambda>q. cp_id q = cp_id path) (cps_paths s) = Some i"
      "old = cps_paths s ! i" "s' = s\<lparr>cps_paths := (cps_paths s)[i := path]\<rparr>"
    using assms(3) by (auto simp: cps_add_def split: option.splits)
  then have less: "i < length (cps_paths s)" and id: "cp_id old = cp_id path"
    by (auto dest: first_index_Some)
  have mem: "old \<in> set (cps_paths s)" using less i(2) by simp
  have "cp_stream old \<notin> cp_stream ` set (cps_paths s')"
  proof
    assume "cp_stream old \<in> cp_stream ` set (cps_paths s')"
    then obtain j where j: "j < length (cps_paths s)" "cp_stream old = cp_stream ((cps_paths s)[i := path] ! j)"
      using i(3) by (auto simp: in_set_conv_nth)
    show False
    proof (cases "j = i")
      case True
      with j less have "cp_stream path = cp_stream old" by simp
      with mem assms(2) show False by (metis imageI)
    next
      case False
      with j i(2) less assms(1) show False
        by (auto simp: path_set_ok_def distinct_conv_nth)
    qed
  qed
  then have none: "fst (cps_remove s' (cp_stream old)) = None" by (simp add: remove_None)
  then have "cps_remove s' (cp_stream old) = (None, s')"
    using remove_unchanged [OF none] by (metis prod.collapse)
  with mem id i(3) less show ?thesis by (simp add: set_update_memI)
qed

theorem stale_receiver_keeps_new_path_witness:
  "cps_remove (snd (cps_add (new_client_path_set [example_path 0 10, example_path 1 11])
      (example_path 0 12))) 10 =
   (None, snd (cps_add (new_client_path_set [example_path 0 10, example_path 1 11])
      (example_path 0 12)))"
proof -
  let ?s = "new_client_path_set [example_path 0 10, example_path 1 11]"
  have ok: "path_set_ok ?s" by (rule path_set_ok_new) (simp_all add: example_path_def)
  have fresh: "cp_stream (example_path 0 12) \<notin> cp_stream ` set (cps_paths ?s)"
    by (simp add: new_client_path_set_def example_path_def)
  have add: "cps_add ?s (example_path 0 12) =
      (Some (example_path 0 10), snd (cps_add ?s (example_path 0 12)))"
    by (simp add: cps_add_def new_client_path_set_def example_path_def)
  have "cp_stream (example_path 0 10) = 10" by (simp add: example_path_def)
  then show ?thesis using stale_receiver_keeps_new_path [OF ok fresh add] by simp
qed

text \<open>
  Write failures cool a path down with exponential delay: after \<open>k\<close> consecutive
  failures, the last at time \<open>t\<close>, it cools until \<open>t\<close> plus \<open>2^(min k 5 - 1)\<close> seconds,
  so between one and sixteen seconds.
\<close>

theorem failures_cool_down:
  assumes "ts \<noteq> []" "length ts < 2 ^ 64" "cps_health s pid = None"
  shows "health_of (fail_at pid ts s) pid =
      \<lparr>consecutiveFailures = of_nat (length ts),
       cooldownUntil = last ts + second * 2 ^ (min (length ts) 5 - 1)\<rparr>"
proof -
  have "consecutiveFailures (health_of s pid) = 0"
    using assms(3) by (simp add: health_of_def zero_health_def)
  moreover have len: "unat (of_nat (length ts) :: 64 word) = length ts"
    using assms(2) by (simp add: unat_of_nat)
  moreover have "(of_nat (length ts) :: 64 word) \<noteq> 0"
    using assms(1) len by (metis length_0_conv unsigned_0)
  ultimately show ?thesis using health_fail_at [OF assms(1), of pid s] by (simp add: cooldown_eq)
qed

theorem failures_cool_down_witness:
  "health_of (fail_at 1 [0, 1000000000, 3000000000] (new_client_path_set [])) 1 =
     \<lparr>consecutiveFailures = 3, cooldownUntil = 7000000000\<rparr>"
  using failures_cool_down [of "[0, 1000000000, 3000000000]" "new_client_path_set []" 1]
  by (simp add: new_client_path_set_def second_def)

end
