(* ===== verification/Go_Net.thy ===== *)
theory Go_Net
  imports Prelude
begin

text \<open>
  The part of Go's standard library packages \<open>net\<close>, \<open>net/netip\<close> and \<open>strings\<close> the
  program relies on: IP addresses as byte slices, \<open>To4\<close>, \<open>Equal\<close>, \<open>CIDRMask\<close>,
  \<open>IPNet.Contains\<close>, and the address parsers behind \<open>net.ParseCIDR\<close> and
  \<open>net.ParseIP\<close>.  The zero-length list is the nil subslice.
\<close>

section \<open>Addresses\<close>

type_synonym ip = bytes

definition v4_in_v6_prefix :: bytes where
  "v4_in_v6_prefix = replicate 10 0 @ [0xff, 0xff]"

definition net_ipv4 :: "byte \<Rightarrow> byte \<Rightarrow> byte \<Rightarrow> byte \<Rightarrow> ip" where
  "net_ipv4 a b c d = v4_in_v6_prefix @ [a, b, c, d]"

definition to4 :: "ip \<Rightarrow> bytes option" where
  "to4 ip =
     (if length ip = 4 then Some ip
      else if length ip = 16 \<and> take 12 ip = v4_in_v6_prefix then Some (subslice ip 12 16)
      else None)"

definition ip_equal :: "ip \<Rightarrow> ip \<Rightarrow> bool" where
  "ip_equal ip x =
     (if length ip = length x then ip = x
      else if length ip = 4 \<and> length x = 16
        then take 12 x = v4_in_v6_prefix \<and> ip = drop 12 x
      else if length ip = 16 \<and> length x = 4
        then take 12 ip = v4_in_v6_prefix \<and> drop 12 ip = x
      else False)"

fun cidr_mask_bytes :: "nat \<Rightarrow> nat \<Rightarrow> bytes" where
  "cidr_mask_bytes n 0 = []"
| "cidr_mask_bytes n (Suc l) =
     (if 8 \<le> n then 0xff # cidr_mask_bytes (n - 8) l
      else NOT (drop_bit n 0xff) # cidr_mask_bytes 0 l)"

definition cidr_mask :: "nat \<Rightarrow> nat \<Rightarrow> bytes" where
  \<comment> \<open>\<open>net.CIDRMask(ones, bits)\<close> for \<open>ones \<le> bits\<close>, \<open>bits\<close> 32 or 128\<close>
  "cidr_mask ones bits = cidr_mask_bytes ones (bits div 8)"

definition ip_mask :: "ip \<Rightarrow> bytes \<Rightarrow> ip" where
  \<comment> \<open>\<open>IP.Mask\<close>; the nil result is the empty list\<close>
  "ip_mask ip m =
     (let m' = (if length m = 16 \<and> length ip = 4 \<and> take 12 m = replicate 12 0xff
                then drop 12 m else m);
          ip' = (if length m' = 4 \<and> length ip = 16 \<and> take 12 ip = v4_in_v6_prefix
                 then drop 12 ip else ip)
      in if length ip' \<noteq> length m' then [] else map2 (AND) ip' m')"

record ip_net =
  net_ip :: ip
  net_mask :: bytes

definition network_number_and_mask :: "ip_net \<Rightarrow> bytes \<times> bytes" where
  "network_number_and_mask n =
     (case to4 (net_ip n) of
        None \<Rightarrow>
          if length (net_ip n) \<noteq> 16 then ([], [])
          else if length (net_mask n) = 16 then (net_ip n, net_mask n)
          else ([], [])
      | Some ip \<Rightarrow>
          if length (net_mask n) = 4 then (ip, net_mask n)
          else if length (net_mask n) = 16 then (ip, drop 12 (net_mask n))
          else ([], []))"

definition net_contains :: "ip_net \<Rightarrow> ip \<Rightarrow> bool" where
  "net_contains n ip =
     (let (nn, m) = network_number_and_mask n;
          x = (case to4 ip of Some x \<Rightarrow> x | None \<Rightarrow> ip)
      in length x = length nn \<and> (\<forall>i \<in> set [0..<length x]. nn ! i AND m ! i = x ! i AND m ! i))"

section \<open>Parsing\<close>

definition char_val :: "char \<Rightarrow> nat" where
  "char_val c = of_char c"

definition is_digit :: "char \<Rightarrow> bool" where
  "is_digit c \<longleftrightarrow> 48 \<le> char_val c \<and> char_val c \<le> 57"

definition digit_val :: "char \<Rightarrow> nat" where
  "digit_val c = char_val c - 48"

fun v4_fields :: "string \<Rightarrow> char option \<Rightarrow> nat \<Rightarrow> nat \<Rightarrow> bytes \<Rightarrow> bytes option" where
  \<comment> \<open>remaining text, previous character, value and digit count of the current octet,
      octets already stored\<close>
  "v4_fields [] prev val digLen octets =
     (if length octets < 3 then None else Some (octets @ [of_nat val]))"
| "v4_fields (c # cs) prev val digLen octets =
     (if is_digit c then
        if digLen = 1 \<and> val = 0 then None
        else let val' = val * 10 + digit_val c
             in if 255 < val' then None else v4_fields cs (Some c) val' (digLen + 1) octets
      else if c = CHR ''.'' then
        if prev = None \<or> cs = [] \<or> prev = Some CHR ''.'' then None
        else if length octets = 3 then None
        else v4_fields cs (Some c) 0 0 (octets @ [of_nat val])
      else None)"

definition parse_ipv4_fields :: "string \<Rightarrow> bytes option" where
  "parse_ipv4_fields s = v4_fields s None 0 0 []"

definition hex_val :: "char \<Rightarrow> nat option" where
  "hex_val c =
     (let v = char_val c in
      if 48 \<le> v \<and> v \<le> 57 then Some (v - 48)
      else if 97 \<le> v \<and> v \<le> 102 then Some (v - 97 + 10)
      else if 65 \<le> v \<and> v \<le> 70 then Some (v - 65 + 10)
      else None)"

fun hex_scan :: "string \<Rightarrow> nat \<Rightarrow> nat \<Rightarrow> (nat \<times> nat) option" where
  "hex_scan [] acc off = Some (acc, off)"
| "hex_scan (c # cs) acc off =
     (case hex_val c of
        None \<Rightarrow> Some (acc, off)
      | Some v \<Rightarrow> if 3 < off then None
                  else if 65535 < acc * 16 + v then None
                  else hex_scan cs (acc * 16 + v) (off + 1))"

function v6_groups :: "string \<Rightarrow> bytes \<Rightarrow> nat option \<Rightarrow> (string \<times> bytes \<times> nat option) option"
where
  "v6_groups s ip ellipsis =
     (if 16 \<le> length ip then Some (s, ip, ellipsis)
      else case hex_scan s 0 0 of
        None \<Rightarrow> None
      | Some (acc, off) \<Rightarrow>
          if off = 0 then None
          else if off < length s \<and> s ! off = CHR ''.'' then
            if ellipsis = None \<and> length ip \<noteq> 12 then None
            else if 16 < length ip + 4 then None
            else map_option (\<lambda>f. ([], ip @ f, ellipsis)) (parse_ipv4_fields s)
          else
            let ip' = ip @ [of_nat (acc div 256), of_nat acc];
                s' = drop off s
            in if s' = [] then Some ([], ip', ellipsis)
               else if hd s' \<noteq> CHR '':'' \<or> length s' = 1 then None
               else let s'' = tl s' in
                 if hd s'' = CHR '':'' then
                   if ellipsis \<noteq> None then None
                   else if tl s'' = [] then Some ([], ip', Some (length ip'))
                   else v6_groups (tl s'') ip' (Some (length ip'))
                 else v6_groups s'' ip' ellipsis)"
  by pat_completeness auto
termination
  by (relation "measure (\<lambda>(s, _, _). length s)") auto

declare v6_groups.simps [simp del]

definition expand_ellipsis :: "bytes \<Rightarrow> nat option \<Rightarrow> bytes option" where
  "expand_ellipsis ip ellipsis =
     (case ellipsis of
        None \<Rightarrow> if length ip < 16 then None else Some ip
      | Some e \<Rightarrow> if length ip < 16 then Some (take e ip @ replicate (16 - length ip) 0 @ drop e ip)
                 else None)"

record addr =
  is4 :: bool
  as16 :: bytes
  zone :: string

definition addr_bit_len :: "addr \<Rightarrow> nat" where
  "addr_bit_len a = (if is4 a then 32 else 128)"

definition cut_at :: "char \<Rightarrow> string \<Rightarrow> (string \<times> string) option" where
  \<comment> \<open>split at the first occurrence; \<open>None\<close> when there is none\<close>
  "cut_at c s =
     (case dropWhile (\<lambda>x. x \<noteq> c) s of
        [] \<Rightarrow> None
      | _ # rest \<Rightarrow> Some (takeWhile (\<lambda>x. x \<noteq> c) s, rest))"

definition parse_ipv6 :: "string \<Rightarrow> addr option" where
  "parse_ipv6 s0 =
     (let (s, z, ok) = (case cut_at CHR ''%'' s0 of
                          None \<Rightarrow> (s0, [], True)
                        | Some (a, b) \<Rightarrow> (a, b, b \<noteq> []))
      in if \<not> ok then None
         else let lead = (2 \<le> length s \<and> take 2 s = ''::'');
                  s' = (if lead then drop 2 s else s)
              in if lead \<and> s' = [] then Some \<lparr>is4 = False, as16 = replicate 16 0, zone = z\<rparr>
                 else case v6_groups s' [] (if lead then Some 0 else None) of
                   None \<Rightarrow> None
                 | Some (rest, ip, ellipsis) \<Rightarrow>
                     if rest \<noteq> [] then None
                     else map_option (\<lambda>b. \<lparr>is4 = False, as16 = b, zone = z\<rparr>)
                            (expand_ellipsis ip ellipsis))"

definition parse_addr :: "string \<Rightarrow> addr option" where
  "parse_addr s =
     (case find (\<lambda>c. c \<in> {CHR ''.'', CHR '':'', CHR ''%''}) s of
        None \<Rightarrow> None
      | Some c \<Rightarrow>
          if c = CHR ''.'' then
            map_option (\<lambda>f. \<lparr>is4 = True, as16 = v4_in_v6_prefix @ f, zone = []\<rparr>)
              (parse_ipv4_fields s)
          else if c = CHR '':'' then parse_ipv6 s
          else None)"

fun dtoi :: "string \<Rightarrow> nat \<Rightarrow> nat \<Rightarrow> nat \<times> nat \<times> bool" where
  "dtoi [] n i = (if i = 0 then (0, 0, False) else (n, i, True))"
| "dtoi (c # cs) n i =
     (if is_digit c then
        let n' = n * 10 + digit_val c
        in if 0xFFFFFF \<le> n' then (0xFFFFFF, i, False) else dtoi cs n' (i + 1)
      else if i = 0 then (0, 0, False) else (n, i, True))"

definition parse_cidr :: "string \<Rightarrow> ip_net option" where
  \<comment> \<open>the network result of \<open>net.ParseCIDR\<close>; \<open>None\<close> is its error\<close>
  "parse_cidr s =
     (case cut_at CHR ''/'' s of
        None \<Rightarrow> None
      | Some (a, m) \<Rightarrow>
          (case parse_addr a of
             None \<Rightarrow> None
           | Some ipa \<Rightarrow>
               if zone ipa \<noteq> [] then None
               else let (n, i, ok) = dtoi m 0 0
                    in if \<not> ok \<or> i \<noteq> length m \<or> addr_bit_len ipa < n then None
                       else let m' = cidr_mask n (addr_bit_len ipa)
                            in Some \<lparr>net_ip = ip_mask (as16 ipa) m', net_mask = m'\<rparr>))"

definition parse_ip :: "string \<Rightarrow> ip" where
  \<comment> \<open>\<open>net.ParseIP\<close>; the nil result is the empty list\<close>
  "parse_ip s =
     (case parse_addr s of
        None \<Rightarrow> []
      | Some a \<Rightarrow> if zone a \<noteq> [] then [] else as16 a)"

section \<open>Printing\<close>

definition digit_char :: "nat \<Rightarrow> char" where
  "digit_char d = char_of (48 + d)"

fun show_nat :: "nat \<Rightarrow> string" where
  \<comment> \<open>the decimal notation that \<open>%d\<close> and \<open>IP.String\<close> produce\<close>
  "show_nat n =
     (if n < 10 then [digit_char n] else show_nat (n div 10) @ [digit_char (n mod 10)])"

declare show_nat.simps [simp del]

definition show_ipv4 :: "byte \<Rightarrow> byte \<Rightarrow> byte \<Rightarrow> byte \<Rightarrow> string" where
  "show_ipv4 a b c d = show_nat (unat a) @ ''.'' @ show_nat (unat b) @ ''.'' @
     show_nat (unat c) @ ''.'' @ show_nat (unat d)"

section \<open>Lemmas on addresses\<close>

lemma length_v4_prefix [simp]: "length v4_in_v6_prefix = 12"
  by (simp add: v4_in_v6_prefix_def)

lemma length_to4: "to4 ip = Some x \<Longrightarrow> length x = 4"
  by (auto simp: to4_def subslice_def split: if_splits)

lemma to4_length4 [simp]: "length ip = 4 \<Longrightarrow> to4 ip = Some ip"
  by (simp add: to4_def)

lemma to4_net_ipv4 [simp]: "to4 (net_ipv4 a b c d) = Some [a, b, c, d]"
  by (simp add: to4_def net_ipv4_def subslice_def)

lemma to4_idem: "to4 ip = Some x \<Longrightarrow> to4 x = Some x"
  by (simp add: length_to4)

lemma ip_equal_4 [simp]: "length x = 4 \<Longrightarrow> length y = 4 \<Longrightarrow> ip_equal x y \<longleftrightarrow> x = y"
  by (simp add: ip_equal_def)

lemma ip_equal_to4:
  assumes "to4 y = Some y4" "length x = 4"
  shows "ip_equal x y \<longleftrightarrow> x = y4"
  using assms by (auto simp: ip_equal_def to4_def subslice_def split: if_splits)

section \<open>CIDR masks, bit by bit\<close>

definition ip_bit :: "bytes \<Rightarrow> nat \<Rightarrow> bool" where
  \<comment> \<open>bit \<open>k\<close> of an address, counted from the most significant\<close>
  "ip_bit x k = bit (x ! (k div 8)) (7 - k mod 8)"

definition same_prefix :: "nat \<Rightarrow> bytes \<Rightarrow> bytes \<Rightarrow> bool" where
  "same_prefix n x y \<longleftrightarrow> list_all (\<lambda>k. ip_bit x k = ip_bit y k) [0..<n]"

lemma bit_ff: "bit (0xff :: byte) j \<longleftrightarrow> j < 8"
proof -
  have ff: "(0xff :: byte) = mask 8" by (simp add: mask_eq_exp_minus_1)
  show ?thesis unfolding ff bit_mask_iff by simp
qed

lemma length_cidr_mask_bytes [simp]: "length (cidr_mask_bytes n l) = l"
  by (induction n l rule: cidr_mask_bytes.induct) auto

lemma cidr_mask_bytes_bit:
  "k < l \<Longrightarrow> j < 8 \<Longrightarrow> bit (cidr_mask_bytes n l ! k) j \<longleftrightarrow> 8 * k + (7 - j) < n"
proof (induction n l arbitrary: k rule: cidr_mask_bytes.induct)
  case (2 n l)
  show ?case
  proof (cases k)
    case 0
    with 2 show ?thesis
      using bit_ff [of j] bit_ff [of "n + j"]
      by (cases "8 \<le> n") (auto simp: bit_not_iff bit_drop_bit_eq add.commute)
  next
    case (Suc k')
    with 2 show ?thesis by (auto simp: less_diff_conv)
  qed
qed simp

lemma byte_eqI: "(\<And>j. j < 8 \<Longrightarrow> bit (a :: byte) j = bit b j) \<Longrightarrow> a = b"
  by (rule bit_word_eqI) simp

lemma masked_eq_iff:
  assumes "k < l"
  shows "a AND cidr_mask_bytes n l ! k = b AND cidr_mask_bytes n l ! k \<longleftrightarrow>
    (\<forall>j<8. 8 * k + (7 - j) < n \<longrightarrow> bit a j = bit b j)" (is "?L = ?R")
proof
  assume ?L
  show ?R
  proof (intro allI impI)
    fix j :: nat assume "j < 8" "8 * k + (7 - j) < n"
    with assms have "bit (cidr_mask_bytes n l ! k) j" by (simp add: cidr_mask_bytes_bit)
    moreover have "bit (a AND cidr_mask_bytes n l ! k) j = bit (b AND cidr_mask_bytes n l ! k) j"
      using \<open>?L\<close> by simp
    ultimately show "bit a j = bit b j" by (simp add: bit_and_iff)
  qed
next
  assume ?R
  show ?L
    by (rule byte_eqI) (use \<open>?R\<close> assms in \<open>auto simp: bit_and_iff cidr_mask_bytes_bit\<close>)
qed

lemma masked_eq_same_prefix:
  assumes "n \<le> 8 * l"
  shows "(\<forall>k<l. x ! k AND cidr_mask_bytes n l ! k = y ! k AND cidr_mask_bytes n l ! k)
    \<longleftrightarrow> same_prefix n x y" (is "?L = ?R")
proof -
  have "?L \<longleftrightarrow> (\<forall>k<l. \<forall>j<8. 8 * k + (7 - j) < n \<longrightarrow> bit (x ! k) j = bit (y ! k) j)"
    by (simp add: masked_eq_iff)
  also have "\<dots> \<longleftrightarrow> (\<forall>i<n. ip_bit x i = ip_bit y i)" (is "?A = ?B")
  proof
    assume ?A
    show ?B
    proof (intro allI impI)
      fix i assume "i < n"
      with assms have "i div 8 < l" "8 * (i div 8) + (7 - (7 - i mod 8)) < n" by auto
      with \<open>?A\<close> show "ip_bit x i = ip_bit y i" unfolding ip_bit_def by auto
    qed
  next
    assume ?B
    show ?A
    proof (intro allI impI)
      fix k j assume "k < l" "j < 8" "8 * k + (7 - j) < n"
      with \<open>?B\<close> have "ip_bit x (8 * k + (7 - j)) = ip_bit y (8 * k + (7 - j))" by simp
      moreover have "(8 * k + (7 - j)) div 8 = k" "(8 * k + (7 - j)) mod 8 = 7 - j" by auto
      moreover have "7 - (7 - j) = j" using \<open>j < 8\<close> by simp
      ultimately show "bit (x ! k) j = bit (y ! k) j" unfolding ip_bit_def by metis
    qed
  qed
  also have "\<dots> \<longleftrightarrow> ?R" by (auto simp: same_prefix_def list_all_iff)
  finally show ?thesis .
qed

lemma net_contains_v4:
  assumes "length nn = 4" "n \<le> 32"
  shows "net_contains \<lparr>net_ip = nn, net_mask = cidr_mask n 32\<rparr> ip \<longleftrightarrow>
    (case to4 ip of Some x \<Rightarrow> same_prefix n nn x | None \<Rightarrow> False)"
proof -
  have len: "length (cidr_mask n 32) = 4" by (simp add: cidr_mask_def)
  show ?thesis
  proof (cases "to4 ip")
    case None
    then have "length ip \<noteq> 4" by (auto simp: to4_def split: if_splits)
    with None assms len show ?thesis
      by (simp add: net_contains_def network_number_and_mask_def)
  next
    case (Some x)
    then have "length x = 4" by (rule length_to4)
    with Some assms len masked_eq_same_prefix [of n 4 nn x] show ?thesis
      by (simp add: net_contains_def network_number_and_mask_def cidr_mask_def Ball_def)
  qed
qed

section \<open>Parsing what was printed\<close>

lemma char_val_digit [simp]: "d < 10 \<Longrightarrow> char_val (digit_char d) = 48 + d"
  by (simp add: char_val_def digit_char_def take_bit_nat_eq_self)

lemma is_digit_digit_char [simp]: "d < 10 \<Longrightarrow> is_digit (digit_char d)"
  by (simp add: is_digit_def)

lemma digit_val_digit_char [simp]: "d < 10 \<Longrightarrow> digit_val (digit_char d) = d"
  by (simp add: digit_val_def)

lemma not_digit_punct [simp]:
  "\<not> is_digit CHR ''.''" "\<not> is_digit CHR ''/''" "\<not> is_digit CHR '':''" "\<not> is_digit CHR ''%''"
  by (simp_all add: is_digit_def char_val_def)

lemma digit_char_neq [simp]:
  "d < 10 \<Longrightarrow> digit_char d \<noteq> CHR ''.''" "d < 10 \<Longrightarrow> digit_char d \<noteq> CHR ''/''"
  "d < 10 \<Longrightarrow> digit_char d \<noteq> CHR '':''" "d < 10 \<Longrightarrow> digit_char d \<noteq> CHR ''%''"
  using is_digit_digit_char not_digit_punct by metis+

lemma show_nat_digits: "\<forall>c \<in> set (show_nat n). is_digit c"
proof (induction n rule: show_nat.induct)
  case (1 n)
  then show ?case by (auto simp: show_nat.simps [of n])
qed

lemma show_nat_nonempty [simp]: "show_nat n \<noteq> []"
  by (simp add: show_nat.simps [of n])

lemma show_nat_1: "n < 10 \<Longrightarrow> show_nat n = [digit_char n]"
  by (simp add: show_nat.simps [of n])

lemma show_nat_2:
  "10 \<le> n \<Longrightarrow> n < 100 \<Longrightarrow> show_nat n = [digit_char (n div 10), digit_char (n mod 10)]"
  by (simp add: show_nat.simps [of n] show_nat_1)

lemma show_nat_3:
  assumes "100 \<le> n" "n < 1000"
  shows "show_nat n = [digit_char (n div 100), digit_char (n div 10 mod 10), digit_char (n mod 10)]"
proof -
  have "10 \<le> n div 10" "n div 10 < 100" "n div 10 div 10 = n div 100" using assms by auto
  with assms show ?thesis by (simp add: show_nat.simps [of n] show_nat_2)
qed

lemmas show_nat_small = show_nat_1 show_nat_2 show_nat_3

lemma v4_fields_octet:
  assumes "n < 256"
  shows "v4_fields (show_nat n @ rest) prev 0 0 fs =
     v4_fields rest (Some (digit_char (n mod 10))) n (length (show_nat n)) fs"
proof -
  consider "n < 10" | "10 \<le> n" "n < 100" | "100 \<le> n" "n < 256" using assms by linarith
  then show ?thesis
  proof cases
    case 2
    then have "n div 10 \<noteq> 0" "n div 10 < 10" "n div 10 * 10 + n mod 10 = n" "\<not> 255 < n div 10"
      by auto
    with 2 show ?thesis by (simp add: show_nat_small Let_def)
  next
    case 3
    have "n div 100 = n div 10 div 10" by (simp add: div_mult2_eq [symmetric])
    then have "n div 100 * 10 + n div 10 mod 10 = n div 10" by (simp only: div_mult_mod_eq)
    moreover from 3 have "n div 100 \<noteq> 0" "n div 100 < 10"
      "n div 10 * 10 + n mod 10 = n" "n div 10 \<le> 255" by auto
    ultimately show ?thesis using 3 by (simp add: show_nat_small Let_def)
  qed (simp add: show_nat_small)
qed

lemma v4_fields_dot:
  assumes "n < 256" "length fs < 3" "rest \<noteq> []"
  shows "v4_fields (show_nat n @ CHR ''.'' # rest) prev 0 0 fs =
     v4_fields rest (Some CHR ''.'') 0 0 (fs @ [of_nat n])"
  using assms by (simp add: v4_fields_octet)

lemma parse_show_ipv4_fields: "parse_ipv4_fields (show_ipv4 a b c d) = Some [a, b, c, d]"
proof -
  have last: "v4_fields (show_nat (unat d)) prev 0 0 [a, b, c] = Some [a, b, c, d]" for prev
    using v4_fields_octet [of "unat d" "[]" prev "[a, b, c]"] by simp
  show ?thesis
    unfolding parse_ipv4_fields_def show_ipv4_def by (simp add: v4_fields_dot last)
qed

lemma find_append_None: "find P xs = None \<Longrightarrow> find P (xs @ ys) = find P ys"
  by (induction xs) (auto split: if_splits)

lemma find_punct_show_nat:
  "find (\<lambda>x. x = CHR ''.'' \<or> x = CHR '':'' \<or> x = CHR ''%'') (show_nat n) = None"
  using show_nat_digits [of n] by (auto simp: find_None_iff)

lemma parse_addr_show_ipv4:
  "parse_addr (show_ipv4 a b c d) =
     Some \<lparr>is4 = True, as16 = v4_in_v6_prefix @ [a, b, c, d], zone = []\<rparr>"
proof -
  have "find (\<lambda>x. x = CHR ''.'' \<or> x = CHR '':'' \<or> x = CHR ''%'') (show_ipv4 a b c d) = Some CHR ''.''"
    unfolding show_ipv4_def by (simp add: find_append_None [OF find_punct_show_nat])
  then show ?thesis
    by (simp add: parse_addr_def parse_show_ipv4_fields)
qed

lemma parse_ip_show_ipv4: "parse_ip (show_ipv4 a b c d) = net_ipv4 a b c d"
  by (simp add: parse_ip_def parse_addr_show_ipv4 net_ipv4_def)

lemma show_ipv4_chars: "x \<in> set (show_ipv4 a b c d) \<Longrightarrow> is_digit x \<or> x = CHR ''.''"
  using show_nat_digits by (auto simp: show_ipv4_def)

lemma cut_at_first: "c \<notin> set xs \<Longrightarrow> cut_at c (xs @ c # ys) = Some (xs, ys)"
proof -
  assume c: "c \<notin> set xs"
  then have "dropWhile (\<lambda>x. x \<noteq> c) (xs @ c # ys) = c # ys"
    by (subst dropWhile_append2) auto
  moreover from c have "takeWhile (\<lambda>x. x \<noteq> c) (xs @ c # ys) = xs"
    by (subst takeWhile_append2) auto
  ultimately show ?thesis by (simp add: cut_at_def)
qed

lemma ip_mask_v4:
  assumes "length x = 4" "n \<le> 32"
  shows "ip_mask (v4_in_v6_prefix @ x) (cidr_mask n 32) = map2 (AND) x (cidr_mask n 32)"
  using assms by (simp add: ip_mask_def cidr_mask_def Let_def)

lemma dtoi_show_nat: "n < 100 \<Longrightarrow> dtoi (show_nat n) 0 0 = (n, length (show_nat n), True)"
  by (cases "n < 10") (simp_all add: show_nat_small Let_def)

lemma parse_cidr_show:
  assumes "n \<le> 32"
  shows "parse_cidr (show_ipv4 a b c d @ ''/'' @ show_nat n) =
     Some \<lparr>net_ip = map2 (AND) [a, b, c, d] (cidr_mask n 32), net_mask = cidr_mask n 32\<rparr>"
proof -
  have "CHR ''/'' \<notin> set (show_ipv4 a b c d)"
    using show_ipv4_chars by fastforce
  then have "cut_at CHR ''/'' (show_ipv4 a b c d @ ''/'' @ show_nat n) = Some (show_ipv4 a b c d, show_nat n)"
    by (simp add: cut_at_first)
  with assms show ?thesis
    by (simp add: parse_cidr_def parse_addr_show_ipv4 dtoi_show_nat addr_bit_len_def ip_mask_v4 Let_def)
qed

lemma same_prefix_masked:
  assumes "length x = l" "n \<le> 8 * l"
  shows "same_prefix n (map2 (AND) x (cidr_mask_bytes n l)) y \<longleftrightarrow> same_prefix n x y"
proof -
  have "(map2 (AND) x (cidr_mask_bytes n l)) ! k AND cidr_mask_bytes n l ! k = x ! k AND cidr_mask_bytes n l ! k"
    if "k < l" for k using that assms by (simp add: and.assoc)
  then show ?thesis
    using masked_eq_same_prefix [OF assms(2), of "map2 (AND) x (cidr_mask_bytes n l)" y]
      masked_eq_same_prefix [OF assms(2), of x y] by auto
qed

end
