(* ===== verification/Stats.thy ===== *)
theory Stats
  imports Go_Net "HOL-Library.Multiset"
begin

text \<open>
  The packet counters of \<open>internal/stats/stats.go\<close>: six 64-bit counters that wrap
  around, updated by atomic additions, and the two renderings of a snapshot.
\<close>

section \<open>Counters\<close>

record counters =
  rxPackets :: "64 word"
  rxBytes :: "64 word"
  txPackets :: "64 word"
  txBytes :: "64 word"
  droppedPackets :: "64 word"
  errors :: "64 word"

definition zero_counters :: counters where
  "zero_counters = \<lparr>rxPackets = 0, rxBytes = 0, txPackets = 0, txBytes = 0,
     droppedPackets = 0, errors = 0\<rparr>"

definition byte_increment :: "int \<Rightarrow> 64 word" where
  \<comment> \<open>what \<open>addPacket\<close> adds to the byte counter\<close>
  "byte_increment packetBytes = (if 0 < packetBytes then of_int packetBytes else 0)"

definition add_rx :: "int \<Rightarrow> counters \<Rightarrow> counters" where
  "add_rx packetBytes c =
     c\<lparr>rxPackets := rxPackets c + 1, rxBytes := rxBytes c + byte_increment packetBytes\<rparr>"

definition add_tx :: "int \<Rightarrow> counters \<Rightarrow> counters" where
  "add_tx packetBytes c =
     c\<lparr>txPackets := txPackets c + 1, txBytes := txBytes c + byte_increment packetBytes\<rparr>"

definition add_drop :: "counters \<Rightarrow> counters" where
  "add_drop c = c\<lparr>droppedPackets := droppedPackets c + 1\<rparr>"

definition add_error :: "counters \<Rightarrow> counters" where
  "add_error c = c\<lparr>errors := errors c + 1\<rparr>"

lemmas counter_defs = add_rx_def add_tx_def add_drop_def add_error_def

definition handled :: "counters \<Rightarrow> 64 word" where
  \<comment> \<open>the packets that were sent or dropped\<close>
  "handled c = txPackets c + droppedPackets c"

lemma handled_simps [simp]:
  "handled (add_tx n c) = handled c + 1" "handled (add_drop c) = handled c + 1"
  "handled (add_error c) = handled c" "handled (add_rx n c) = handled c"
  by (simp_all add: handled_def counter_defs)

lemma dropped_simps [simp]:
  "droppedPackets (add_tx n c) = droppedPackets c" "droppedPackets (add_rx n c) = droppedPackets c"
  "droppedPackets (add_drop c) = droppedPackets c + 1" "droppedPackets (add_error c) = droppedPackets c"
  by (simp_all add: counter_defs)

lemma tx_simps [simp]:
  "txPackets (add_tx n c) = txPackets c + 1" "txPackets (add_rx n c) = txPackets c"
  "txPackets (add_drop c) = txPackets c" "txPackets (add_error c) = txPackets c"
  by (simp_all add: counter_defs)

lemma errors_simps [simp]:
  "errors (add_tx n c) = errors c" "errors (add_rx n c) = errors c"
  "errors (add_drop c) = errors c" "errors (add_error c) = errors c + 1"
  by (simp_all add: counter_defs)

lemma rx_simps [simp]:
  "rxPackets (add_rx n c) = rxPackets c + 1"
  "rxPackets (add_tx n c) = rxPackets c" "rxPackets (add_drop c) = rxPackets c"
  "rxPackets (add_error c) = rxPackets c"
  "rxBytes (add_tx n c) = rxBytes c" "rxBytes (add_drop c) = rxBytes c"
  "rxBytes (add_error c) = rxBytes c"
  by (simp_all add: counter_defs)

section \<open>Snapshots\<close>

record snapshot =
  RXPackets :: "64 word"
  RXBytes :: "64 word"
  TXPackets :: "64 word"
  TXBytes :: "64 word"
  DroppedPackets :: "64 word"
  Errors :: "64 word"

definition take_snapshot_loads ::
  "counters \<Rightarrow> counters \<Rightarrow> counters \<Rightarrow> counters \<Rightarrow> counters \<Rightarrow> counters \<Rightarrow> snapshot" where
  \<comment> \<open>\<open>Counters.Snapshot\<close>: six loads, each of the state the counters are in when it runs\<close>
  "take_snapshot_loads c1 c2 c3 c4 c5 c6 =
     \<lparr>RXPackets = rxPackets c1, RXBytes = rxBytes c2, TXPackets = txPackets c3,
      TXBytes = txBytes c4, DroppedPackets = droppedPackets c5, Errors = errors c6\<rparr>"

definition take_snapshot :: "counters \<Rightarrow> snapshot" where
  \<comment> \<open>\<open>Counters.Snapshot\<close> with no concurrent update\<close>
  "take_snapshot c = take_snapshot_loads c c c c c c"

definition show_u64 :: "64 word \<Rightarrow> string" where
  "show_u64 w = show_nat (unat w)"

definition text_snapshot :: "snapshot \<Rightarrow> string" where
  "text_snapshot s =
     ''rx='' @ show_u64 (RXPackets s) @ '' packets/'' @ show_u64 (RXBytes s) @ '' bytes tx='' @
     show_u64 (TXPackets s) @ '' packets/'' @ show_u64 (TXBytes s) @ '' bytes dropped='' @
     show_u64 (DroppedPackets s) @ '' errors='' @ show_u64 (Errors s)"

definition quoted :: "string \<Rightarrow> string" where
  "quoted name = [char_of (34 :: nat)] @ name @ [char_of (34 :: nat)]"

definition json_field :: "string \<Rightarrow> 64 word \<Rightarrow> string" where
  "json_field name v = quoted name @ '':'' @ show_u64 v"

definition json_snapshot :: "snapshot \<Rightarrow> string" where
  \<comment> \<open>\<open>json.Marshal\<close> of a struct of unsigned integers does not fail\<close>
  "json_snapshot s =
     ''{'' @ json_field ''rx_packets'' (RXPackets s) @ '','' @ json_field ''rx_bytes'' (RXBytes s) @ '','' @
     json_field ''tx_packets'' (TXPackets s) @ '','' @ json_field ''tx_bytes'' (TXBytes s) @ '','' @
     json_field ''dropped_packets'' (DroppedPackets s) @ '','' @ json_field ''errors'' (Errors s) @ ''}''"

definition stats_snapshot_formatter :: "bool \<Rightarrow> snapshot \<Rightarrow> string" where
  "stats_snapshot_formatter jsonOutput = (if jsonOutput then json_snapshot else text_snapshot)"

section \<open>Periodic logging\<close>

datatype log_wake = LogContextDone | LogTick counters

fun log_ticks :: "(snapshot \<Rightarrow> string) \<Rightarrow> log_wake list \<Rightarrow> string list" where
  \<comment> \<open>the loop of \<open>LogEvery\<close> over the wakes of its \<open>select\<close>: the lines it logs\<close>
  "log_ticks formatter [] = []"
| "log_ticks formatter (LogContextDone # wakes) = []"
| "log_ticks formatter (LogTick c # wakes) =
     (''stats: '' @ formatter (take_snapshot c)) # log_ticks formatter wakes"

definition log_every ::
  "int \<Rightarrow> bool \<Rightarrow> bool \<Rightarrow> (snapshot \<Rightarrow> string) option list \<Rightarrow> log_wake list \<Rightarrow> string list" where
  \<comment> \<open>the flags say whether \<open>counters\<close> and \<open>logf\<close> are not nil; \<open>None\<close> is a nil formatter\<close>
  "log_every interval hasCounters hasLogf formatters wakes =
     (if interval \<le> 0 \<or> \<not> hasCounters \<or> \<not> hasLogf then []
      else let formatter =
             (case formatters of Some f # fs \<Rightarrow> f | _ \<Rightarrow> text_snapshot)
           in log_ticks formatter wakes)"

lemma log_every_lines:
  \<comment> \<open>one line per tick before the end of the context, none after it\<close>
  "0 < interval \<Longrightarrow>
   log_every interval True True (Some f # fs) (map LogTick cs @ LogContextDone # wakes) =
     map (\<lambda>c. ''stats: '' @ f (take_snapshot c)) cs"
proof -
  assume "0 < interval"
  moreover have "log_ticks f (map LogTick cs @ LogContextDone # wakes) =
      map (\<lambda>c. ''stats: '' @ f (take_snapshot c)) cs"
    by (induction cs) simp_all
  ultimately show ?thesis by (simp add: log_every_def)
qed

section \<open>Interleavings of updates\<close>

datatype counter_op = AddRX int | AddTX int | AddDrop | AddError

fun apply_op :: "counter_op \<Rightarrow> counters \<Rightarrow> counters" where
  "apply_op (AddRX n) c = add_rx n c"
| "apply_op (AddTX n) c = add_tx n c"
| "apply_op AddDrop c = add_drop c"
| "apply_op AddError c = add_error c"

definition run_ops :: "counter_op list \<Rightarrow> counters \<Rightarrow> counters" where
  "run_ops ops c = fold apply_op ops c"

lemma apply_op_commute: "apply_op a (apply_op b c) = apply_op b (apply_op a c)"
  by (cases a; cases b) (simp_all add: counter_defs ac_simps)

lemma run_ops_perm: "mset xs = mset ys \<Longrightarrow> run_ops xs c = run_ops ys c"
  unfolding run_ops_def
  by (rule fold_permuted_eq [where P = "\<lambda>_. True"]) (auto simp: fun_eq_iff apply_op_commute)

lemma run_ops_simps [simp]:
  "run_ops [] c = c" "run_ops (x # xs) c = run_ops xs (apply_op x c)"
  by (simp_all add: run_ops_def)

lemma run_ops_append: "run_ops (xs @ ys) c = run_ops ys (run_ops xs c)"
  by (simp add: run_ops_def)

section \<open>Reading a rendered snapshot back\<close>

fun numbers :: "nat option \<Rightarrow> string \<Rightarrow> nat list" where
  \<comment> \<open>the decimal numerals of a text, from left to right\<close>
  "numbers None [] = []"
| "numbers (Some n) [] = [n]"
| "numbers acc (c # cs) =
     (if is_digit c then numbers (Some (10 * (case acc of None \<Rightarrow> 0 | Some n \<Rightarrow> n) + digit_val c)) cs
      else (case acc of None \<Rightarrow> numbers None cs | Some n \<Rightarrow> n # numbers None cs))"

lemma numbers_show_nat: "numbers None (show_nat n @ rest) = numbers (Some n) rest"
proof (induction n arbitrary: rest rule: show_nat.induct)
  case (1 n)
  show ?case
  proof (cases "n < 10")
    case True
    then show ?thesis by (simp add: show_nat.simps [of n])
  next
    case False
    then have "numbers None (show_nat n @ rest) =
        numbers None (show_nat (n div 10) @ digit_char (n mod 10) # rest)"
      by (simp add: show_nat.simps [of n])
    also have "\<dots> = numbers (Some (n div 10)) (digit_char (n mod 10) # rest)"
      using False by (rule 1)
    finally show ?thesis by simp
  qed
qed

definition snapshot_values :: "snapshot \<Rightarrow> nat list" where
  "snapshot_values s = map unat [RXPackets s, RXBytes s, TXPackets s, TXBytes s,
     DroppedPackets s, Errors s]"

lemma numbers_nondigit [simp]:
  "\<not> is_digit c \<Longrightarrow> numbers None (c # cs) = numbers None cs"
  "\<not> is_digit c \<Longrightarrow> numbers (Some n) (c # cs) = n # numbers None cs"
  by simp_all

lemma numbers_text: "numbers None (text_snapshot s) = snapshot_values s"
  using numbers_show_nat [of _ "[]"]
  by (simp add: text_snapshot_def snapshot_values_def show_u64_def numbers_show_nat
      is_digit_def char_val_def)

lemma numbers_json: "numbers None (json_snapshot s) = snapshot_values s"
  by (simp add: json_snapshot_def json_field_def quoted_def snapshot_values_def show_u64_def
      numbers_show_nat is_digit_def char_val_def)

lemma snapshot_values_inj: "snapshot_values s = snapshot_values t \<Longrightarrow> s = t"
  by (cases s; cases t) (simp add: snapshot_values_def word_unat_eq_iff)

section \<open>Totals\<close>

fun rx_total :: "counter_op list \<Rightarrow> nat" where
  "rx_total [] = 0"
| "rx_total (AddRX n # ops) = nat n + rx_total ops"
| "rx_total (_ # ops) = rx_total ops"

fun tx_total :: "counter_op list \<Rightarrow> nat" where
  "tx_total [] = 0"
| "tx_total (AddTX n # ops) = nat n + tx_total ops"
| "tx_total (_ # ops) = tx_total ops"

definition count_op :: "(counter_op \<Rightarrow> bool) \<Rightarrow> counter_op list \<Rightarrow> nat" where
  "count_op P ops = length (filter P ops)"

fun is_rx :: "counter_op \<Rightarrow> bool" where
  "is_rx (AddRX n) = True" | "is_rx _ = False"

fun is_tx :: "counter_op \<Rightarrow> bool" where
  "is_tx (AddTX n) = True" | "is_tx _ = False"

lemma byte_increment_nat: "byte_increment n = of_nat (nat n)"
  by (simp add: byte_increment_def)

lemma run_ops_totals:
  "run_ops ops c =
     \<lparr>rxPackets = rxPackets c + of_nat (count_op is_rx ops),
      rxBytes = rxBytes c + of_nat (rx_total ops),
      txPackets = txPackets c + of_nat (count_op is_tx ops),
      txBytes = txBytes c + of_nat (tx_total ops),
      droppedPackets = droppedPackets c + of_nat (count_op (\<lambda>x. x = AddDrop) ops),
      errors = errors c + of_nat (count_op (\<lambda>x. x = AddError) ops)\<rparr>"
proof (induction ops arbitrary: c)
  case (Cons x ops)
  then show ?case
    by (cases x) (simp_all add: counter_defs count_op_def byte_increment_nat ac_simps)
qed (simp add: count_op_def)

section \<open>Properties\<close>

text \<open>
  However the goroutines interleave their updates, a counter ends up with the number
  of its updates (or the sum of their positive byte counts) modulo \<open>2^64\<close>: the final
  counters depend only on the multiset of updates.
\<close>

theorem counters_interleaving_independent:
  assumes "mset ops = mset ops'"
  shows "run_ops ops' zero_counters =
    \<lparr>rxPackets = of_nat (count_op is_rx ops), rxBytes = of_nat (rx_total ops),
     txPackets = of_nat (count_op is_tx ops), txBytes = of_nat (tx_total ops),
     droppedPackets = of_nat (count_op (\<lambda>x. x = AddDrop) ops),
     errors = of_nat (count_op (\<lambda>x. x = AddError) ops)\<rparr>"
  using run_ops_perm [OF assms, of zero_counters] run_ops_totals [of ops zero_counters]
  by (simp add: zero_counters_def)

theorem counters_interleaving_independent_witness:
  "run_ops [AddTX 7, AddRX 5] zero_counters =
    \<lparr>rxPackets = 1, rxBytes = 5, txPackets = 1, txBytes = 7, droppedPackets = 0, errors = 0\<rparr>"
  using counters_interleaving_independent [of "[AddRX 5, AddTX 7]" "[AddTX 7, AddRX 5]"]
  by (simp add: count_op_def)

text \<open>
  Both renderings of a snapshot carry exactly its six values, in the order of the
  struct: reading the numerals back gives them, so two snapshots that print alike are equal.
\<close>

theorem snapshot_renderings_faithful:
  "numbers None (stats_snapshot_formatter jsonOutput s) = snapshot_values s \<and>
   (stats_snapshot_formatter jsonOutput s = stats_snapshot_formatter jsonOutput t) = (s = t)"
proof -
  have val: "numbers None (stats_snapshot_formatter jsonOutput u) = snapshot_values u" for u
    by (simp add: stats_snapshot_formatter_def numbers_text numbers_json)
  then show ?thesis using snapshot_values_inj by metis
qed

text \<open>
  A snapshot is not a point in time when an update runs between its loads: with one
  received packet added after the first load, the result shows a byte count without its
  packet, a combination the counters never had.
\<close>

theorem snapshot_can_be_torn:
  "let c0 = zero_counters; c1 = add_rx 5 c0; s = take_snapshot_loads c0 c1 c1 c1 c1 c1
   in RXPackets s = 0 \<and> RXBytes s = 5 \<and> s \<notin> {take_snapshot c0, take_snapshot c1}"
  by (simp add: take_snapshot_loads_def take_snapshot_def zero_counters_def add_rx_def
      byte_increment_def)

end
