(* ===== verification/Checksum.thy ===== *)
theory Checksum
  imports Prelude
begin

text \<open>
  The Internet checksum of \<open>internal/packet/checksum.go\<close>.
\<close>

fun add_words :: "32 word \<Rightarrow> bytes \<Rightarrow> 32 word" where
  "add_words acc (a # b # rest) = add_words (acc + (push_bit 8 (ucast a) OR ucast b)) rest"
| "add_words acc [a] = acc + push_bit 8 (ucast a)"
| "add_words acc [] = acc"

lemma unat_and_ffff: "unat (s AND 0xffff :: 32 word) = unat s mod 65536"
proof -
  have "s AND 0xffff = take_bit 16 s"
    by (simp add: take_bit_eq_mask mask_eq_exp_minus_1)
  moreover have "unat (take_bit 16 s) = take_bit 16 (unat s)"
    by (rule unsigned_take_bit_eq)
  ultimately show ?thesis
    by (simp add: take_bit_nat_def)
qed

lemma unat_drop_16: "unat (drop_bit 16 s :: 32 word) = unat s div 65536"
  by (subst unat_drop_bit_eq) (simp add: drop_bit_nat_def)

lemma unat_fold_once:
  "unat ((s AND 0xffff) + drop_bit 16 s :: 32 word) = unat s mod 65536 + unat s div 65536"
proof -
  have "unat s < 2 ^ 32" using unsigned_less [of s] by simp
  then have "unat s mod 65536 + unat s div 65536 < 2 ^ 32" by simp
  then show ?thesis by (simp add: unat_word_ariths unat_and_ffff unat_drop_16)
qed

lemma drop_16_zero_iff: "drop_bit 16 (s :: 32 word) = 0 \<longleftrightarrow> unat s < 65536"
proof -
  have "drop_bit 16 s = 0 \<longleftrightarrow> unat (drop_bit 16 s) = 0"
    by (simp add: unsigned_eq_0_iff)
  also have "\<dots> \<longleftrightarrow> unat s < 65536"
    by (simp only: unat_drop_16) (simp add: div_eq_0_iff)
  finally show ?thesis .
qed

function fold_carries :: "32 word \<Rightarrow> 32 word" where
  "fold_carries s =
     (if drop_bit 16 s \<noteq> 0 then fold_carries ((s AND 0xffff) + drop_bit 16 s) else s)"
  by pat_completeness auto
termination
proof (relation "measure unat", goal_cases)
  case (2 s)
  then have "65536 \<le> unat s" by (simp add: drop_16_zero_iff)
  then have "0 < unat s div 65536" by (simp add: div_greater_zero_iff)
  moreover have "unat s = 65536 * (unat s div 65536) + unat s mod 65536" by simp
  ultimately have "unat s mod 65536 + unat s div 65536 < unat s" by linarith
  then show ?case by (simp only: in_measure unat_fold_once)
qed simp

declare fold_carries.simps [simp del]

definition checksum :: "bytes \<Rightarrow> 16 word" where
  "checksum data = NOT (ucast (fold_carries (add_words 0 data)))"

section \<open>The one's complement sum, as arithmetic\<close>

fun word_sum :: "bytes \<Rightarrow> nat" where
  \<comment> \<open>the mathematical sum of the big-endian 16-bit words, an odd tail padded with zero\<close>
  "word_sum (a # b # rest) = 256 * unat a + unat b + word_sum rest"
| "word_sum [a] = 256 * unat a"
| "word_sum [] = 0"

definition ones_fold :: "nat \<Rightarrow> nat" where
  \<comment> \<open>the representative of a sum modulo 65535 that end-around carry reaches\<close>
  "ones_fold s = (if s = 0 then 0 else (s - 1) mod 65535 + 1)"

lemma word_sum_bound: "word_sum data \<le> 65535 * ((length data + 1) div 2)"
proof (induction data rule: word_sum.induct)
  case (1 a b rest)
  have "256 * unat a + unat b \<le> 65535"
    using unat_byte_less [of a] unat_byte_less [of b] by linarith
  with 1 show ?case by simp
next
  case (2 a)
  show ?case using unat_byte_less [of a] by (simp del: unat_byte_less)
qed simp

lemma unat_add_words:
  "unat acc + word_sum data < 2 ^ 32 \<Longrightarrow>
   unat (add_words acc data) = unat acc + word_sum data"
proof (induction acc data rule: add_words.induct)
  case (1 acc a b rest)
  have pair: "unat (push_bit 8 (ucast a) OR ucast b :: 32 word) = 256 * unat a + unat b"
    by (rule unat_byte_pair) simp
  have step: "unat (acc + (push_bit 8 (ucast a) OR ucast b)) = unat acc + (256 * unat a + unat b)"
    using 1(2) unfolding unat_word_ariths pair by simp
  show ?case using 1 step by simp
next
  case (2 acc a)
  have "unat (push_bit 8 (ucast a) OR ucast (0 :: byte) :: 32 word) = 256 * unat a + unat (0 :: byte)"
    by (rule unat_byte_pair) simp
  then have "unat (push_bit 8 (ucast a) :: 32 word) = 256 * unat a" by simp
  with 2 show ?case by (simp add: unat_word_ariths)
qed simp

lemma ones_fold_small: "s < 65536 \<Longrightarrow> ones_fold s = s"
  by (simp add: ones_fold_def)

lemma ones_fold_step:
  assumes "65536 \<le> s"
  shows "ones_fold (s mod 65536 + s div 65536) = ones_fold s"
proof -
  define q r where "q = s div 65536" and "r = s mod 65536"
  have s: "s = 65536 * q + r" by (simp add: q_def r_def)
  have q: "0 < q" using assms by (simp add: q_def div_greater_zero_iff)
  then have "s - 1 = (r + q - 1) + 65535 * q" unfolding s by simp
  then have "(s - 1) mod 65535 = (r + q - 1) mod 65535" by simp
  with q s show ?thesis
    unfolding q_def [symmetric] r_def [symmetric] by (simp add: ones_fold_def)
qed

lemma unat_fold_carries: "unat (fold_carries s) = ones_fold (unat s)"
proof (induction s rule: fold_carries.induct)
  case (1 s)
  show ?case
  proof (cases "drop_bit 16 s = 0")
    case True
    then show ?thesis
      by (simp add: fold_carries.simps [of s] ones_fold_small drop_16_zero_iff)
  next
    case False
    then have big: "65536 \<le> unat s" by (simp add: drop_16_zero_iff)
    from False have "unat (fold_carries s) = unat (fold_carries ((s AND 0xffff) + drop_bit 16 s))"
      by (simp add: fold_carries.simps [of s])
    also have "\<dots> = ones_fold (unat ((s AND 0xffff) + drop_bit 16 s))"
      using False by (rule 1)
    also have "\<dots> = ones_fold (unat s)"
      using big by (simp only: unat_fold_once ones_fold_step)
    finally show ?thesis .
  qed
qed

lemma ones_fold_less [simp]: "ones_fold s < 65536"
  by (simp add: ones_fold_def)

section \<open>Checksum against the arithmetic reference\<close>

lemma unat_checksum:
  assumes "length data \<le> 131072"
  shows "unat (checksum data) = 65535 - ones_fold (word_sum data)"
proof -
  have "(length data + 1) div 2 \<le> 65536" using assms by simp
  then have "65535 * ((length data + 1) div 2) \<le> 65535 * 65536" by (rule mult_le_mono2)
  then have "word_sum data < 2 ^ 32" using word_sum_bound [of data] by simp
  then have sum: "unat (add_words 0 data) = word_sum data"
    using unat_add_words [of 0 data] by simp
  have "unat (ucast (fold_carries (add_words 0 data)) :: 16 word) = ones_fold (word_sum data)"
    using ones_fold_less [of "word_sum data"]
    by (simp add: unsigned_ucast_eq unat_fold_carries sum take_bit_nat_eq_self)
  then show ?thesis
    by (simp add: checksum_def unat_not_16)
qed

lemma word_sum_append:
  "even (length xs) \<Longrightarrow> word_sum (xs @ ys) = word_sum xs + word_sum ys"
  by (induction xs rule: word_sum.induct) auto

lemma word_sum_uint16:
  "word_sum (ucast (drop_bit 8 v) # ucast v # rest) = unat (v :: 16 word) + word_sum rest"
proof -
  have "256 * unat (ucast (drop_bit 8 v) :: byte) + unat (ucast v :: byte) = unat v"
    using unat_byte_pair [where 'a = 16, of "ucast (drop_bit 8 v)" "ucast v"]
    by (metis uint16_be_def uint16_be_split nth_Cons_0 nth_Cons_Suc One_nat_def le_refl len_num0
      len_num1 len_bit0 mult_2 numeral_Bit0 one_add_one)
  then show ?thesis by simp
qed

lemma ones_fold_multiple: "0 < k \<Longrightarrow> ones_fold (65535 * k) = 65535"
proof -
  assume "0 < k"
  then obtain j where "k = Suc j" by (cases k) auto
  then have "65535 * k - 1 = 65534 + 65535 * j" by simp
  then have "(65535 * k - 1) mod 65535 = 65534" by simp
  with \<open>0 < k\<close> show ?thesis by (simp add: ones_fold_def)
qed

lemma ones_fold_all_ones: "ones_fold s = 65535 \<longleftrightarrow> 0 < s \<and> s mod 65535 = 0"
proof (cases "s mod 65535 = 0")
  case True
  then obtain k where s: "s = 65535 * k" by (auto simp: mod_eq_0_iff_dvd)
  then show ?thesis using ones_fold_multiple [of k] by (cases "k = 0") (simp_all add: ones_fold_def)
next
  case False
  then obtain r where r: "s mod 65535 = Suc r" by (cases "s mod 65535") auto
  then have s: "s = 65535 * (s div 65535) + Suc r" by (metis mult_div_mod_eq)
  have "Suc r < 65535" unfolding r [symmetric] by simp
  then have "(s - 1) mod 65535 = r" using s
    by (metis Suc_lessD add_Suc_right diff_Suc_1 mod_less mod_mult_self3 mult.commute)
  with False \<open>Suc r < 65535\<close> s show ?thesis by (auto simp: ones_fold_def)
qed

lemma ones_fold_complement: "ones_fold (s + (65535 - ones_fold s)) = 65535"
proof (cases "s = 0")
  case True
  then show ?thesis by (simp add: ones_fold_def)
next
  case False
  define q r where "q = (s - 1) div 65535" and "r = (s - 1) mod 65535"
  have s: "s = 65535 * q + r + 1" using False by (simp add: q_def r_def)
  have "r < 65535" by (simp add: r_def)
  then have "s + (65535 - ones_fold s) = 65535 * (q + 1)"
    using s False by (simp add: ones_fold_def r_def [symmetric])
  then show ?thesis using ones_fold_multiple [of "q + 1"] by simp
qed

lemma checksum_zero_iff:
  assumes "length data \<le> 131072"
  shows "checksum data = 0 \<longleftrightarrow> ones_fold (word_sum data) = 65535"
proof -
  have "checksum data = 0 \<longleftrightarrow> unat (checksum data) = 0"
    by (simp add: unsigned_eq_0_iff)
  also have "\<dots> \<longleftrightarrow> ones_fold (word_sum data) = 65535"
    using ones_fold_less [of "word_sum data"]
    by (simp add: unat_checksum [OF assms] del: ones_fold_less) linarith
  finally show ?thesis .
qed

text \<open>
  Writing the checksum of a message into its zeroed, 16-bit aligned checksum field makes
  the checksum of the whole message zero: what the receiver tests.
\<close>

lemma checksum_field_verifies:
  assumes "even (length pre)" and "length pre + 2 + length post \<le> 131072"
    and "c = checksum (pre @ 0 # 0 # post)"
  shows "checksum (pre @ ucast (drop_bit 8 c) # ucast c # post) = 0"
proof -
  let ?S = "word_sum (pre @ 0 # 0 # post)"
  have "word_sum (pre @ ucast (drop_bit 8 c) # ucast c # post) = ?S + unat c"
    using assms(1) by (simp add: word_sum_append word_sum_uint16 del: word_sum.simps) simp
  also have "unat c = 65535 - ones_fold ?S"
    unfolding assms(3) using assms(2) by (intro unat_checksum) simp
  finally have "ones_fold (word_sum (pre @ ucast (drop_bit 8 c) # ucast c # post)) = 65535"
    using ones_fold_complement [of ?S] by simp
  then show ?thesis using assms(2) by (subst checksum_zero_iff) auto
qed

end
