(* ===== verification/Packet.thy ===== *)
theory Packet
  imports Checksum Go_Net
begin

text \<open>
  The IPv4 and ICMP echo packets of \<open>internal/packet/ipv4.go\<close> and
  \<open>internal/packet/icmp.go\<close>: parsing with every error branch, and building, where the
  byte buffers are filled in the order of the source.  The formatted values of an error
  message are arguments of its constructor.
\<close>

section \<open>Data and errors\<close>

definition IPv4ProtocolICMP :: byte where "IPv4ProtocolICMP = 1"
definition ipv4MinHeaderLen :: nat where "ipv4MinHeaderLen = 20"
definition ipv4DefaultTTL :: byte where "ipv4DefaultTTL = 64"
definition ICMPTypeEchoReply :: byte where "ICMPTypeEchoReply = 0"
definition ICMPTypeEchoRequest :: byte where "ICMPTypeEchoRequest = 8"

lemmas packet_consts = IPv4ProtocolICMP_def ipv4MinHeaderLen_def ipv4DefaultTTL_def
  ICMPTypeEchoReply_def ICMPTypeEchoRequest_def

datatype packet_error =
    Ipv4TooShort | UnsupportedIpVersion nat | InvalidHeaderLength nat | ShorterThanHeader
  | InvalidTotalLength nat | ShorterThanTotal | UnsupportedProtocol byte
  | IcmpTooShort
  | VirtualServerNotIPv4 | ClientNotIPv4 | DestinationMismatch ip ip | NotEchoRequest byte
  | SourceNotIPv4 | DestinationNotIPv4 | IcmpTooLarge

record ipv4_packet =
  Version :: nat
  IHL :: nat
  TotalLength :: nat
  Protocol :: byte
  SourceIP :: ip
  DestinationIP :: ip
  Payload :: bytes

record icmp_packet =
  Type :: byte
  Code :: byte
  Checksum :: "16 word"
  Identifier :: "16 word"
  Sequence :: "16 word"
  Data :: bytes

section \<open>Parsing\<close>

definition parse_ipv4_packet :: "bytes \<Rightarrow> packet_error + ipv4_packet" where
  "parse_ipv4_packet data =
     (if length data < ipv4MinHeaderLen then Inl Ipv4TooShort
      else let version = unat (drop_bit 4 (data ! 0)) in
      if version \<noteq> 4 then Inl (UnsupportedIpVersion version)
      else let headerLen = unat (data ! 0 AND 0x0f) * 4 in
      if headerLen < ipv4MinHeaderLen then Inl (InvalidHeaderLength headerLen)
      else if length data < headerLen then Inl ShorterThanHeader
      else let totalLen = unat (uint16_be (subslice data 2 4)) in
      if totalLen < headerLen then Inl (InvalidTotalLength totalLen)
      else if length data < totalLen then Inl ShorterThanTotal
      else let protocol = data ! 9 in
      if protocol \<noteq> IPv4ProtocolICMP then Inl (UnsupportedProtocol protocol)
      else Inr \<lparr>Version = version, IHL = headerLen, TotalLength = totalLen,
                Protocol = protocol, SourceIP = subslice data 12 16,
                DestinationIP = subslice data 16 20, Payload = subslice data headerLen totalLen\<rparr>)"

definition parse_icmp_packet :: "bytes \<Rightarrow> packet_error + icmp_packet" where
  "parse_icmp_packet data =
     (if length data < 8 then Inl IcmpTooShort
      else Inr \<lparr>Type = data ! 0, Code = data ! 1, Checksum = uint16_be (subslice data 2 4),
                Identifier = uint16_be (subslice data 4 6), Sequence = uint16_be (subslice data 6 8),
                Data = drop 8 data\<rparr>)"

section \<open>Building\<close>

definition echo_message :: "byte \<Rightarrow> 16 word \<Rightarrow> 16 word \<Rightarrow> bytes \<Rightarrow> bytes" where
  \<comment> \<open>the ICMP part both builders fill in: type, code 0, identifier, sequence, payload, and
      the checksum last, over the message with a zero checksum field\<close>
  "echo_message typ identifier sequence payload =
     (let m = replicate (8 + length payload) 0;
          m = m[0 := typ];
          m = m[1 := 0];
          m = put_uint16 m 4 identifier;
          m = put_uint16 m 6 sequence;
          m = copy_into m 8 (length m) payload
      in put_uint16 m 2 (checksum m))"

definition build_ipv4_icmp_packet :: "ip \<Rightarrow> ip \<Rightarrow> bytes \<Rightarrow> packet_error + bytes" where
  "build_ipv4_icmp_packet sourceIP destinationIP icmpPayload =
     (case to4 sourceIP of
        None \<Rightarrow> Inl SourceNotIPv4
      | Some sourceIPv4 \<Rightarrow>
        (case to4 destinationIP of
           None \<Rightarrow> Inl DestinationNotIPv4
         | Some destinationIPv4 \<Rightarrow>
             let totalLen = ipv4MinHeaderLen + length icmpPayload in
             if 0xffff < totalLen then Inl IcmpTooLarge
             else
               let reply = replicate totalLen 0;
                   reply = reply[0 := 0x45];
                   reply = reply[1 := 0];
                   reply = put_uint16 reply 2 (of_nat totalLen);
                   reply = put_uint16 reply 4 0;
                   reply = put_uint16 reply 6 0;
                   reply = reply[8 := ipv4DefaultTTL];
                   reply = reply[9 := IPv4ProtocolICMP];
                   reply = copy_into reply 12 16 sourceIPv4;
                   reply = copy_into reply 16 20 destinationIPv4;
                   reply = put_uint16 reply 10 (checksum (subslice reply 0 ipv4MinHeaderLen));
                   reply = copy_into reply ipv4MinHeaderLen (length reply) icmpPayload
               in Inr reply))"

definition build_icmp_echo_request ::
  "ip \<Rightarrow> ip \<Rightarrow> 16 word \<Rightarrow> 16 word \<Rightarrow> bytes \<Rightarrow> packet_error + bytes" where
  "build_icmp_echo_request sourceIP destinationIP identifier sequence payload =
     build_ipv4_icmp_packet sourceIP destinationIP
       (echo_message ICMPTypeEchoRequest identifier sequence payload)"

definition build_icmp_echo_reply :: "bytes \<Rightarrow> ip \<Rightarrow> ip \<Rightarrow> packet_error + bytes" where
  "build_icmp_echo_reply request virtualServerIP clientIP =
     (case to4 virtualServerIP of
        None \<Rightarrow> Inl VirtualServerNotIPv4
      | Some serverIPv4 \<Rightarrow>
        (case to4 clientIP of
           None \<Rightarrow> Inl ClientNotIPv4
         | Some clientIPv4 \<Rightarrow>
           (case parse_ipv4_packet request of
              Inl err \<Rightarrow> Inl err
            | Inr ipPacket \<Rightarrow>
                if \<not> ip_equal (DestinationIP ipPacket) serverIPv4
                then Inl (DestinationMismatch (DestinationIP ipPacket) serverIPv4)
                else
                  (case parse_icmp_packet (Payload ipPacket) of
                     Inl err \<Rightarrow> Inl err
                   | Inr icmpPacket \<Rightarrow>
                       if Type icmpPacket \<noteq> ICMPTypeEchoRequest
                       then Inl (NotEchoRequest (Type icmpPacket))
                       else build_ipv4_icmp_packet serverIPv4 clientIPv4
                              (echo_message ICMPTypeEchoReply (Identifier icmpPacket)
                                 (Sequence icmpPacket) (Data icmpPacket))))))"

section \<open>Closed forms of the built packets\<close>

definition hi :: "16 word \<Rightarrow> byte" where "hi v = ucast (drop_bit 8 v)"
definition lo :: "16 word \<Rightarrow> byte" where "lo v = ucast v"

lemma uint16_be_hi_lo [simp]: "uint16_be (hi v # lo v # xs) = v"
  by (simp add: hi_def lo_def)

definition icmp_bytes :: "byte \<Rightarrow> 16 word \<Rightarrow> 16 word \<Rightarrow> 16 word \<Rightarrow> bytes \<Rightarrow> bytes" where
  "icmp_bytes typ c identifier sequence payload =
     typ # 0 # hi c # lo c # hi identifier # lo identifier # hi sequence # lo sequence # payload"

definition ip_bytes :: "16 word \<Rightarrow> 16 word \<Rightarrow> bytes \<Rightarrow> bytes \<Rightarrow> bytes" where
  "ip_bytes plen c src dst =
     0x45 # 0 # hi plen # lo plen # 0 # 0 # 0 # 0 # 64 # 1 # hi c # lo c # src @ dst"

lemma replicate_8: "replicate (8 + n) x = [x, x, x, x, x, x, x, x] @ replicate n x"
  by (simp add: numeral_eq_Suc)

lemma echo_message_closed:
  "echo_message typ i s payload =
     icmp_bytes typ (checksum (typ # 0 # 0 # 0 # hi i # lo i # hi s # lo s # payload)) i s payload"
  unfolding echo_message_def
  by (simp add: replicate_8 Let_def icmp_bytes_def put_uint16_def copy_into_def hi_def lo_def)

lemma length_ip_bytes:
  "length src = 4 \<Longrightarrow> length dst = 4 \<Longrightarrow> length (ip_bytes plen c src dst) = 20"
  by (simp add: ip_bytes_def)

lemma length_icmp_bytes: "length (icmp_bytes typ c i s payload) = 8 + length payload"
  by (simp add: icmp_bytes_def)

lemma length_4_cases: "length xs = 4 \<longleftrightarrow> (\<exists>a b c d. xs = [a, b, c, d])"
  by (auto simp: length_Suc_conv numeral_eq_Suc)

lemma replicate_20: "replicate (20 + n) x =
  [x, x, x, x, x, x, x, x, x, x, x, x, x, x, x, x, x, x, x, x] @ replicate n x"
  by (simp add: numeral_eq_Suc)

definition ip_checksum :: "16 word \<Rightarrow> bytes \<Rightarrow> bytes \<Rightarrow> 16 word" where
  "ip_checksum plen src dst = checksum (ip_bytes plen 0 src dst)"

lemma hi_lo_0 [simp]: "hi 0 = 0" "lo 0 = 0"
  by (simp_all add: hi_def lo_def)

lemma build_ipv4_closed:
  assumes "to4 s = Some s4" "to4 d = Some d4" "20 + length icmp \<le> 65535"
  shows "build_ipv4_icmp_packet s d icmp =
     Inr (ip_bytes (of_nat (20 + length icmp)) (ip_checksum (of_nat (20 + length icmp)) s4 d4) s4 d4 @ icmp)"
proof -
  obtain a b c e where s4: "s4 = [a, b, c, e]"
    using length_to4 [OF assms(1)] by (auto simp: length_4_cases)
  obtain f g h i where d4: "d4 = [f, g, h, i]"
    using length_to4 [OF assms(2)] by (auto simp: length_4_cases)
  from assms show ?thesis
    unfolding build_ipv4_icmp_packet_def packet_consts ip_checksum_def s4 d4
    by (simp add: replicate_20 Let_def ip_bytes_def put_uint16_def copy_into_def subslice_def
        hi_def lo_def)
qed

lemma build_ipv4_error:
  "to4 s = None \<Longrightarrow> build_ipv4_icmp_packet s d icmp = Inl SourceNotIPv4"
  "to4 s = Some s4 \<Longrightarrow> to4 d = None \<Longrightarrow> build_ipv4_icmp_packet s d icmp = Inl DestinationNotIPv4"
  "to4 s = Some s4 \<Longrightarrow> to4 d = Some d4 \<Longrightarrow> 65535 < 20 + length icmp \<Longrightarrow>
     build_ipv4_icmp_packet s d icmp = Inl IcmpTooLarge"
  by (simp_all add: build_ipv4_icmp_packet_def packet_consts)

section \<open>Checksums of the built packets\<close>

lemma ip_bytes_verifies:
  assumes "length src = 4" "length dst = 4"
  shows "checksum (ip_bytes plen (ip_checksum plen src dst) src dst) = 0"
  using assms checksum_field_verifies
    [of "[0x45, 0, hi plen, lo plen, 0, 0, 0, 0, 64, 1]" "src @ dst" "ip_checksum plen src dst"]
  by (simp add: ip_bytes_def ip_checksum_def hi_def lo_def)

lemma echo_message_verifies:
  assumes "length payload \<le> 65535"
  shows "checksum (echo_message typ i s payload) = 0"
  using assms checksum_field_verifies
    [of "[typ, 0]" "hi i # lo i # hi s # lo s # payload"
        "checksum (typ # 0 # 0 # 0 # hi i # lo i # hi s # lo s # payload)"]
  by (simp add: echo_message_closed icmp_bytes_def hi_def lo_def)

lemma length_echo_message [len_simps, simp]: "length (echo_message typ i s payload) = 8 + length payload"
  by (simp add: echo_message_closed length_icmp_bytes)

section \<open>Parsing the built packets\<close>

lemma unat_of_nat_16: "n \<le> 65535 \<Longrightarrow> unat (of_nat n :: 16 word) = n"
  by (simp add: unat_of_nat)

lemma parse_ip_bytes:
  assumes "length src = 4" "length dst = 4" "20 + length icmp \<le> 65535"
  shows "parse_ipv4_packet (ip_bytes (of_nat (20 + length icmp)) c src dst @ icmp) =
     Inr \<lparr>Version = 4, IHL = 20, TotalLength = 20 + length icmp, Protocol = 1,
          SourceIP = src, DestinationIP = dst, Payload = icmp\<rparr>"
proof -
  obtain a b e f where src: "src = [a, b, e, f]"
    using assms(1) by (auto simp: length_4_cases)
  obtain g h i j where dst: "dst = [g, h, i, j]"
    using assms(2) by (auto simp: length_4_cases)
  have plen: "unat (of_nat (20 + length icmp) :: 16 word) = 20 + length icmp"
    using assms(3) by (rule unat_of_nat_16)
  have "unat (drop_bit 4 (0x45 :: byte)) = 4" "unat ((0x45 :: byte) AND 0x0f) = 5"
    by simp_all
  with assms(3) plen show ?thesis
    unfolding parse_ipv4_packet_def packet_consts src dst ip_bytes_def
    by (simp add: Let_def subslice_def)
qed

lemma parse_icmp_bytes:
  "parse_icmp_packet (icmp_bytes typ c i s payload) =
     Inr \<lparr>Type = typ, Code = 0, Checksum = c, Identifier = i, Sequence = s, Data = payload\<rparr>"
  by (simp add: parse_icmp_packet_def icmp_bytes_def subslice_def)

lemma parse_echo_message:
  "\<exists>c. parse_icmp_packet (echo_message typ i s payload) =
     Inr \<lparr>Type = typ, Code = 0, Checksum = c, Identifier = i, Sequence = s, Data = payload\<rparr>"
  by (simp add: echo_message_closed parse_icmp_bytes)

definition packet_with :: "bytes \<Rightarrow> bytes \<Rightarrow> bytes \<Rightarrow> bytes" where
  \<comment> \<open>the packet between two four-byte addresses that carries this ICMP message\<close>
  "packet_with src dst icmp =
     (let plen = of_nat (20 + length icmp) in ip_bytes plen (ip_checksum plen src dst) src dst @ icmp)"

lemma build_packet_with:
  "to4 s = Some s4 \<Longrightarrow> to4 d = Some d4 \<Longrightarrow> 20 + length icmp \<le> 65535 \<Longrightarrow>
     build_ipv4_icmp_packet s d icmp = Inr (packet_with s4 d4 icmp)"
  by (simp add: build_ipv4_closed packet_with_def Let_def)

lemma parse_packet_with:
  "length src = 4 \<Longrightarrow> length dst = 4 \<Longrightarrow> 20 + length icmp \<le> 65535 \<Longrightarrow>
     parse_ipv4_packet (packet_with src dst icmp) =
       Inr \<lparr>Version = 4, IHL = 20, TotalLength = 20 + length icmp, Protocol = 1,
            SourceIP = src, DestinationIP = dst, Payload = icmp\<rparr>"
  unfolding packet_with_def Let_def by (rule parse_ip_bytes)

lemma packet_with_parts:
  assumes "length src = 4" "length dst = 4"
  shows length_packet_with: "length (packet_with src dst icmp) = 20 + length icmp"
    and drop_packet_with: "drop 20 (packet_with src dst icmp) = icmp"
    and packet_with_verifies: "checksum (take 20 (packet_with src dst icmp)) = 0"
  using assms by (simp_all add: packet_with_def Let_def length_ip_bytes ip_bytes_verifies)

section \<open>What the parser accepts\<close>

definition header_length :: "bytes \<Rightarrow> nat" where
  "header_length data = 4 * unat (data ! 0 AND 0x0f)"

definition total_length :: "bytes \<Rightarrow> nat" where
  "total_length data = 256 * unat (data ! 2) + unat (data ! 3)"

definition ipv4_well_formed :: "bytes \<Rightarrow> bool" where
  "ipv4_well_formed data \<longleftrightarrow>
     20 \<le> length data \<and> unat (drop_bit 4 (data ! 0)) = 4 \<and> 20 \<le> header_length data \<and>
     header_length data \<le> total_length data \<and> total_length data \<le> length data"

lemma unat_uint16_be: "unat (uint16_be b) = 256 * unat (b ! 0) + unat (b ! 1)"
  unfolding uint16_be_def by (rule unat_byte_pair) simp

lemma total_length_be:
  "20 \<le> length data \<Longrightarrow> unat (uint16_be (subslice data 2 4)) = total_length data"
  by (simp add: unat_uint16_be subslice_nth total_length_def)

lemma total_length_bound: "total_length data \<le> 65535"
  using unat_byte_less [of "data ! 2"] unat_byte_less [of "data ! 3"]
  unfolding total_length_def by linarith

lemma parse_ipv4_iff:
  "parse_ipv4_packet data = Inr p \<longleftrightarrow>
     ipv4_well_formed data \<and> data ! 9 = 1 \<and>
     p = \<lparr>Version = 4, IHL = header_length data, TotalLength = total_length data, Protocol = 1,
          SourceIP = subslice data 12 16, DestinationIP = subslice data 16 20,
          Payload = subslice data (header_length data) (total_length data)\<rparr>"
  unfolding parse_ipv4_packet_def packet_consts ipv4_well_formed_def
  by (auto simp: Let_def total_length_be header_length_def mult.commute split: if_splits)

lemma parsed_lengths:
  assumes "parse_ipv4_packet data = Inr p"
  shows "length (SourceIP p) = 4" "length (DestinationIP p) = 4"
    "IHL p + length (Payload p) = TotalLength p" "20 \<le> IHL p" "TotalLength p \<le> 65535"
  using assms total_length_bound [of data]
  by (auto simp: parse_ipv4_iff ipv4_well_formed_def subslice_def)

section \<open>The echo responder\<close>

lemma build_reply_iff:
  "build_icmp_echo_reply request v c = Inr reply \<longleftrightarrow>
     (\<exists>v4 c4 p m. to4 v = Some v4 \<and> to4 c = Some c4 \<and> parse_ipv4_packet request = Inr p \<and>
        DestinationIP p = v4 \<and> parse_icmp_packet (Payload p) = Inr m \<and> Type m = 8 \<and>
        build_ipv4_icmp_packet v4 c4 (echo_message 0 (Identifier m) (Sequence m) (Data m)) = Inr reply)"
proof -
  have eq: "ip_equal (DestinationIP p) v4 \<longleftrightarrow> DestinationIP p = v4"
    if "parse_ipv4_packet request = Inr p" "to4 v = Some v4" for p v4
    using parsed_lengths [OF that(1)] length_to4 [OF that(2)] by simp
  show ?thesis
    unfolding build_icmp_echo_reply_def packet_consts
    by (auto simp: eq split: option.splits sum.splits if_splits)
qed

lemma reply_fits:
  assumes "parse_ipv4_packet request = Inr p" "parse_icmp_packet (Payload p) = Inr m"
  shows "20 + (8 + length (Data m)) \<le> 65535"
  using parsed_lengths [OF assms(1)] assms(2)
  by (auto simp: parse_icmp_packet_def split: if_splits)

lemma build_fits:
  assumes "to4 v = Some v4" "to4 c = Some c4" "parse_ipv4_packet request = Inr p"
    "parse_icmp_packet (Payload p) = Inr m"
  shows "\<exists>reply. build_ipv4_icmp_packet v4 c4 (echo_message t i s (Data m)) = Inr reply"
  using build_packet_with [OF to4_idem [OF assms(1)] to4_idem [OF assms(2)]] reply_fits [OF assms(3,4)]
  by simp

lemma exchange_built:
  \<comment> \<open>the request of the client and the answer of the server\<close>
  assumes "to4 client = Some c4" "to4 virtual = Some v4" "length payload \<le> 65507"
  shows "build_icmp_echo_request client virtual i s payload = Inr (packet_with c4 v4 (echo_message 8 i s payload))"
    "build_icmp_echo_reply (packet_with c4 v4 (echo_message 8 i s payload)) virtual client =
       Inr (packet_with v4 c4 (echo_message 0 i s payload))"
proof -
  have l4: "length c4 = 4" "length v4 = 4" using assms(1,2) by (auto dest: length_to4)
  show "build_icmp_echo_request client virtual i s payload = Inr (packet_with c4 v4 (echo_message 8 i s payload))"
    using assms by (simp add: build_icmp_echo_request_def packet_consts build_packet_with)
  show "build_icmp_echo_reply (packet_with c4 v4 (echo_message 8 i s payload)) virtual client =
      Inr (packet_with v4 c4 (echo_message 0 i s payload))"
    using assms l4 parse_packet_with [OF l4, of "echo_message 8 i s payload"]
      parse_echo_message [of 8 i s payload]
    by (auto simp: build_reply_iff build_packet_with)
qed

lemma parse_icmp_iff:
  "parse_icmp_packet data = Inr m \<longleftrightarrow>
     8 \<le> length data \<and>
     m = \<lparr>Type = data ! 0, Code = data ! 1, Checksum = uint16_be (subslice data 2 4),
          Identifier = uint16_be (subslice data 4 6), Sequence = uint16_be (subslice data 6 8),
          Data = drop 8 data\<rparr>"
  by (auto simp: parse_icmp_packet_def)

lemma parse_truncated:
  assumes "parse_ipv4_packet data = Inr p"
  shows "parse_ipv4_packet (take (total_length data) data) = Inr p"
proof -
  let ?d = "take (total_length data) data"
  have t: "20 \<le> total_length data" "total_length data \<le> length data"
    using assms by (auto simp: parse_ipv4_iff ipv4_well_formed_def)
  have nth: "?d ! k = data ! k" if "k < 20" for k using t that by simp
  have "header_length ?d = header_length data" "total_length ?d = total_length data"
    using nth [of 0] nth [of 2] nth [of 3]
    unfolding header_length_def total_length_def [of ?d] by (simp_all add: total_length_def)
  moreover have "subslice ?d i j = subslice data i j" if "j \<le> total_length data" for i j
    using that by (simp add: subslice_def drop_take min_def)
  ultimately show ?thesis
    using assms t by (auto simp: parse_ipv4_iff ipv4_well_formed_def nth)
qed

lemma reply_never_too_large: "build_icmp_echo_reply request v c \<noteq> Inl IcmpTooLarge"
proof
  assume err: "build_icmp_echo_reply request v c = Inl IcmpTooLarge"
  have no: "parse_ipv4_packet x \<noteq> Inl IcmpTooLarge" "parse_icmp_packet x \<noteq> Inl IcmpTooLarge" for x
    by (simp_all add: parse_ipv4_packet_def parse_icmp_packet_def Let_def)
  from err obtain v4 c4 p m where m: "to4 v = Some v4" "to4 c = Some c4"
      "parse_ipv4_packet request = Inr p" "parse_icmp_packet (Payload p) = Inr m"
      "build_ipv4_icmp_packet v4 c4 (echo_message 0 (Identifier m) (Sequence m) (Data m))
         = Inl IcmpTooLarge"
    unfolding build_icmp_echo_reply_def packet_consts
    by (auto simp: no split: option.splits sum.splits if_splits)
  with build_fits [OF m(1-4), of 0 "Identifier m" "Sequence m"] show False by simp
qed

section \<open>Properties\<close>

text \<open>
  (C31) The checksum is the ones-complement sum of the Internet standard: for every packet
  that can exist it is the complement of the sum of the big-endian 16-bit words, folded
  to the representative 1..65535 of its class modulo 65535 (0 only for the sum 0); so it
  is zero exactly when the ones-complement sum is all ones.
\<close>

theorem checksum_is_ones_complement_sum:
  assumes "length data \<le> 131072"
  shows "unat (checksum data) = 65535 - ones_fold (word_sum data) \<and>
    (checksum data = 0 \<longleftrightarrow> 0 < word_sum data \<and> word_sum data mod 65535 = 0)"
proof -
  have "ones_fold (word_sum data) = 65535 \<longleftrightarrow> 0 < word_sum data \<and> word_sum data mod 65535 = 0"
    by (rule ones_fold_all_ones)
  then show ?thesis using assms by (simp add: unat_checksum checksum_zero_iff)
qed

theorem checksum_is_ones_complement_sum_witness:
  "unat (checksum [1, 2, 3]) = 0xfbfd"
proof -
  have "unat (checksum [1, 2, 3]) = 65535 - ones_fold (word_sum [1, 2, 3])"
    using checksum_is_ones_complement_sum [of "[1, 2, 3]"] by simp
  also have "\<dots> = 0xfbfd" by (simp add: ones_fold_def)
  finally show ?thesis .
qed

text \<open>
  \<open>ParseIPv4Packet\<close> accepts exactly the well-formed version 4 packets that carry
  ICMP, and returns the header fields, the addresses and the payload between the header
  length and the total length; bytes behind the total length are ignored.
\<close>

theorem parser_accepts_well_formed:
  "(\<exists>p. parse_ipv4_packet data = Inr p) = (ipv4_well_formed data \<and> data ! 9 = 1) \<and>
   (\<forall>p. parse_ipv4_packet data = Inr p \<longrightarrow>
      p = \<lparr>Version = 4, IHL = header_length data, TotalLength = total_length data, Protocol = 1,
           SourceIP = subslice data 12 16, DestinationIP = subslice data 16 20,
           Payload = subslice data (header_length data) (total_length data)\<rparr> \<and>
      parse_ipv4_packet (take (total_length data) data) = Inr p)"
proof -
  have "parse_ipv4_packet (take (total_length data) data) = Inr p"
    if "parse_ipv4_packet data = Inr p" for p
    using that parse_truncated by blast
  then show ?thesis unfolding parse_ipv4_iff [of data] by blast
qed

theorem parser_accepts_well_formed_witness:
  "ipv4_well_formed (ip_bytes 20 0 [10, 0, 0, 1] [10, 0, 0, 2])"
proof -
  have "parse_ipv4_packet (ip_bytes 20 0 [10, 0, 0, 1] [10, 0, 0, 2]) =
      Inr \<lparr>Version = 4, IHL = 20, TotalLength = 20, Protocol = 1,
        SourceIP = [10, 0, 0, 1], DestinationIP = [10, 0, 0, 2], Payload = []\<rparr>"
    using parse_ip_bytes [of "[10, 0, 0, 1]" "[10, 0, 0, 2]" "[]" 0] by simp
  with parser_accepts_well_formed [of "ip_bytes 20 0 [10, 0, 0, 1] [10, 0, 0, 2]"]
  show ?thesis by blast
qed

text \<open>
  (C21) The echo exchange: for IPv4 addresses and any payload that fits, the request that
  the client builds is answered by the server, and the answer parses back with the
  addresses swapped, type 0, code 0, and the request's identifier, sequence and payload;
  the IPv4 and the ICMP checksum of both packets verify.
\<close>

theorem echo_exchange:
  assumes "to4 client = Some c4" "to4 virtual = Some v4" "length payload \<le> 65507"
  shows "\<exists>request reply icmp c.
    build_icmp_echo_request client virtual i s payload = Inr request \<and>
    build_icmp_echo_reply request virtual client = Inr reply \<and>
    parse_ipv4_packet reply = Inr \<lparr>Version = 4, IHL = 20, TotalLength = 28 + length payload,
      Protocol = 1, SourceIP = v4, DestinationIP = c4, Payload = icmp\<rparr> \<and>
    parse_icmp_packet icmp = Inr \<lparr>Type = 0, Code = 0, Checksum = c, Identifier = i,
      Sequence = s, Data = payload\<rparr> \<and>
    checksum (take 20 request) = 0 \<and> checksum (drop 20 request) = 0 \<and>
    checksum (take 20 reply) = 0 \<and> checksum icmp = 0 \<and> length reply = 28 + length payload"
proof -
  have l4: "length c4 = 4" "length v4 = 4" using assms(1,2) by (auto dest: length_to4)
  show ?thesis
    using exchange_built [OF assms] l4 assms parse_packet_with [OF l4(2,1), of "echo_message 0 i s payload"]
      parse_echo_message [of 0 i s payload]
    by (auto simp: packet_with_verifies echo_message_verifies length_packet_with drop_packet_with)
qed

theorem echo_exchange_witness:
  "\<exists>request reply.
    build_icmp_echo_request [10, 8, 0, 2] [10, 8, 0, 1] 1 7 [1, 2, 3] = Inr request \<and>
    build_icmp_echo_reply request [10, 8, 0, 1] [10, 8, 0, 2] = Inr reply \<and> length reply = 31"
  using echo_exchange [of "[10, 8, 0, 2]" "[10, 8, 0, 2]" "[10, 8, 0, 1]" "[10, 8, 0, 1]" "[1, 2, 3]" 1 7]
  by auto

text \<open>
  (C30) The responder answers exactly the ICMP echo requests to the virtual address: with
  IPv4 addresses configured, a reply is built iff the packet is a well-formed IPv4 packet
  with protocol 1, the virtual address as its destination, at least eight payload bytes
  and type 8; the reply never fails to fit.
\<close>

theorem responder_answers_exactly_echo_requests:
  assumes "to4 virtual = Some v4" "to4 client = Some c4"
  shows "((\<exists>reply. build_icmp_echo_reply request virtual client = Inr reply) \<longleftrightarrow>
      ipv4_well_formed request \<and> request ! 9 = 1 \<and> subslice request 16 20 = v4 \<and>
      header_length request + 8 \<le> total_length request \<and> request ! header_length request = 8) \<and>
    build_icmp_echo_reply request virtual client \<noteq> Inl IcmpTooLarge"
proof -
  have sub: "length (subslice request h t) = t - h" "subslice request h t ! 0 = request ! h"
    if "h + 8 \<le> t" "t \<le> length request" for h t
    using that by (simp_all add: length_subslice subslice_nth)
  have "(\<exists>reply. build_icmp_echo_reply request virtual client = Inr reply) \<longleftrightarrow>
      (\<exists>p m. parse_ipv4_packet request = Inr p \<and> DestinationIP p = v4 \<and>
        parse_icmp_packet (Payload p) = Inr m \<and> Type m = 8)"
    using assms by (auto simp: build_reply_iff intro: build_fits)
  also have "\<dots> \<longleftrightarrow> ipv4_well_formed request \<and> request ! 9 = 1 \<and> subslice request 16 20 = v4 \<and>
      header_length request + 8 \<le> total_length request \<and> request ! header_length request = 8"
    by (auto simp: parse_ipv4_iff parse_icmp_iff ipv4_well_formed_def length_subslice sub)
  finally show ?thesis using reply_never_too_large by blast
qed

theorem responder_answers_exactly_echo_requests_witness:
  "(\<exists>reply. build_icmp_echo_reply (packet_with [10, 8, 0, 2] [10, 8, 0, 1] (echo_message 8 1 7 [1]))
      [10, 8, 0, 1] [10, 8, 0, 2] = Inr reply) \<and>
   (\<nexists>reply. build_icmp_echo_reply (packet_with [10, 8, 0, 2] [10, 8, 0, 1] (echo_message 0 1 7 [1]))
      [10, 8, 0, 1] [10, 8, 0, 2] = Inr reply)"
proof -
  let ?p = "\<lambda>t. packet_with [10, 8, 0, 2] [10, 8, 0, 1] (echo_message t 1 7 [1])"
  have "parse_ipv4_packet (?p t) = Inr \<lparr>Version = 4, IHL = 20, TotalLength = 29, Protocol = 1,
      SourceIP = [10, 8, 0, 2], DestinationIP = [10, 8, 0, 1], Payload = echo_message t 1 7 [1]\<rparr>" for t
    by (simp add: parse_packet_with)
  then have "ipv4_well_formed (?p t)" "?p t ! 9 = 1" "header_length (?p t) = 20"
      "total_length (?p t) = 29" "subslice (?p t) 16 20 = [10, 8, 0, 1]" for t
    unfolding parse_ipv4_iff by simp_all
  moreover have "?p t ! 20 = t" for t
    by (simp add: packet_with_def Let_def nth_append length_ip_bytes echo_message_closed icmp_bytes_def)
  ultimately show ?thesis
    using responder_answers_exactly_echo_requests
      [of "[10, 8, 0, 1]" "[10, 8, 0, 1]" "[10, 8, 0, 2]" "[10, 8, 0, 2]"] by simp
qed

end
