(* ===== verification/Policy.thy ===== *)
theory Policy
  imports Packet
begin

text \<open>
  The TUN packet policy of \<open>internal/quictransport/packet_policy.go\<close>: the optional CIDR
  filter both endpoints apply before they forward a raw packet.
\<close>

section \<open>The policy\<close>

record packet_policy =
  allowedCIDR :: "ip_net option"

datatype policy_error = PolicyParseError string | PolicyNotIPv4 string

definition new_packet_policy :: "string \<Rightarrow> policy_error + packet_policy" where
  "new_packet_policy cidr =
     (if cidr = '''' then Inr \<lparr>allowedCIDR = None\<rparr>
      else case parse_cidr cidr of
             None \<Rightarrow> Inl (PolicyParseError cidr)
           | Some network \<Rightarrow>
               if to4 (net_ip network) = None then Inl (PolicyNotIPv4 cidr)
               else Inr \<lparr>allowedCIDR = Some network\<rparr>)"

definition ipv4_endpoints :: "bytes \<Rightarrow> (ip \<times> ip) option" where
  "ipv4_endpoints raw =
     (if length raw < 20 then None
      else if drop_bit 4 (raw ! 0) \<noteq> 4 then None
      else let headerLen = unat (raw ! 0 AND 0x0f) * 4 in
      if headerLen < 20 \<or> length raw < headerLen then None
      else let totalLen = unat (push_bit 8 (ucast (raw ! 2)) OR ucast (raw ! 3) :: 64 word) in
      if totalLen < headerLen \<or> length raw < totalLen then None
      else Some (net_ipv4 (raw ! 12) (raw ! 13) (raw ! 14) (raw ! 15),
                 net_ipv4 (raw ! 16) (raw ! 17) (raw ! 18) (raw ! 19)))"

definition allow :: "packet_policy \<Rightarrow> bytes \<Rightarrow> bool" where
  "allow p raw =
     (case allowedCIDR p of
        None \<Rightarrow> True
      | Some network \<Rightarrow>
          (case ipv4_endpoints raw of
             None \<Rightarrow> False
           | Some (sourceIP, destinationIP) \<Rightarrow>
               net_contains network sourceIP \<and> net_contains network destinationIP))"

section \<open>The policy and the packet parser agree\<close>

lemma endpoints_well_formed:
  "ipv4_endpoints raw =
     (if ipv4_well_formed raw
      then Some (v4_in_v6_prefix @ subslice raw 12 16, v4_in_v6_prefix @ subslice raw 16 20) else None)"
proof -
  have v: "drop_bit 4 (raw ! 0) = 4 \<longleftrightarrow> unat (drop_bit 4 (raw ! 0)) = 4"
    by (simp add: word_unat_eq_iff)
  have t: "unat (push_bit 8 (ucast (raw ! 2)) OR ucast (raw ! 3) :: 64 word) = total_length raw"
    unfolding total_length_def by (rule unat_byte_pair) simp
  have s: "subslice raw i (i + 4) = [raw ! i, raw ! (i + 1), raw ! (i + 2), raw ! (i + 3)]"
    if "i + 4 \<le> length raw" for i
    using that by (simp add: subslice_def numeral_eq_Suc Cons_nth_drop_Suc [symmetric])
  show ?thesis
    using s [of 12] s [of 16]
    by (auto simp: ipv4_endpoints_def v t Let_def ipv4_well_formed_def header_length_def
        mult.commute net_ipv4_def)
qed

lemma endpoints_of_parsed:
  assumes "parse_ipv4_packet raw = Inr p"
  shows "ipv4_endpoints raw = Some (v4_in_v6_prefix @ SourceIP p, v4_in_v6_prefix @ DestinationIP p)"
  using assms by (auto simp: endpoints_well_formed parse_ipv4_iff)

lemma to4_mapped: "length x = 4 \<Longrightarrow> to4 (v4_in_v6_prefix @ x) = Some x"
  by (simp add: to4_def subslice_def)

lemma well_formed_slices:
  "ipv4_well_formed raw \<Longrightarrow> length (subslice raw 12 16) = 4 \<and> length (subslice raw 16 20) = 4"
  by (auto simp: ipv4_well_formed_def subslice_def)

section \<open>What a policy allows\<close>

lemma allow_network:
  assumes "length nn = 4" "n \<le> 32"
    "allowedCIDR p = Some \<lparr>net_ip = nn, net_mask = cidr_mask n 32\<rparr>"
  shows "allow p raw \<longleftrightarrow>
    ipv4_well_formed raw \<and> same_prefix n nn (subslice raw 12 16) \<and> same_prefix n nn (subslice raw 16 20)"
  using assms well_formed_slices [of raw]
  by (auto simp: allow_def endpoints_well_formed net_contains_v4 to4_mapped)

lemma new_policy_show:
  assumes "n \<le> 32"
  shows "new_packet_policy (show_ipv4 a b c d @ ''/'' @ show_nat n) =
    Inr \<lparr>allowedCIDR = Some \<lparr>net_ip = map2 (AND) [a, b, c, d] (cidr_mask n 32),
      net_mask = cidr_mask n 32\<rparr>\<rparr>"
proof -
  have "show_ipv4 a b c d @ ''/'' @ show_nat n \<noteq> ''''" by simp
  moreover have "length (map2 (AND) [a, b, c, d] (cidr_mask n 32)) = 4"
    by (simp add: cidr_mask_def)
  ultimately show ?thesis
    using parse_cidr_show [OF assms, of a b c d]
    by (simp add: new_packet_policy_def to4_def split del: if_split)
qed

section \<open>Properties\<close>

text \<open>
  (C22) A policy configured with the text \<open>a.b.c.d/n\<close> lets a raw packet through exactly
  when it is a structurally valid IPv4 packet whose source and destination addresses both
  agree with \<open>a.b.c.d\<close> on the first \<open>n\<close> bits.
\<close>

theorem policy_enforces_cidr:
  assumes "n \<le> 32" "new_packet_policy (show_ipv4 a b c d @ ''/'' @ show_nat n) = Inr p"
  shows "allow p raw \<longleftrightarrow>
    ipv4_well_formed raw \<and> same_prefix n [a, b, c, d] (subslice raw 12 16) \<and>
    same_prefix n [a, b, c, d] (subslice raw 16 20)"
proof -
  let ?nn = "map2 (AND) [a, b, c, d] (cidr_mask n 32)"
  have len: "length ?nn = 4" by (simp add: cidr_mask_def)
  have al: "allowedCIDR p = Some \<lparr>net_ip = ?nn, net_mask = cidr_mask n 32\<rparr>"
    using assms(2) unfolding new_policy_show [OF assms(1)] by auto
  have "same_prefix n ?nn y = same_prefix n [a, b, c, d] y" for y
    using same_prefix_masked [of "[a, b, c, d]" 4 n y] assms(1) by (simp add: cidr_mask_def)
  then show ?thesis unfolding allow_network [OF len assms(1) al] by simp
qed

theorem policy_enforces_cidr_witness:
  "\<exists>p. new_packet_policy (show_ipv4 10 8 0 0 @ ''/'' @ show_nat 24) = Inr p \<and>
     allow p (ip_bytes 28 0 [10, 8, 0, 2] [10, 8, 0, 1] @ replicate 8 0) \<and>
     \<not> allow p (ip_bytes 28 0 [192, 0, 2, 10] [10, 8, 0, 1] @ replicate 8 0)"
proof -
  obtain p where p: "new_packet_policy (show_ipv4 10 8 0 0 @ ''/'' @ show_nat 24) = Inr p"
    using new_policy_show [of 24 10 8 0 0] by simp
  have "ipv4_well_formed (ip_bytes 28 0 [10, 8, 0, 2] [10, 8, 0, 1] @ replicate 8 0)"
    by (simp add: ipv4_well_formed_def header_length_def total_length_def ip_bytes_def hi_def lo_def)
  with p show ?thesis
    using policy_enforces_cidr [OF _ p]
    by (simp add: ip_bytes_def subslice_def same_prefix_def ip_bit_def upt_rec)
qed

text \<open>
  The filter and the packet parser read the same headers: the parser accepts a packet
  exactly when the filter finds endpoints and the protocol byte says ICMP, and then the
  endpoints are the parsed addresses in their IPv4-mapped form.
\<close>

theorem policy_reads_what_parser_reads:
  "(parse_ipv4_packet raw = Inr p) =
     (ipv4_endpoints raw = Some (v4_in_v6_prefix @ SourceIP p, v4_in_v6_prefix @ DestinationIP p) \<and>
      raw ! 9 = 1 \<and>
      p = \<lparr>Version = 4, IHL = header_length raw, TotalLength = total_length raw, Protocol = 1,
           SourceIP = subslice raw 12 16, DestinationIP = subslice raw 16 20,
           Payload = subslice raw (header_length raw) (total_length raw)\<rparr>)"
  unfolding endpoints_well_formed parse_ipv4_iff by (auto split: if_splits)

end
