(* ===== verification/Go_IO.thy ===== *)
theory Go_IO
  imports Prelude
begin

text \<open>
  Readers, writers and their errors.  The program meets errors of other packages (QUIC
  streams, the TUN file) only through \<open>errors.Is\<close> for \<open>io.EOF\<close>, \<open>os.ErrClosed\<close>
  and \<open>context.Canceled\<close>, \<open>errors.As\<close> for a QUIC application error, and the error text; an
  \<open>ext_error\<close> holds exactly these observations.

  A reader is what the transport will still deliver: chunks of any size (an empty chunk
  is a read that returns no byte and no error), then an error for ever.  \<open>eager\<close> says
  whether the last chunk comes together with that error, which \<open>io.Reader\<close> allows.
  A writer is any function from its state and the bytes to the new state and an error.
\<close>

record ext_error =
  is_eof :: bool
  is_closed :: bool
  is_canceled :: bool
  app_code :: "64 word option"
  ext_text :: string

definition io_eof :: ext_error where
  "io_eof = \<lparr>is_eof = True, is_closed = False, is_canceled = False, app_code = None, ext_text = ''EOF''\<rparr>"

definition unexpected_eof :: ext_error where
  "unexpected_eof = \<lparr>is_eof = False, is_closed = False, is_canceled = False, app_code = None,
     ext_text = ''unexpected EOF''\<rparr>"

record reader =
  chunks :: "bytes list"
  end_err :: ext_error
  eager :: bool

definition content :: "reader \<Rightarrow> bytes" where
  "content r = concat (chunks r)"

definition go_read :: "reader \<Rightarrow> nat \<Rightarrow> bytes \<times> ext_error option \<times> reader" where
  \<comment> \<open>\<open>r.Read(p)\<close> with \<open>len(p) = k\<close>\<close>
  "go_read r k =
     (case chunks r of
        [] \<Rightarrow> ([], Some (end_err r), r)
      | c # cs \<Rightarrow>
          if length c \<le> k
          then (c, if cs = [] \<and> eager r then Some (end_err r) else None, r\<lparr>chunks := cs\<rparr>)
          else (take k c, None, r\<lparr>chunks := drop k c # cs\<rparr>))"

function read_at_least :: "nat \<Rightarrow> reader \<Rightarrow> bytes \<Rightarrow> ext_error option \<Rightarrow> bytes \<times> ext_error option \<times> reader"
where
  "read_at_least k r buf err =
     (if length buf < k \<and> err = None
      then case go_read r (k - length buf) of
             (bs, err', r') \<Rightarrow> read_at_least k r' (buf @ bs) err'
      else (buf, err, r))"
  by pat_completeness auto
termination
  by (relation "measure (\<lambda>(k, r, buf, err).
        if err = None then Suc (length (chunks r) + (k - length buf)) else 0)")
    (auto simp: go_read_def split: list.splits if_splits)

declare read_at_least.simps [simp del]

definition read_full :: "reader \<Rightarrow> nat \<Rightarrow> (ext_error + bytes) \<times> reader" where
  \<comment> \<open>\<open>io.ReadFull(r, buf)\<close> with \<open>len(buf) = k\<close>\<close>
  "read_full r k =
     (case read_at_least k r [] None of
        (buf, err, r') \<Rightarrow>
          if k \<le> length buf then (Inr buf, r')
          else (case err of
                  None \<Rightarrow> (Inr buf, r')
                | Some e \<Rightarrow> if buf \<noteq> [] \<and> e = io_eof then (Inl unexpected_eof, r') else (Inl e, r')))"

section \<open>ReadFull does not see how the bytes were cut into chunks\<close>

lemma go_read_content:
  "go_read r k = (bs, e, r') \<Longrightarrow>
     content r = bs @ content r' \<and> length bs \<le> k \<and> end_err r' = end_err r \<and>
     (e = None \<or> e = Some (end_err r) \<and> content r' = [])"
  by (auto simp: go_read_def content_def split: list.splits if_splits)

lemma read_at_least_spec:
  assumes "length buf \<le> k" "err = None \<or> err = Some (end_err r) \<and> content r = []"
    "read_at_least k r buf err = (buf', err', r')"
  shows "end_err r' = end_err r \<and> buf @ content r = buf' @ content r' \<and> length buf' \<le> k \<and>
     (length buf' < k \<longrightarrow> err' = Some (end_err r) \<and> content r' = [])"
  using assms
proof (induction k r buf err arbitrary: buf' err' r' rule: read_at_least.induct)
  case (1 k r buf err)
  show ?case
  proof (cases "length buf < k \<and> err = None")
    case True
    obtain bs e r1 where rd: "go_read r (k - length buf) = (bs, e, r1)" by (metis prod_cases3)
    note content = go_read_content [OF rd]
    have rest: "read_at_least k r1 (buf @ bs) e = (buf', err', r')"
      using 1(4) True rd by (simp add: read_at_least.simps [of k r buf None])
    have "end_err r' = end_err r1 \<and> (buf @ bs) @ content r1 = buf' @ content r' \<and> length buf' \<le> k \<and>
       (length buf' < k \<longrightarrow> err' = Some (end_err r1) \<and> content r' = [])"
      by (rule "1.IH" [OF True rd [symmetric] refl _ _ rest]) (use content True in auto)
    with content show ?thesis by simp
  next
    case False
    with 1 show ?thesis by (auto simp: read_at_least.simps [of k r buf err])
  qed
qed

lemma read_at_least_start:
  assumes "read_at_least k r [] None = (buf, err, r')"
  shows "end_err r' = end_err r" "content r = buf @ content r'" "length buf \<le> k"
    "length buf < k \<Longrightarrow> err = Some (end_err r) \<and> content r' = []"
  using read_at_least_spec [OF _ _ assms] by simp_all

definition short_read_error :: "reader \<Rightarrow> ext_error" where
  "short_read_error r =
     (if content r \<noteq> [] \<and> end_err r = io_eof then unexpected_eof else end_err r)"

lemma read_full_cases:
  "\<exists>r'. read_full r k =
      (if k \<le> length (content r) then Inr (take k (content r)) else Inl (short_read_error r), r') \<and>
    content r' = drop k (content r) \<and> end_err r' = end_err r"
proof -
  obtain buf err r' where rd: "read_at_least k r [] None = (buf, err, r')" by (metis prod_cases3)
  note start = read_at_least_start [OF rd]
  show ?thesis
  proof (cases "length buf < k")
    case True
    then have "err = Some (end_err r)" "content r' = []" "content r = buf" using start by simp_all
    with True rd start(1) show ?thesis by (simp add: read_full_def short_read_error_def)
  next
    case False
    then have "length buf = k" using start(3) by simp
    with rd start(1,2) show ?thesis by (simp add: read_full_def)
  qed
qed

end
