(* ===== verification/Framing.thy ===== *)
theory Framing
  imports Go_IO
begin

text \<open>
  The length-prefixed packet frames of \<open>internal/quictransport/framing.go\<close>, and the
  test for a graceful end of a stream from \<open>server.go\<close>.
\<close>

section \<open>Frames\<close>

definition MaxFrameSize :: nat where "MaxFrameSize = 65535"

datatype frame_error = FrameIO ext_error | FrameEmpty | FrameTooLarge nat

definition write_frame ::
  "('w \<Rightarrow> bytes \<Rightarrow> 'w \<times> ext_error option) \<Rightarrow> 'w \<Rightarrow> bytes \<Rightarrow> 'w \<times> frame_error option" where
  "write_frame write w payload =
     (if length payload = 0 then (w, Some FrameEmpty)
      else if MaxFrameSize < length payload then (w, Some (FrameTooLarge (length payload)))
      else
        let header = put_uint32 (replicate 4 0) 0 (of_nat (length payload))
        in case write w header of
             (w1, Some err) \<Rightarrow> (w1, Some (FrameIO err))
           | (w1, None) \<Rightarrow> (case write w1 payload of (w2, err) \<Rightarrow> (w2, map_option FrameIO err)))"

definition read_frame :: "reader \<Rightarrow> (frame_error + bytes) \<times> reader" where
  "read_frame r =
     (case read_full r 4 of
        (Inl err, r1) \<Rightarrow> (Inl (FrameIO err), r1)
      | (Inr header, r1) \<Rightarrow>
          let n = unat (uint32_be header)
          in if n = 0 then (Inl FrameEmpty, r1)
             else if MaxFrameSize < n then (Inl (FrameTooLarge n), r1)
             else case read_full r1 n of
                    (Inl err, r2) \<Rightarrow> (Inl (FrameIO err), r2)
                  | (Inr payload, r2) \<Rightarrow> (Inr payload, r2))"

definition is_graceful_stream_end :: "frame_error \<Rightarrow> bool" where
  "is_graceful_stream_end err =
     (case err of
        FrameIO e \<Rightarrow> is_eof e \<or> app_code e = Some 0
      | _ \<Rightarrow> False)"

section \<open>The wire format\<close>

definition be32 :: "32 word \<Rightarrow> bytes" where
  "be32 v = [ucast (drop_bit 24 v), ucast (drop_bit 16 v), ucast (drop_bit 8 v), ucast v]"

definition frame_ok :: "bytes \<Rightarrow> bool" where
  "frame_ok p \<longleftrightarrow> p \<noteq> [] \<and> length p \<le> MaxFrameSize"

definition frame_bytes :: "bytes \<Rightarrow> bytes" where
  "frame_bytes p = be32 (of_nat (length p)) @ p"

lemma put_uint32_header: "put_uint32 (replicate 4 0) 0 v = be32 v"
  by (simp add: put_uint32_def be32_def numeral_eq_Suc)

lemma length_be32 [simp]: "length (be32 v) = 4"
  by (simp add: be32_def)

lemma uint32_be32 [simp]: "uint32_be (be32 v) = v"
  by (simp add: be32_def)

lemma be32_uint32:
  assumes "length b = 4"
  shows "be32 (uint32_be b) = b"
proof -
  obtain w x y z where b: "b = [w, x, y, z]"
    using assms by (auto simp: length_Suc_conv numeral_eq_Suc)
  have "ucast (drop_bit 24 (uint32_be b)) = w" "ucast (drop_bit 16 (uint32_be b)) = x"
    "ucast (drop_bit 8 (uint32_be b)) = y" "ucast (uint32_be b) = z"
    unfolding b uint32_be_def
    by (rule bit_word_eqI; auto simp: bit_simps dest: bit_imp_le_length)+
  then show ?thesis by (simp add: be32_def b)
qed

lemma length_frame_bytes: "length (frame_bytes p) = 4 + length p"
  by (simp add: frame_bytes_def)

lemma unat_frame_length: "frame_ok p \<Longrightarrow> unat (of_nat (length p) :: 32 word) = length p"
  by (simp add: frame_ok_def MaxFrameSize_def unat_of_nat)

lemma write_frame_eq:
  "write_frame write w p =
     (if p = [] then (w, Some FrameEmpty)
      else if MaxFrameSize < length p then (w, Some (FrameTooLarge (length p)))
      else case write w (be32 (of_nat (length p))) of
             (w1, Some err) \<Rightarrow> (w1, Some (FrameIO err))
           | (w1, None) \<Rightarrow> (case write w1 p of (w2, err) \<Rightarrow> (w2, map_option FrameIO err)))"
  by (simp add: write_frame_def put_uint32_header)

text \<open>
  Reading a frame, as a function of the bytes still to come and of the error after them.
\<close>

definition frame_result :: "bytes \<Rightarrow> ext_error \<Rightarrow> frame_error + bytes" where
  "frame_result bs e =
     (let n = unat (uint32_be (take 4 bs));
          eof = (\<lambda>partial. FrameIO (if partial \<and> e = io_eof then unexpected_eof else e))
      in if length bs < 4 then Inl (eof (bs \<noteq> []))
         else if n = 0 then Inl FrameEmpty
         else if MaxFrameSize < n then Inl (FrameTooLarge n)
         else if length bs < 4 + n then Inl (eof (4 < length bs))
         else Inr (take n (drop 4 bs)))"

lemma read_frame_cases:
  "\<exists>r'. read_frame r = (frame_result (content r) (end_err r), r') \<and> end_err r' = end_err r \<and>
     (\<forall>p. frame_result (content r) (end_err r) = Inr p \<longrightarrow>
        content r' = drop (4 + length p) (content r))"
proof -
  obtain r1 where r1: "read_full r 4 =
      (if 4 \<le> length (content r) then Inr (take 4 (content r)) else Inl (short_read_error r), r1)"
    "content r1 = drop 4 (content r)" "end_err r1 = end_err r"
    using read_full_cases by blast
  define n where "n = unat (uint32_be (take 4 (content r)))"
  obtain r2 where r2: "read_full r1 n =
      (if n \<le> length (content r1) then Inr (take n (content r1)) else Inl (short_read_error r1), r2)"
    "content r2 = drop n (content r1)" "end_err r2 = end_err r1"
    using read_full_cases by blast
  show ?thesis
    using r1 r2 unfolding read_frame_def frame_result_def
    by (auto simp: n_def [symmetric] Let_def add.commute short_read_error_def less_diff_conv2)
qed

lemma frame_result_ok:
  assumes "frame_result bs e = Inr p"
  shows "frame_ok p" "bs = frame_bytes p @ drop (4 + length p) bs"
proof -
  define n where "n = unat (uint32_be (take 4 bs))"
  have bs: "4 + n \<le> length bs" "n \<noteq> 0" "n \<le> MaxFrameSize" "p = take n (drop 4 bs)"
    using assms by (auto simp: frame_result_def n_def [symmetric] Let_def split: if_splits)
  then have n: "length p = n" by simp
  with bs show "frame_ok p" by (auto simp: frame_ok_def)
  have "be32 (of_nat n) = take 4 bs"
    using bs(1) by (simp add: n_def be32_uint32)
  moreover have "take 4 bs @ p @ drop (4 + length p) bs = bs"
    using bs n by (metis add.commute append_take_drop_id drop_drop)
  ultimately show "bs = frame_bytes p @ drop (4 + length p) bs"
    by (simp add: frame_bytes_def n)
qed

lemma frame_result_frame_bytes:
  "frame_ok p \<Longrightarrow> frame_result (frame_bytes p @ rest) e = Inr p"
  by (auto simp: frame_result_def frame_bytes_def unat_frame_length frame_ok_def Let_def)

section \<open>A codec and its streams\<close>

text \<open>
  The contract between the two ends of a stream: what one \<open>enc\<close> emits, \<open>dec\<close> reads
  back and leaves the rest of the stream untouched; and \<open>dec\<close> accepts nothing else.
\<close>

locale frame_codec =
  fixes enc :: "'p \<Rightarrow> 'b list option"
    and dec :: "'s \<Rightarrow> ('e + 'p) \<times> 's"
    and pending :: "'s \<Rightarrow> 'b list"
    and source :: "'b list \<Rightarrow> 's"
  assumes pending_source: "pending (source w) = w"
    and dec_enc: "enc p = Some w \<Longrightarrow> pending s = w @ rest \<Longrightarrow>
      \<exists>s'. dec s = (Inr p, s') \<and> pending s' = rest"
    and dec_sound: "dec s = (Inr p, s') \<Longrightarrow>
      \<exists>w. enc p = Some w \<and> w \<noteq> [] \<and> pending s = w @ pending s'"
begin

lemma dec_shrinks: "dec s = (Inr p, s') \<Longrightarrow> length (pending s') < length (pending s)"
  by (auto dest: dec_sound)

lemma enc_nonempty: "enc p = Some w \<Longrightarrow> w \<noteq> []"
proof -
  assume enc: "enc p = Some w"
  then obtain s' where "dec (source w) = (Inr p, s')" "pending s' = []"
    using dec_enc [of p w "source w" "[]"] by (auto simp: pending_source)
  then show "w \<noteq> []" using dec_sound [of "source w" p s'] by (auto simp: pending_source)
qed

lemma prefix_free:
  assumes "enc p = Some w" "enc q = Some v" "w @ x = v @ y"
  shows "p = q \<and> x = y"
proof -
  obtain s1 where "dec (source (w @ x)) = (Inr p, s1)" "pending s1 = x"
    using dec_enc [OF assms(1)] pending_source by blast
  moreover obtain s2 where "dec (source (v @ y)) = (Inr q, s2)" "pending s2 = y"
    using dec_enc [OF assms(2)] pending_source by blast
  ultimately show ?thesis using assms(3) by simp
qed

end

definition encode_frame :: "bytes \<Rightarrow> bytes option" where
  \<comment> \<open>what \<open>WriteFrame\<close> appends to a \<open>bytes.Buffer\<close>\<close>
  "encode_frame p =
     (case write_frame (\<lambda>buf bs. (buf @ bs, None)) [] p of
        (buf, None) \<Rightarrow> Some buf
      | (buf, Some err) \<Rightarrow> None)"

lemma encode_frame_eq: "encode_frame p = (if frame_ok p then Some (frame_bytes p) else None)"
  by (auto simp: encode_frame_def write_frame_eq frame_ok_def frame_bytes_def)

interpretation frames: frame_codec encode_frame read_frame content
  "\<lambda>w. \<lparr>chunks = [w], end_err = io_eof, eager = False\<rparr>"
proof
  fix w show "content \<lparr>chunks = [w], end_err = io_eof, eager = False\<rparr> = w"
    by (simp add: content_def)
next
  fix p w s rest
  assume "encode_frame p = Some w" "content s = w @ rest"
  then have "frame_result (content s) (end_err s) = Inr p" "length w = 4 + length p"
    by (auto simp: encode_frame_eq frame_result_frame_bytes length_frame_bytes split: if_splits)
  with \<open>content s = w @ rest\<close> show "\<exists>s'. read_frame s = (Inr p, s') \<and> content s' = rest"
    using read_frame_cases [of s] by auto
next
  fix s p s'
  assume rd: "read_frame s = (Inr p, s')"
  then have res: "frame_result (content s) (end_err s) = Inr p"
    and rest: "content s' = drop (4 + length p) (content s)"
    using read_frame_cases [of s] by auto
  show "\<exists>w. encode_frame p = Some w \<and> w \<noteq> [] \<and> content s = w @ content s'"
    using frame_result_ok [OF res] rest
    by (auto simp: encode_frame_eq frame_bytes_def be32_def)
qed

section \<open>All the frames of a stream\<close>

function read_frames :: "reader \<Rightarrow> bytes list \<times> frame_error" where
  \<comment> \<open>what a loop around \<open>ReadFrame\<close> sees: the frames, then the error that ends it\<close>
  "read_frames r =
     (case read_frame r of
        (Inl e, r') \<Rightarrow> ([], e)
      | (Inr p, r') \<Rightarrow> (case read_frames r' of (ps, e) \<Rightarrow> (p # ps, e)))"
  by pat_completeness auto
termination
  by (relation "measure (\<lambda>r. length (content r))") (auto intro: frames.dec_shrinks dest: sym)

declare read_frames.simps [simp del]

lemma read_frames_encoded:
  assumes "list_all frame_ok ps" "content r = concat (map frame_bytes ps) @ tail"
  shows "\<exists>r'. content r' = tail \<and> end_err r' = end_err r \<and>
    read_frames r = (ps @ fst (read_frames r'), snd (read_frames r'))"
  using assms
proof (induction ps arbitrary: r)
  case Nil
  then show ?case by (intro exI [of _ r]) simp
next
  case (Cons p ps)
  then have "encode_frame p = Some (frame_bytes p)" by (simp add: encode_frame_eq)
  moreover have "content r = frame_bytes p @ (concat (map frame_bytes ps) @ tail)"
    using Cons.prems by simp
  ultimately obtain r1 where r1: "read_frame r = (Inr p, r1)"
    "content r1 = concat (map frame_bytes ps) @ tail"
    using frames.dec_enc by blast
  then have "end_err r1 = end_err r" using read_frame_cases [of r] by auto
  with Cons.IH [of r1] Cons.prems r1 show ?case
    by (auto simp: read_frames.simps [of r] split: prod.splits)
qed

lemma read_frames_ok: "list_all frame_ok (fst (read_frames r))"
proof (induction r rule: read_frames.induct)
  case (1 r)
  show ?case
  proof (cases "read_frame r")
    case (Pair res r')
    show ?thesis
    proof (cases res)
      case (Inl e)
      with Pair show ?thesis by (simp add: read_frames.simps [of r])
    next
      case (Inr p)
      have "frame_ok p"
        using frames.dec_sound [of r p r'] Pair Inr by (auto simp: encode_frame_eq split: if_splits)
      moreover have "list_all frame_ok (fst (read_frames r'))" using 1 Pair Inr by simp
      ultimately show ?thesis using Pair Inr
        by (auto simp: read_frames.simps [of r] split: prod.splits)
    qed
  qed
qed

lemma read_frames_step:
  "read_frame r = (Inr p, r') \<Longrightarrow> read_frames r = (p # fst (read_frames r'), snd (read_frames r'))"
  "read_frame r = (Inl e, r') \<Longrightarrow> read_frames r = ([], e)"
  by (simp_all add: read_frames.simps [of r] split: prod.split)

lemma read_frames_split:
  "\<exists>r'. content r = concat (map frame_bytes (fst (read_frames r))) @ content r' \<and>
     end_err r' = end_err r \<and> frame_result (content r') (end_err r) = Inl (snd (read_frames r))"
proof (induction r rule: read_frames.induct)
  case (1 r)
  obtain r' where r': "read_frame r = (frame_result (content r) (end_err r), r')"
    "end_err r' = end_err r"
    "\<And>p. frame_result (content r) (end_err r) = Inr p \<Longrightarrow> content r' = drop (4 + length p) (content r)"
    using read_frame_cases by blast
  show ?case
  proof (cases "frame_result (content r) (end_err r)")
    case (Inl e)
    with r' show ?thesis by (intro exI [of _ r]) (simp add: read_frames.simps [of r])
  next
    case (Inr p)
    obtain r2 where r2: "content r' = concat (map frame_bytes (fst (read_frames r'))) @ content r2"
      "end_err r2 = end_err r'"
      "frame_result (content r2) (end_err r') = Inl (snd (read_frames r'))"
      using 1 [OF _ Inr] r'(1) Inr by (metis surj_pair)
    have "content r = frame_bytes p @ content r'"
      using frame_result_ok(2) [OF Inr] r'(3) [OF Inr] by simp
    moreover have "read_frames r = (p # fst (read_frames r'), snd (read_frames r'))"
      using r'(1) Inr by (intro read_frames_step) simp
    ultimately show ?thesis
      using r2 r'(2) by (intro exI [of _ r2]) (simp only: fst_conv snd_conv list.map concat.simps append_assoc)
  qed
qed

lemma frame_result_graceful:
  "(\<exists>e. frame_result bs io_eof = Inl e \<and> is_graceful_stream_end e) \<longleftrightarrow>
     bs = [] \<or> (\<exists>n. 0 < n \<and> n \<le> MaxFrameSize \<and> bs = be32 (of_nat n))"
proof
  assume "\<exists>e. frame_result bs io_eof = Inl e \<and> is_graceful_stream_end e"
  then consider "bs = []" | "length bs = 4" "unat (uint32_be bs) \<noteq> 0" "unat (uint32_be bs) \<le> MaxFrameSize"
    by (auto simp: frame_result_def Let_def is_graceful_stream_end_def unexpected_eof_def split: if_splits)
  then show "bs = [] \<or> (\<exists>n. 0 < n \<and> n \<le> MaxFrameSize \<and> bs = be32 (of_nat n))"
  proof cases
    case 2
    then have "bs = be32 (of_nat (unat (uint32_be bs)))" by (simp add: be32_uint32)
    with 2 show ?thesis by (metis gr0I)
  qed simp
next
  assume "bs = [] \<or> (\<exists>n. 0 < n \<and> n \<le> MaxFrameSize \<and> bs = be32 (of_nat n))"
  then show "\<exists>e. frame_result bs io_eof = Inl e \<and> is_graceful_stream_end e"
    by (auto simp: frame_result_def Let_def is_graceful_stream_end_def io_eof_def unat_of_nat MaxFrameSize_def)
qed

lemma read_frames_exact:
  assumes "list_all frame_ok ps" "content r = concat (map frame_bytes ps)"
  shows "read_frames r = (ps, FrameIO (end_err r))"
proof -
  obtain r' where "content r' = []" "end_err r' = end_err r"
    "read_frames r = (ps @ fst (read_frames r'), snd (read_frames r'))"
    using read_frames_encoded [of ps r "[]"] assms by auto
  moreover have "read_frames r' = ([], FrameIO (end_err r'))"
    using read_frame_cases [of r'] \<open>content r' = []\<close>
    by (auto simp: read_frames.simps [of r'] frame_result_def)
  ultimately show ?thesis by simp
qed

section \<open>Properties\<close>

text \<open>
  (C20) Frames round trip: what \<open>WriteFrame\<close> emits for a sequence of packets, however the
  transport cuts it into chunks, \<open>ReadFrame\<close> returns packet by packet, in order, and
  then reports the error that ends the stream.
\<close>

theorem frames_round_trip:
  assumes "map encode_frame ps = map Some ws" "content r = concat ws"
  shows "read_frames r = (ps, FrameIO (end_err r))"
proof -
  have "length ws = length ps" using assms(1) by (metis length_map)
  have ws: "frame_ok p \<and> w = frame_bytes p" if "encode_frame p = Some w" for p w
    using that by (auto simp: encode_frame_eq split: if_splits)
  have "list_all frame_ok ps \<and> ws = map frame_bytes ps"
    using \<open>length ws = length ps\<close> assms(1)
    by (induction ws ps rule: list_induct2) (auto dest: ws)
  then show ?thesis using assms(2) by (intro read_frames_exact) auto
qed

theorem frames_round_trip_witness:
  "read_frames \<lparr>chunks = [[0, 0], [0, 2, 7], [], [9, 0, 0, 0, 1, 5]], end_err = io_eof, eager = True\<rparr>
     = ([[7, 9], [5]], FrameIO io_eof)"
proof -
  have "map encode_frame [[7, 9], [5]] = map Some [[0, 0, 0, 2, 7, 9], [0, 0, 0, 1, 5]]"
    by (simp add: encode_frame_eq frame_ok_def frame_bytes_def be32_def MaxFrameSize_def)
  from frames_round_trip [OF this,
      of "\<lparr>chunks = [[0, 0], [0, 2, 7], [], [9, 0, 0, 0, 1, 5]], end_err = io_eof, eager = True\<rparr>"]
  show ?thesis by (simp add: content_def)
qed

text \<open>
  \<open>ReadFrame\<close> sees only the byte sequence: two streams with the same bytes and the
  same final error give the same result, whatever the chunks; a returned packet has
  between 1 and 65535 bytes and is followed by the rest of the stream.
\<close>

theorem read_frame_ignores_chunking:
  assumes "content r = content s" "end_err r = end_err s"
  shows "fst (read_frame r) = fst (read_frame s) \<and> read_frames r = read_frames s \<and>
    (\<forall>p r'. read_frame r = (Inr p, r') \<longrightarrow>
       0 < length p \<and> length p \<le> 65535 \<and> content s = frame_bytes p @ content r')"
proof -
  have one: "fst (read_frame r) = fst (read_frame s)"
    using read_frame_cases [of r] read_frame_cases [of s] assms by auto
  moreover have "read_frames r = read_frames s"
    using assms
  proof (induction r arbitrary: s rule: read_frames.induct)
    case (1 r)
    obtain r' s' where rd: "read_frame r = (frame_result (content r) (end_err r), r')"
        "read_frame s = (frame_result (content r) (end_err r), s')"
        "end_err r' = end_err s'"
        "\<And>p. frame_result (content r) (end_err r) = Inr p \<Longrightarrow> content r' = content s'"
      using read_frame_cases [of r] read_frame_cases [of s] 1(2,3) by auto
    show ?case
      using rd "1.IH" [of _ r' _ s'] unfolding read_frames.simps [of r] read_frames.simps [of s]
      by (auto split: sum.split prod.split)
  qed
  moreover have "0 < length p \<and> length p \<le> 65535 \<and> content s = frame_bytes p @ content r'"
    if "read_frame r = (Inr p, r')" for p r'
    using frames.dec_sound [OF that] assms(1)
    by (auto simp: encode_frame_eq frame_ok_def MaxFrameSize_def split: if_splits)
  ultimately show ?thesis by blast
qed

theorem read_frame_ignores_chunking_witness:
  "fst (read_frame \<lparr>chunks = [[0, 0, 0], [1, 5, 6]], end_err = io_eof, eager = False\<rparr>) =
   fst (read_frame \<lparr>chunks = [[0], [0, 0, 1, 5], [6]], end_err = io_eof, eager = True\<rparr>)"
  using read_frame_ignores_chunking
    [of "\<lparr>chunks = [[0, 0, 0], [1, 5, 6]], end_err = io_eof, eager = False\<rparr>"
        "\<lparr>chunks = [[0], [0, 0, 1, 5], [6]], end_err = io_eof, eager = True\<rparr>"]
  by (simp add: content_def)

text \<open>
  Where a stream may end without being reported: a stream that ends in \<open>io.EOF\<close>
  counts as gracefully closed exactly when it stops behind a complete frame, or right
  behind the four-byte length of a frame whose payload is missing altogether.
\<close>

theorem graceful_end_positions:
  assumes "end_err r = io_eof" "read_frames r = (ps, err)"
  shows "is_graceful_stream_end err \<longleftrightarrow>
    content r = concat (map frame_bytes ps) \<or>
    (\<exists>n. 0 < n \<and> n \<le> MaxFrameSize \<and> content r = concat (map frame_bytes ps) @ be32 (of_nat n))"
proof -
  obtain r' where r': "content r = concat (map frame_bytes ps) @ content r'"
    "frame_result (content r') io_eof = Inl err"
    using read_frames_split [of r] assms by auto
  with frame_result_graceful [of "content r'"] show ?thesis by simp
qed

theorem graceful_end_positions_witness:
  "is_graceful_stream_end
     (snd (read_frames \<lparr>chunks = [[0, 0, 0, 1, 5], [0, 0, 0, 9]], end_err = io_eof, eager = False\<rparr>))"
proof -
  let ?r = "\<lparr>chunks = [[0, 0, 0, 1, 5], [0, 0, 0, 9]], end_err = io_eof, eager = False\<rparr>"
  let ?s = "\<lparr>chunks = [[0, 0, 0, 9]], end_err = io_eof, eager = False\<rparr>"
  have ok: "frame_ok [5]" by (simp add: frame_ok_def MaxFrameSize_def)
  have "content ?r = frame_bytes [5] @ be32 (of_nat 9)"
    by (simp add: content_def frame_bytes_def be32_def)
  moreover obtain r' where "content r' = be32 (of_nat 9)" "end_err r' = io_eof"
      "read_frames ?r = ([5] # fst (read_frames r'), snd (read_frames r'))"
    using read_frames_encoded [of "[[5]]" ?r "be32 (of_nat 9)"] ok calculation by auto
  moreover have "fst (read_frames r') = []"
    using read_frame_cases [of r'] calculation(2,3)
    by (auto simp: read_frames.simps [of r'] frame_result_def Let_def MaxFrameSize_def)
  ultimately have "read_frames ?r = ([[5]], snd (read_frames ?r))" by simp
  moreover have "\<exists>n>0. n \<le> MaxFrameSize \<and> content ?r = concat (map frame_bytes [[5]]) @ be32 (of_nat n)"
    using \<open>content ?r = _\<close> by (intro exI [of _ 9]) (simp add: MaxFrameSize_def)
  ultimately show ?thesis
    using graceful_end_positions [of ?r "[[5]]" "snd (read_frames ?r)"] by simp
qed

end
