(* ===== verification/Device_Errors.thy ===== *)
theory Device_Errors
  imports Go_IO
begin

text \<open>
  The classification of TUN read errors in \<open>internal/quictransport/device_errors.go\<close>:
  which end the read loop silently, which are retried and how often, and which retries
  are logged.  \<open>None\<close> is the nil error; the state of the context is an argument.
\<close>

definition retryablePacketDeviceReadDelay :: "64 word" where
  "retryablePacketDeviceReadDelay = 10 * 1000000"

definition maxRetryablePacketDeviceReads :: nat where
  "maxRetryablePacketDeviceReads = 100"

definition notPollablePacketDeviceFragment :: string where
  "notPollablePacketDeviceFragment = ''not pollable''"

fun str_contains :: "string \<Rightarrow> string \<Rightarrow> bool" where
  \<comment> \<open>\<open>strings.Contains\<close>\<close>
  "str_contains [] sub = (sub = [])"
| "str_contains (c # cs) sub = (take (length sub) (c # cs) = sub \<or> str_contains cs sub)"

definition is_closed_packet_device_error :: "bool \<Rightarrow> ext_error \<Rightarrow> bool" where
  "is_closed_packet_device_error done err \<longleftrightarrow> done \<or> is_closed err"

definition is_retryable_packet_device_read_error :: "ext_error option \<Rightarrow> bool" where
  "is_retryable_packet_device_read_error err =
     (case err of
        None \<Rightarrow> False
      | Some e \<Rightarrow> str_contains (ext_text e) notPollablePacketDeviceFragment)"

definition should_log_retryable_packet_device_read :: "nat \<Rightarrow> bool" where
  "should_log_retryable_packet_device_read attempt \<longleftrightarrow> attempt = 1 \<or> attempt mod 10 = 0"

lemma str_contains_iff: "str_contains s sub \<longleftrightarrow> (\<exists>pre post. s = pre @ sub @ post)"
proof (induction s)
  case (Cons c cs)
  have "take (length sub) (c # cs) = sub \<longleftrightarrow> (\<exists>post. c # cs = sub @ post)"
    by (metis append_eq_conv_conj)
  moreover have "(\<exists>pre post. c # cs = pre @ sub @ post) \<longleftrightarrow>
      (\<exists>post. c # cs = sub @ post) \<or> (\<exists>pre post. cs = pre @ sub @ post)"
    by (metis Cons_eq_append_conv append_Nil)
  ultimately show ?case using Cons.IH by simp
qed simp

lemma retryable_iff:
  "is_retryable_packet_device_read_error (Some e) \<longleftrightarrow>
     (\<exists>pre post. ext_text e = pre @ ''not pollable'' @ post)"
  by (simp add: is_retryable_packet_device_read_error_def notPollablePacketDeviceFragment_def
      str_contains_iff)

definition not_pollable :: ext_error where
  \<comment> \<open>such an error, for the concrete instances\<close>
  "not_pollable = \<lparr>is_eof = False, is_closed = False, is_canceled = False, app_code = None, ext_text = ''not pollable''\<rparr>"

lemma not_pollable_retryable:
  "is_retryable_packet_device_read_error (Some not_pollable)" "\<not> is_closed not_pollable"
proof -
  show "is_retryable_packet_device_read_error (Some not_pollable)"
    unfolding retryable_iff not_pollable_def by (intro exI [of _ "[]"]) simp
qed (simp add: not_pollable_def)

end
