(* ===== verification/Backoff.thy ===== *)
theory Backoff
  imports Prelude
begin

text \<open>
  The reconnect delays of the TUN client in \<open>internal/quictransport/client.go\<close>:
  \<open>reconnectBackoff\<close> and \<open>normalizeTUNReconnectIntervals\<close>.  A \<open>time.Duration\<close> is a
  signed 64-bit count of nanoseconds: a 64-bit word read with \<open>sint\<close>, whose doubling
  wraps around.
\<close>

section \<open>The backoff\<close>

type_synonym duration = "64 word"

record reconnect_backoff =
  bo_min :: duration
  bo_max :: duration
  bo_current :: duration

definition new_reconnect_backoff :: "duration \<Rightarrow> duration \<Rightarrow> reconnect_backoff" where
  "new_reconnect_backoff minDelay maxDelay =
     \<lparr>bo_min = minDelay, bo_max = maxDelay, bo_current = minDelay\<rparr>"

definition backoff_next :: "reconnect_backoff \<Rightarrow> duration \<times> reconnect_backoff" where
  "backoff_next b =
     (let delay = bo_current b
      in (delay,
          if sint (bo_current b) < sint (bo_max b)
          then let b = b\<lparr>bo_current := bo_current b * 2\<rparr>
               in if sint (bo_max b) < sint (bo_current b) then b\<lparr>bo_current := bo_max b\<rparr> else b
          else b))"

definition backoff_reset :: "reconnect_backoff \<Rightarrow> reconnect_backoff" where
  "backoff_reset b = b\<lparr>bo_current := bo_min b\<rparr>"

section \<open>The configured interval\<close>

definition DefaultTUNReconnectMinInterval :: duration where
  "DefaultTUNReconnectMinInterval = 1000000000"

definition DefaultTUNReconnectMaxInterval :: duration where
  "DefaultTUNReconnectMaxInterval = 30 * 1000000000"

datatype interval_error =
    ReconnectMinNegative duration | ReconnectMaxNegative duration
  | ReconnectMinExceedsMax duration duration

definition normalize_tun_reconnect_intervals ::
  "duration \<Rightarrow> duration \<Rightarrow> interval_error + duration \<times> duration" where
  "normalize_tun_reconnect_intervals minDelay maxDelay =
     (let minDelay = (if minDelay = 0 then DefaultTUNReconnectMinInterval else minDelay);
          maxDelay = (if maxDelay = 0 then DefaultTUNReconnectMaxInterval else maxDelay)
      in if sint minDelay < 0 then Inl (ReconnectMinNegative minDelay)
         else if sint maxDelay < 0 then Inl (ReconnectMaxNegative maxDelay)
         else if sint maxDelay < sint minDelay then Inl (ReconnectMinExceedsMax minDelay maxDelay)
         else Inr (minDelay, maxDelay))"

section \<open>The schedule of delays\<close>

fun delays :: "nat \<Rightarrow> reconnect_backoff \<Rightarrow> duration list" where
  \<comment> \<open>the waiting times before the next \<open>n\<close> attempts\<close>
  "delays 0 b = []"
| "delays (Suc n) b = (case backoff_next b of (d, b') \<Rightarrow> d # delays n b')"

definition backoff_ok :: "reconnect_backoff \<Rightarrow> bool" where
  "backoff_ok b \<longleftrightarrow> 0 < sint (bo_min b) \<and> sint (bo_min b) \<le> sint (bo_current b) \<and>
     sint (bo_current b) \<le> sint (bo_max b) \<and> sint (bo_max b) \<le> 2 ^ 62"

lemma sint_double:
  assumes "0 \<le> sint (d :: duration)" "sint d < 2 ^ 62"
  shows "sint (d * 2) = 2 * sint d"
proof -
  have "sint (d * 2) = signed_take_bit 63 (sint d * sint (2 :: duration))"
    using sint_word_ariths(3) [of d 2] by simp
  also have "sint (2 :: duration) = 2" by simp
  also have "signed_take_bit 63 (sint d * 2) = sint d * 2"
    using assms by (intro signed_take_bit_int_eq_self) simp_all
  finally show ?thesis by simp
qed

lemma backoff_next_ok:
  assumes "backoff_ok b"
  shows "backoff_ok (snd (backoff_next b))"
    "sint (bo_current (snd (backoff_next b))) = min (2 * sint (bo_current b)) (sint (bo_max b))"
    "bo_max (snd (backoff_next b)) = bo_max b" "bo_min (snd (backoff_next b)) = bo_min b"
    "fst (backoff_next b) = bo_current b"
proof -
  have dbl: "sint (bo_current b * 2) = 2 * sint (bo_current b)"
    if "sint (bo_current b) < sint (bo_max b)"
    using assms that by (intro sint_double) (simp_all add: backoff_ok_def)
  show "sint (bo_current (snd (backoff_next b))) = min (2 * sint (bo_current b)) (sint (bo_max b))"
    using assms dbl by (auto simp: backoff_next_def backoff_ok_def Let_def)
  then show "backoff_ok (snd (backoff_next b))"
    using assms by (auto simp: backoff_ok_def backoff_next_def Let_def)
qed (auto simp: backoff_next_def Let_def)

lemma capped_doubling:
  assumes "0 < (c :: int)" "0 < m"
  shows "min (min (2 * c) m * 2 ^ k) m = min (c * 2 ^ Suc k) m"
proof (cases "2 * c \<le> m")
  case False
  have grow: "x \<le> x * 2 ^ k" if "0 < x" for x :: int
    using that by (simp add: mult_le_cancel_left1)
  have "m \<le> c * 2 ^ Suc k"
  proof -
    have "m \<le> 2 * c" using False by simp
    also have "\<dots> \<le> 2 * c * 2 ^ k" using grow assms by simp
    finally show ?thesis by (simp add: mult_ac)
  qed
  with False grow [OF assms(2)] show ?thesis by (simp add: min_def)
qed (simp add: mult_ac)

lemma delays_schedule:
  assumes "backoff_ok b"
  shows "map sint (delays n b) =
    map (\<lambda>k. min (sint (bo_current b) * 2 ^ k) (sint (bo_max b))) [0..<n]"
  using assms
proof (induction n arbitrary: b)
  case (Suc n)
  obtain d b' where nx: "backoff_next b = (d, b')" by fastforce
  note ok = backoff_next_ok [OF Suc.prems, unfolded nx, simplified]
  have le: "sint (bo_current b) \<le> sint (bo_max b)" and pos: "0 < sint (bo_current b)"
    using Suc.prems by (auto simp: backoff_ok_def)
  have "min (sint (bo_current b') * 2 ^ k) (sint (bo_max b')) =
      min (sint (bo_current b) * 2 ^ Suc k) (sint (bo_max b))" for k
    using capped_doubling [of "sint (bo_current b)" "sint (bo_max b)" k] le pos ok by simp
  with Suc.IH [OF ok(1)] have "map sint (delays n b') =
      map (\<lambda>k. min (sint (bo_current b) * 2 ^ Suc k) (sint (bo_max b))) [0..<n]" by simp
  moreover have "[0..<Suc n] = 0 # map Suc [0..<n]" by (simp add: upt_conv_Cons map_Suc_upt)
  ultimately show ?case using nx ok le by simp
qed simp

section \<open>Properties\<close>

text \<open>
  (C39) With an interval as \<open>normalizeTUNReconnectIntervals\<close> accepts it and a maximum of
  at most \<open>2^62\<close> ns (146 years), the \<open>k\<close>-th delay after a reset is
  \<open>min (minDelay * 2^k) maxDelay\<close>: exponential, and inside the configured interval.
\<close>

theorem backoff_schedule:
  assumes "normalize_tun_reconnect_intervals d1 d2 = Inr (minDelay, maxDelay)"
    "sint maxDelay \<le> 2 ^ 62"
    "b = new_reconnect_backoff minDelay maxDelay \<or>
     (\<exists>b0. bo_min b0 = minDelay \<and> bo_max b0 = maxDelay \<and> b = backoff_reset b0)"
  shows "map sint (delays n b) = map (\<lambda>k. min (sint minDelay * 2 ^ k) (sint maxDelay)) [0..<n] \<and>
    list_all (\<lambda>d. sint minDelay \<le> sint d \<and> sint d \<le> sint maxDelay) (delays n b)"
proof -
  have iv: "0 < sint minDelay" "sint minDelay \<le> sint maxDelay"
    using assms(1) by (auto simp: normalize_tun_reconnect_intervals_def Let_def
      DefaultTUNReconnectMinInterval_def DefaultTUNReconnectMaxInterval_def
      order_less_le signed_eq_0_iff split: if_splits)
  have b: "bo_min b = minDelay" "bo_max b = maxDelay" "bo_current b = minDelay"
    using assms(3) by (auto simp: new_reconnect_backoff_def backoff_reset_def)
  with iv assms(2) have "backoff_ok b" by (simp add: backoff_ok_def)
  note sched = delays_schedule [OF this, of n, unfolded b]
  have "sint minDelay \<le> min (sint minDelay * 2 ^ k) (sint maxDelay)" for k
    using iv by (simp add: mult_le_cancel_left1)
  then have "list_all (\<lambda>d. sint minDelay \<le> d \<and> d \<le> sint maxDelay) (map sint (delays n b))"
    unfolding sched by (simp add: list_all_iff)
  then have "list_all (\<lambda>d. sint minDelay \<le> sint d \<and> sint d \<le> sint maxDelay) (delays n b)"
    by (simp add: list.pred_map comp_def)
  with sched show ?thesis by blast
qed

theorem backoff_schedule_witness:
  "map sint (delays 7 (new_reconnect_backoff 1000000000 30000000000)) =
     [1000000000, 2000000000, 4000000000, 8000000000, 16000000000, 30000000000, 30000000000]"
proof -
  have "normalize_tun_reconnect_intervals 0 0 = Inr (1000000000, 30000000000)"
    by (simp add: normalize_tun_reconnect_intervals_def DefaultTUNReconnectMinInterval_def
        DefaultTUNReconnectMaxInterval_def)
  from backoff_schedule [OF this, of _ 7] show ?thesis
    by (simp add: upt_rec)
qed

text \<open>
  Beyond that bound the doubling overflows: with a minimum just above \<open>2^62\<close> ns
  and the largest duration as maximum, an interval that is accepted, the second delay is
  negative, so the timer fires at once and the redial loop does not wait.
\<close>

theorem backoff_overflow:
  "normalize_tun_reconnect_intervals (2 ^ 62 + 1) (2 ^ 63 - 1) = Inr (2 ^ 62 + 1, 2 ^ 63 - 1) \<and>
   sint (fst (backoff_next (snd (backoff_next (new_reconnect_backoff (2 ^ 62 + 1) (2 ^ 63 - 1)))))) < 0"
  by (simp add: normalize_tun_reconnect_intervals_def new_reconnect_backoff_def backoff_next_def
      Let_def)

text \<open>
  The configured reconnect interval: a zero bound is replaced by its default, and the
  result is accepted exactly when it is positive and ordered.
\<close>

theorem reconnect_interval_accepted:
  "(normalize_tun_reconnect_intervals d1 d2 = Inr (minDelay, maxDelay)) =
     (minDelay = (if d1 = 0 then 1000000000 else d1) \<and>
      maxDelay = (if d2 = 0 then 30000000000 else d2) \<and>
      0 < sint minDelay \<and> sint minDelay \<le> sint maxDelay)"
  using signed_eq_0_iff [of d1] signed_eq_0_iff [of d2]
  by (auto simp: normalize_tun_reconnect_intervals_def Let_def
      DefaultTUNReconnectMinInterval_def DefaultTUNReconnectMaxInterval_def order_less_le
      split: if_splits)

end
