(* ===== verification/Tun_Device.thy ===== *)
theory Tun_Device
  imports Go_IO
begin

text \<open>
  Opening the TUN device, \<open>internal/tun\<close>: the name as \<open>normalizeDeviceName\<close> makes
  it, and the system calls of \<open>Open\<close> on Linux.  The calls of \<open>golang.org/x/sys/unix\<close>
  are the fields of \<open>unix_env\<close>; a file descriptor is a number, and the calls that open
  and close one are recorded in order.  Strings are the bytes of Go strings.
\<close>

section \<open>\<open>strings.TrimSpace\<close>\<close>

definition bytes_string :: "nat list \<Rightarrow> string" where
  "bytes_string ns = map char_of ns"

definition space_runes :: "string list" where
  \<comment> \<open>the UTF-8 encodings of the runes of \<open>unicode.IsSpace\<close>\<close>
  "space_runes = map bytes_string
     ([[9], [10], [11], [12], [13], [32], [0xC2, 0x85], [0xC2, 0xA0], [0xE1, 0x9A, 0x80]] @
      map (\<lambda>n. [0xE2, 0x80, n]) ([0x80..<0x8B] @ [0xA8, 0xA9, 0xAF]) @
      [[0xE2, 0x81, 0x9F], [0xE3, 0x80, 0x80]])"

function strip_prefixes :: "string list \<Rightarrow> string \<Rightarrow> string" where
  "strip_prefixes ws s =
     (case find (\<lambda>w. w \<noteq> [] \<and> take (length w) s = w) ws of
        None \<Rightarrow> s
      | Some w \<Rightarrow> strip_prefixes ws (drop (length w) s))"
  by pat_completeness auto
termination
proof (relation "measure (\<lambda>(ws, s). length s)", goal_cases)
  case (2 ws s w)
  then have "w \<noteq> []" "take (length w) s = w" by (auto simp: find_Some_iff)
  then have "s \<noteq> []" "0 < length w" by auto
  then show ?case by simp
qed simp

declare strip_prefixes.simps [simp del]

definition trim_space :: "string \<Rightarrow> string" where
  "trim_space s = rev (strip_prefixes (map rev space_runes) (rev (strip_prefixes space_runes s)))"

definition starts_with_any :: "string list \<Rightarrow> string \<Rightarrow> bool" where
  "starts_with_any ws s \<longleftrightarrow> list_ex (\<lambda>w. w \<noteq> [] \<and> take (length w) s = w) ws"

lemma strip_prefixes_id: "strip_prefixes ws s = s" if "\<not> starts_with_any ws s"
  using that
  by (simp add: strip_prefixes.simps [of ws s] starts_with_any_def find_None_iff list_ex_iff split: option.split)
    (auto simp: find_Some_iff)

lemma strip_prefixes_clean: "\<not> starts_with_any ws (strip_prefixes ws s)"
proof (induction ws s rule: strip_prefixes.induct)
  case (1 ws s)
  show ?case
  proof (cases "find (\<lambda>w. w \<noteq> [] \<and> take (length w) s = w) ws")
    case None
    then have "strip_prefixes ws s = s" by (simp add: strip_prefixes.simps [of ws s])
    with None show ?thesis by (simp add: starts_with_any_def find_None_iff list_ex_iff)
  next
    case (Some w)
    with 1 show ?thesis by (simp add: strip_prefixes.simps [of ws s])
  qed
qed

lemma strip_prefixes_drop: "\<exists>n. strip_prefixes ws s = drop n s"
proof (induction ws s rule: strip_prefixes.induct)
  case (1 ws s)
  show ?case
  proof (cases "find (\<lambda>w. w \<noteq> [] \<and> take (length w) s = w) ws")
    case None
    then show ?thesis by (intro exI [of _ 0]) (simp add: strip_prefixes.simps [of ws s])
  next
    case (Some w)
    with 1 obtain n where "strip_prefixes ws (drop (length w) s) = drop n (drop (length w) s)" by blast
    with Some show ?thesis
      by (intro exI [of _ "n + length w"]) (simp add: strip_prefixes.simps [of ws s] add.commute)
  qed
qed

lemma starts_with_take:
  assumes "starts_with_any ws (take n s)"
  shows "starts_with_any ws s"
proof -
  obtain w where w: "w \<in> set ws" "w \<noteq> []" "take (length w) (take n s) = w"
    using assms by (auto simp: starts_with_any_def list_ex_iff)
  then have "length w \<le> n" by (metis length_take min.bounded_iff min.cobounded1 take_take)
  with w have "take (length w) s = w" by (simp add: min_absorb1)
  with w show ?thesis by (auto simp: starts_with_any_def list_ex_iff)
qed

lemma trim_space_clean:
  "\<not> starts_with_any space_runes (trim_space s)"
  "\<not> starts_with_any (map rev space_runes) (rev (trim_space s))"
proof -
  obtain n where "strip_prefixes (map rev space_runes) (rev (strip_prefixes space_runes s)) =
      drop n (rev (strip_prefixes space_runes s))"
    using strip_prefixes_drop by blast
  then have "trim_space s = take (length (strip_prefixes space_runes s) - n) (strip_prefixes space_runes s)"
    by (simp add: trim_space_def rev_drop)
  then show "\<not> starts_with_any space_runes (trim_space s)"
    using strip_prefixes_clean starts_with_take by metis
  show "\<not> starts_with_any (map rev space_runes) (rev (trim_space s))"
    by (simp add: trim_space_def strip_prefixes_clean)
qed

lemma trim_space_id:
  "\<not> starts_with_any space_runes s \<Longrightarrow> \<not> starts_with_any (map rev space_runes) (rev s) \<Longrightarrow> trim_space s = s"
  by (simp add: trim_space_def strip_prefixes_id)

section \<open>Opening\<close>

definition DefaultDeviceName :: string where "DefaultDeviceName = ''mvpvpn0''"
definition DefaultServerDeviceName :: string where "DefaultServerDeviceName = ''mvpvpns0''"
definition DefaultMTU :: int where "DefaultMTU = 1400"

definition normalize_device_name :: "string \<Rightarrow> string" where
  "normalize_device_name name =
     (let name = trim_space name in if name = '''' then DefaultDeviceName else name)"

record ifreq =
  ifr_name :: string
  ifr_flags :: "16 word"

record unix_env =
  new_ifreq :: "string \<Rightarrow> ext_error + ifreq"
  unix_open :: "string \<Rightarrow> ext_error + int"
  ioctl_ifreq :: "int \<Rightarrow> ifreq \<Rightarrow> ext_error + ifreq"  \<comment> \<open>with what the kernel wrote back\<close>

datatype fd_event = FdOpen int | FdClose int

record tun_device =
  td_file :: int
  td_name :: string

datatype tun_error =
  InvalidDeviceName string ext_error | OpenDevicePath ext_error | NilFile | ConfigureTUN string ext_error

definition device_path :: string where "device_path = ''/dev/net/tun''"
definition IFF_TUN :: "16 word" where "IFF_TUN = 0x0001"
definition IFF_NO_PI :: "16 word" where "IFF_NO_PI = 0x1000"

definition open_tun :: "unix_env \<Rightarrow> string \<Rightarrow> (tun_error + tun_device) \<times> fd_event list" where
  \<comment> \<open>\<open>os.NewFile\<close> returns nil for a negative descriptor\<close>
  "open_tun ue name =
     (let deviceName = normalize_device_name name
      in case new_ifreq ue deviceName of
           Inl err \<Rightarrow> (Inl (InvalidDeviceName deviceName err), [])
         | Inr req \<Rightarrow>
             let req = req\<lparr>ifr_flags := IFF_TUN OR IFF_NO_PI\<rparr>
             in case unix_open ue device_path of
                  Inl err \<Rightarrow> (Inl (OpenDevicePath err), [])
                | Inr fd \<Rightarrow>
                    if fd < 0 then (Inl NilFile, [FdOpen fd, FdClose fd])
                    else case ioctl_ifreq ue fd req of
                           Inl err \<Rightarrow> (Inl (ConfigureTUN deviceName err), [FdOpen fd, FdClose fd])
                         | Inr req \<Rightarrow> (Inr \<lparr>td_file = fd, td_name = ifr_name req\<rparr>, [FdOpen fd]))"

definition open_tun_unsupported :: "string \<Rightarrow> string \<Rightarrow> (string \<times> string) + tun_device" where
  \<comment> \<open>\<open>Open\<close> on other systems; the error names the system\<close>
  "open_tun_unsupported goos name = Inl (''TUN devices are not supported on '', goos)"

text \<open>
  The methods of a device pass on to its file; what the file does is an argument.
\<close>

definition tun_name :: "tun_device \<Rightarrow> string" where "tun_name d = td_name d"

definition tun_read :: "(int \<Rightarrow> nat \<Rightarrow> 'r) \<Rightarrow> tun_device \<Rightarrow> nat \<Rightarrow> 'r" where
  \<comment> \<open>into a buffer of the given length\<close>
  "tun_read file_read d len = file_read (td_file d) len"

definition tun_write :: "(int \<Rightarrow> bytes \<Rightarrow> 'r) \<Rightarrow> tun_device \<Rightarrow> bytes \<Rightarrow> 'r" where
  "tun_write file_write d packet = file_write (td_file d) packet"

definition tun_close :: "(int \<Rightarrow> 'r) \<Rightarrow> tun_device \<Rightarrow> 'r" where
  "tun_close file_close d = file_close (td_file d)"

lemma opened_then_closed:
  \<comment> \<open>closing an opened device closes the descriptor that \<open>Open\<close> left open\<close>
  "open_tun ue name = (Inr d, tr) \<Longrightarrow>
   tr @ tun_close (\<lambda>fd. [FdClose fd]) d = [FdOpen (td_file d), FdClose (td_file d)]"
  by (auto simp: open_tun_def tun_close_def Let_def split: sum.splits if_splits)

section \<open>Properties\<close>

text \<open>
  A device name is normalised once and for all: the result is not empty, has no white
  space at either end, and normalising it again changes nothing.
\<close>
theorem device_name_normal_form:
  "normalize_device_name name \<noteq> '''' \<and>
   \<not> starts_with_any space_runes (normalize_device_name name) \<and>
   \<not> starts_with_any (map rev space_runes) (rev (normalize_device_name name)) \<and>
   normalize_device_name (normalize_device_name name) = normalize_device_name name"
proof -
  have d: "\<not> starts_with_any space_runes DefaultDeviceName"
    "\<not> starts_with_any (map rev space_runes) (rev DefaultDeviceName)"
    by (simp_all add: starts_with_any_def space_runes_def DefaultDeviceName_def bytes_string_def
        upt_conv_Cons char_of_def)
  let ?n = "normalize_device_name name"
  have n: "?n \<noteq> ''''" "\<not> starts_with_any space_runes ?n"
    "\<not> starts_with_any (map rev space_runes) (rev ?n)"
    using d trim_space_clean [of name] by (simp_all add: normalize_device_name_def Let_def DefaultDeviceName_def)
  then have "normalize_device_name ?n = ?n"
    using trim_space_id [OF n(2,3)] unfolding normalize_device_name_def [of ?n] by (simp add: Let_def)
  with n show ?thesis by blast
qed

text \<open>
  \<open>Open\<close> leaks no descriptor: when it fails, every descriptor it opened was closed;
  when it succeeds, the device holds the one descriptor it opened, asked for as a TUN
  interface without packet information.
\<close>
theorem open_tun_leaks_nothing:
  assumes "open_tun ue name = (r, tr)"
  shows "(case r of
     Inl err \<Rightarrow> tr = [] \<or> (\<exists>fd. tr = [FdOpen fd, FdClose fd])
   | Inr d \<Rightarrow> tr = [FdOpen (td_file d)] \<and> 0 \<le> td_file d \<and>
       (\<exists>req req'. new_ifreq ue (normalize_device_name name) = Inr req \<and>
          ioctl_ifreq ue (td_file d) (req\<lparr>ifr_flags := 0x1001\<rparr>) = Inr req' \<and> td_name d = ifr_name req'))"
  using assms
  by (auto simp: open_tun_def Let_def IFF_TUN_def IFF_NO_PI_def split: sum.splits if_splits)

definition plain_unix :: unix_env where
  \<comment> \<open>for the concrete instances: every call succeeds\<close>
  "plain_unix = \<lparr>new_ifreq = (\<lambda>name. Inr \<lparr>ifr_name = name, ifr_flags = 0\<rparr>), unix_open = (\<lambda>_. Inr 3),
     ioctl_ifreq = (\<lambda>_ req. Inr req)\<rparr>"

theorem open_tun_leaks_nothing_witness:
  "\<exists>name. snd (open_tun plain_unix ''tun10'') = [FdOpen 3] \<and> fst (open_tun plain_unix ''tun10'') = Inr \<lparr>td_file = 3, td_name = name\<rparr>"
proof -
  obtain name where r: "fst (open_tun plain_unix ''tun10'') = Inr \<lparr>td_file = 3, td_name = name\<rparr>"
    by (simp add: open_tun_def plain_unix_def Let_def)
  with open_tun_leaks_nothing [OF surjective_pairing, of plain_unix "''tun10''"] show ?thesis by auto
qed

end
