(* ===== verification/Transport.thy ===== *)
theory Transport
  imports Stats Policy Framing Device_Errors Backoff Tun_Device
begin

text \<open>
  The world the goroutines of \<open>internal/quictransport\<close> act on: QUIC streams and
  connections, the TUN device, timers, the clock and the context.  None of it is code of
  the repository, so what it answers is a parameter, the record \<open>env\<close>: every answer may
  depend on the whole history of events so far.  The history is part of the state, next
  to the shared counters; each component extends \<open>io_state\<close> by its own fields.

  An operation that talks to the world appends its event.  Logging is left out.
\<close>

section \<open>Events, environment, state\<close>

datatype io_event =
    DeviceFd fd_event              \<comment> \<open>a system call of \<open>tun.Open\<close>\<close>
  | DeviceRead
  | DeviceWrite bytes "ext_error option"
  | DeviceClose
  | StreamRead nat
  | StreamWrite nat bytes "ext_error option"
  | StreamDeadline nat "int option" "ext_error option"  \<comment> \<open>\<open>None\<close> clears it\<close>
  | StreamClose nat
  | ConnClose nat
  | Listen int
  | Accept int
  | ListenerClose int
  | Dial int
  | OpenStream nat
  | Now int
  | Slept duration bool

record env =
  ctx_done :: "io_event list \<Rightarrow> bool"
  clock :: "io_event list \<Rightarrow> int"
  timer_fires :: "io_event list \<Rightarrow> duration \<Rightarrow> bool"
  stream_write :: "io_event list \<Rightarrow> nat \<Rightarrow> bytes \<Rightarrow> ext_error option"
  device_write :: "io_event list \<Rightarrow> bytes \<Rightarrow> ext_error option"
  dial_addr :: "io_event list \<Rightarrow> string \<Rightarrow> ext_error + nat"
  open_stream :: "io_event list \<Rightarrow> nat \<Rightarrow> ext_error + nat"
  set_deadline :: "io_event list \<Rightarrow> nat \<Rightarrow> int option \<Rightarrow> ext_error option"
record io_state =
  io_trace :: "io_event list"
  io_ctrs :: counters

definition emit :: "io_event \<Rightarrow> 'z io_state_scheme \<Rightarrow> 'z io_state_scheme" where
  "emit e s = s\<lparr>io_trace := io_trace s @ [e]\<rparr>"

definition emit_fds :: "fd_event list \<Rightarrow> 'z io_state_scheme \<Rightarrow> 'z io_state_scheme" where
  "emit_fds es s = s\<lparr>io_trace := io_trace s @ map DeviceFd es\<rparr>"

definition count_op :: "(counters \<Rightarrow> counters) \<Rightarrow> 'z io_state_scheme \<Rightarrow> 'z io_state_scheme" where
  "count_op f s = s\<lparr>io_ctrs := f (io_ctrs s)\<rparr>"

definition is_done :: "env \<Rightarrow> 'z io_state_scheme \<Rightarrow> bool" where
  \<comment> \<open>\<open>ctx.Err() != nil\<close>\<close>
  "is_done env s = ctx_done env (io_trace s)"

definition go_now :: "env \<Rightarrow> 'z io_state_scheme \<Rightarrow> int \<times> 'z io_state_scheme" where
  "go_now env s = (let t = clock env (io_trace s) in (t, emit (Now t) s))"

definition sleep_context :: "env \<Rightarrow> duration \<Rightarrow> 'z io_state_scheme \<Rightarrow> bool \<times> 'z io_state_scheme" where
  \<comment> \<open>whether the timer fires before the context ends\<close>
  "sleep_context env d s =
     (let fired = timer_fires env (io_trace s) d in (fired, emit (Slept d fired) s))"

definition stream_writer ::
  "env \<Rightarrow> nat \<Rightarrow> io_event list \<Rightarrow> bytes \<Rightarrow> io_event list \<times> ext_error option" where
  "stream_writer env stream tr bs =
     (let err = stream_write env tr stream bs in (tr @ [StreamWrite stream bs err], err))"

definition write_frame_to ::
  "env \<Rightarrow> nat \<Rightarrow> bytes \<Rightarrow> 'z io_state_scheme \<Rightarrow> 'z io_state_scheme \<times> frame_error option" where
  \<comment> \<open>\<open>WriteFrame(stream, packet)\<close>\<close>
  "write_frame_to env stream packet s =
     (case write_frame (stream_writer env stream) (io_trace s) packet of
        (tr, err) \<Rightarrow> (s\<lparr>io_trace := tr\<rparr>, err))"

definition set_stream_deadline ::
  "env \<Rightarrow> nat \<Rightarrow> int option \<Rightarrow> 'z io_state_scheme \<Rightarrow> 'z io_state_scheme \<times> ext_error option" where
  \<comment> \<open>\<open>stream.SetDeadline(t)\<close>; \<open>None\<close> is the zero time, which clears the deadline\<close>
  "set_stream_deadline env stream t s =
     (let err = set_deadline env (io_trace s) stream t in (emit (StreamDeadline stream t err) s, err))"

definition write_device ::
  "env \<Rightarrow> bytes \<Rightarrow> 'z io_state_scheme \<Rightarrow> 'z io_state_scheme \<times> ext_error option" where
  "write_device env packet s =
     (let err = device_write env (io_trace s) packet in (emit (DeviceWrite packet err) s, err))"

lemmas io_defs = emit_def count_op_def is_done_def go_now_def sleep_context_def write_device_def

lemma emit_simps [simp]:
  "io_trace (emit e s) = io_trace s @ [e]" "io_ctrs (emit e s) = io_ctrs s"
  "io_state.more (emit e s) = io_state.more s"
  by (simp_all add: emit_def)

lemma emit_fds_simps [simp]:
  "io_trace (emit_fds es s) = io_trace s @ map DeviceFd es" "io_ctrs (emit_fds es s) = io_ctrs s"
  "io_state.more (emit_fds es s) = io_state.more s" "emit_fds [] s = s"
  by (simp_all add: emit_fds_def)

lemma count_simps [simp]:
  "io_ctrs (count_op f s) = f (io_ctrs s)" "io_trace (count_op f s) = io_trace s"
  "io_state.more (count_op f s) = io_state.more s"
  by (simp_all add: count_op_def)

section \<open>The bytes on a stream\<close>

fun wire_event :: "nat \<Rightarrow> io_event \<Rightarrow> bytes" where
  "wire_event st (StreamWrite st' bs None) = (if st' = st then bs else [])"
| "wire_event st _ = []"

definition wire :: "nat \<Rightarrow> io_event list \<Rightarrow> bytes" where
  \<comment> \<open>what the writes that succeeded put on the stream; the part that a failing write may put
      there as well is in the theory of the frame writer\<close>
  "wire st tr = concat (map (wire_event st) tr)"

lemma wire_simps [simp]:
  "wire st [] = []" "wire st (e # tr) = wire_event st e @ wire st tr"
  "wire st (tr @ tr') = wire st tr @ wire st tr'"
  by (simp_all add: wire_def)

fun device_event :: "io_event \<Rightarrow> bytes list" where
  "device_event (DeviceWrite p None) = [p]"
| "device_event _ = []"

definition delivered :: "io_event list \<Rightarrow> bytes list" where
  \<comment> \<open>the packets written to the TUN device\<close>
  "delivered tr = concat (map device_event tr)"

lemma delivered_simps [simp]:
  "delivered [] = []" "delivered (e # tr) = device_event e @ delivered tr"
  "delivered (tr @ tr') = delivered tr @ delivered tr'"
  by (simp_all add: delivered_def)

fun silent :: "io_event \<Rightarrow> bool" where
  \<comment> \<open>an event that moves no packet data\<close>
  "silent (StreamWrite st bs e) = False"
| "silent (DeviceWrite p e) = False"
| "silent _ = True"

lemma silent_nothing:
  "list_all silent tr \<Longrightarrow> wire st tr = [] \<and> delivered tr = [] \<and> StreamWrite st' bs e \<notin> set tr"
proof (induction tr)
  case (Cons x tr)
  then show ?case by (cases x) auto
qed simp

definition new_events :: "'z io_state_scheme \<Rightarrow> 'z io_state_scheme \<Rightarrow> io_event list" where
  "new_events s s' = drop (length (io_trace s)) (io_trace s')"

definition extends :: "'z io_state_scheme \<Rightarrow> 'z io_state_scheme \<Rightarrow> bool" where
  "extends s s' \<longleftrightarrow> (\<exists>tr. io_trace s' = io_trace s @ tr)"

lemma extends_new: "extends s s' \<Longrightarrow> io_trace s' = io_trace s @ new_events s s'"
  by (auto simp: extends_def new_events_def)

lemma extends_refl [simp]: "extends s s"
  by (simp add: extends_def)

lemma extends_trans: "extends s s' \<Longrightarrow> extends s' s'' \<Longrightarrow> extends s s''"
  by (auto simp: extends_def)

lemma extends_emit [simp]: "extends s (emit e s)"
  by (simp add: extends_def)

lemma extends_count [simp]: "extends s (count_op f s)"
  by (simp add: extends_def)

section \<open>Writing one frame to a stream\<close>

lemma write_frame_to_cases:
  assumes "frame_ok p"
  shows "\<exists>e1 e2. write_frame_to env st p s =
     (case e1 of
        Some err \<Rightarrow> (emit (StreamWrite st (be32 (of_nat (length p))) e1) s, Some (FrameIO err))
      | None \<Rightarrow> (emit (StreamWrite st p e2) (emit (StreamWrite st (be32 (of_nat (length p))) None) s),
                 map_option FrameIO e2))"
proof -
  let ?h = "be32 (of_nat (length p))"
  define e1 where "e1 = stream_write env (io_trace s) st ?h"
  define e2 where "e2 = stream_write env (io_trace s @ [StreamWrite st ?h None]) st p"
  have ok: "p \<noteq> []" "\<not> MaxFrameSize < length p" using assms by (auto simp: frame_ok_def)
  show ?thesis
    by (intro exI [of _ e1] exI [of _ e2], cases e1)
      (simp_all add: write_frame_to_def write_frame_eq ok stream_writer_def Let_def emit_def
        e1_def [symmetric] e2_def [symmetric])
qed

lemma write_frame_to_ok:
  assumes "frame_ok p" "write_frame_to env st p s = (s', None)"
  shows "io_trace s' = io_trace s @ [StreamWrite st (be32 (of_nat (length p))) None, StreamWrite st p None]"
    "io_ctrs s' = io_ctrs s" "io_state.more s' = io_state.more s"
    "wire st (io_trace s') = wire st (io_trace s) @ frame_bytes p"
  using write_frame_to_cases [OF assms(1), of env st s] assms(2)
  by (auto simp: frame_bytes_def split: option.splits)

lemma write_frame_to_frame:
  assumes "write_frame_to env st p s = (s', err)"
  shows "extends s s'" "io_ctrs s' = io_ctrs s" "io_state.more s' = io_state.more s"
    "st' \<noteq> st \<Longrightarrow> wire st' (io_trace s') = wire st' (io_trace s)"
    "delivered (io_trace s') = delivered (io_trace s)"
proof -
  have "extends s s' \<and> io_ctrs s' = io_ctrs s \<and> io_state.more s' = io_state.more s \<and>
    (st' \<noteq> st \<longrightarrow> wire st' (io_trace s') = wire st' (io_trace s)) \<and>
    delivered (io_trace s') = delivered (io_trace s)"
  proof (cases "frame_ok p")
    case True
    have w: "wire_event st' (StreamWrite st bs e) = []" if "st' \<noteq> st" for bs e
      using that by (cases e) simp_all
    from write_frame_to_cases [OF True, of env st s] assms w show ?thesis
      by (auto simp: extends_def split: option.splits)
  next
    case False
    then show ?thesis using assms
      by (auto simp: write_frame_to_def write_frame_eq frame_ok_def split: if_splits)
  qed
  then show "extends s s'" "io_ctrs s' = io_ctrs s" "io_state.more s' = io_state.more s"
    "st' \<noteq> st \<Longrightarrow> wire st' (io_trace s') = wire st' (io_trace s)"
    "delivered (io_trace s') = delivered (io_trace s)" by simp_all
qed

fun closing_event :: "io_event \<Rightarrow> nat list" where
  "closing_event (StreamClose st) = [st]"
| "closing_event _ = []"

definition closed_streams :: "io_event list \<Rightarrow> nat list" where
  \<comment> \<open>the streams closed so far, the latest first\<close>
  "closed_streams tr = rev (concat (map closing_event tr))"

lemma closed_streams_simps [simp]:
  "closed_streams [] = []"
  "closed_streams (tr @ tr') = closed_streams tr' @ closed_streams tr"
  "closed_streams (e # tr) = closed_streams tr @ closing_event e"
  by (simp_all add: closed_streams_def) (cases e; simp)

lemma write_frame_to_closes:
  "frame_ok p \<Longrightarrow> write_frame_to env st p s = (s', err) \<Longrightarrow>
   closed_streams (io_trace s') = closed_streams (io_trace s)"
  using write_frame_to_cases [of p env st s] by (auto split: option.splits)

fun event_offers :: "bytes \<Rightarrow> io_event \<Rightarrow> bool" where
  \<comment> \<open>a write offers a stream nothing but a part of the frame of this packet\<close>
  "event_offers p (StreamWrite st bs e) = (bs = be32 (of_nat (length p)) \<or> bs = p)"
| "event_offers p _ = True"

lemma silent_offers: "list_all silent tr \<Longrightarrow> list_all (event_offers p) tr"
proof (induction tr)
  case (Cons x tr)
  then show ?case by (cases x) auto
qed simp

lemma write_frame_to_events:
  assumes "frame_ok p" "write_frame_to env st p s = (s', err)"
  shows "\<exists>tr. io_trace s' = io_trace s @ tr \<and> list_all (event_offers p) tr"
  using write_frame_to_cases [OF assms(1), of env st s] assms(2)
  by (auto split: option.splits)

definition calm_env :: env where
  \<comment> \<open>a world for the concrete instances: every operation succeeds, nothing ends\<close>
  "calm_env = \<lparr>ctx_done = (\<lambda>tr. False), clock = (\<lambda>tr. 1), timer_fires = (\<lambda>tr d. True),
     stream_write = (\<lambda>tr st bs. None), device_write = (\<lambda>tr p. None),
     dial_addr = (\<lambda>tr a. Inr 1), open_stream = (\<lambda>tr c. Inr 2),
     set_deadline = (\<lambda>tr st t. None)\<rparr>"

end
