(* ===== verification/Tun_Pump.thy ===== *)
theory Tun_Pump
  imports Transport "HOL-Library.Sublist"
begin

text \<open>
  The two loops that client and server run around the TUN device, written once.
  \<open>device_pump\<close> is the loop over \<open>device.Read\<close> of \<open>sendTUNPackets\<close> (client.go) and of
  \<open>forwardDevicePackets\<close> (server.go), which the source has twice in the same words; what
  they do with an accepted packet is the argument \<open>forward\<close>.  \<open>frame_pump\<close> is the loop
  over \<open>ReadFrame\<close> of \<open>receivePathPackets\<close> and of \<open>handleTUNQUICConnection\<close>, which
  differ in the read errors they do not report.

  The device loop runs over the results of the successive reads; at the end of the list
  the goroutine is blocked in the next read.
\<close>

section \<open>From the device\<close>

datatype read_result = ReadData bytes | ReadError ext_error

datatype pump_end = Blocked | Stopped | Failed ext_error

fun device_pump ::
  "env \<Rightarrow> packet_policy \<Rightarrow> (bytes \<Rightarrow> 'z io_state_scheme \<Rightarrow> 'z io_state_scheme) \<Rightarrow> nat \<Rightarrow>
   read_result list \<Rightarrow> 'z io_state_scheme \<Rightarrow> 'z io_state_scheme \<times> pump_end" where
  "device_pump env pol forward retries [] s = (s, Blocked)"
| "device_pump env pol forward retries (ReadError err # reads) s =
     (let s = emit DeviceRead s in
      if is_closed_packet_device_error (is_done env s) err then (s, Stopped)
      else if is_retryable_packet_device_read_error (Some err) \<and> retries < maxRetryablePacketDeviceReads
      then (case sleep_context env retryablePacketDeviceReadDelay (count_op add_error s) of
              (slept, s) \<Rightarrow>
                if slept then device_pump env pol forward (Suc retries) reads s else (s, Stopped))
      else (count_op add_error s, Failed err))"
| "device_pump env pol forward retries (ReadData bs # reads) s =
     (let s = emit DeviceRead s; packet = take MaxFrameSize bs in
      if packet = [] then device_pump env pol forward 0 reads s
      else if \<not> allow pol packet then device_pump env pol forward 0 reads (count_op add_drop s)
      else device_pump env pol forward 0 reads (forward packet s))"

fun read_packets :: "read_result list \<Rightarrow> bytes list" where
  \<comment> \<open>the packets of the reads, as the buffer of \<open>MaxFrameSize\<close> bytes takes them\<close>
  "read_packets [] = []"
| "read_packets (ReadError err # reads) = read_packets reads"
| "read_packets (ReadData bs # reads) =
     (if take MaxFrameSize bs = [] then read_packets reads
      else take MaxFrameSize bs # read_packets reads)"

lemma read_packets_ok: "p \<in> set (read_packets reads) \<Longrightarrow> frame_ok p"
  by (induction reads rule: read_packets.induct) (auto simp: frame_ok_def split: if_splits)

section \<open>The contract of a forwarder\<close>

text \<open>
  What the device loop relies on: a forwarder appends events only, puts either nothing or
  one complete frame on every stream that stays active, offers a stream nothing but the
  frame of the packet, and counts the packet as sent or as dropped, once.
\<close>

locale packet_forwarder =
  fixes forward :: "bytes \<Rightarrow> 'z io_state_scheme \<Rightarrow> 'z io_state_scheme"
    and inv :: "'z io_state_scheme \<Rightarrow> bool"
    and active :: "'z io_state_scheme \<Rightarrow> nat set"
  assumes inv_io: "io_state.more s' = io_state.more s \<Longrightarrow> inv s' = inv s"
    and active_io: "io_state.more s' = io_state.more s \<Longrightarrow> active s' = active s"
    and fwd_inv: "inv s \<Longrightarrow> inv (forward p s)"
    and fwd_extends: "inv s \<Longrightarrow> extends s (forward p s)"
    and fwd_active: "inv s \<Longrightarrow> active (forward p s) \<subseteq> active s"
    and fwd_wire: "inv s \<Longrightarrow> frame_ok p \<Longrightarrow> st \<in> active (forward p s) \<Longrightarrow>
      wire st (io_trace (forward p s)) \<in> {wire st (io_trace s), wire st (io_trace s) @ frame_bytes p}"
    and fwd_writes: "inv s \<Longrightarrow> frame_ok p \<Longrightarrow> StreamWrite st bs e \<in> set (new_events s (forward p s)) \<Longrightarrow>
      bs \<in> {be32 (of_nat (length p)), p}"
    and fwd_handled: "inv s \<Longrightarrow> handled (io_ctrs (forward p s)) = handled (io_ctrs s) + 1"
    and fwd_rx: "inv s \<Longrightarrow> rxPackets (io_ctrs (forward p s)) = rxPackets (io_ctrs s)"
begin

lemma inv_steps [simp]: "inv (emit e s) = inv s" "inv (count_op f s) = inv s"
  by (rule inv_io, simp)+

lemma active_steps [simp]: "active (emit e s) = active s" "active (count_op f s) = active s"
  by (rule active_io, simp)+

lemma pump_induct [consumes 1, case_names nil failed closed retry empty denied forwarded]:
  assumes inv: "inv s"
    and "\<And>n s. inv s \<Longrightarrow> Q n [] s (s, Blocked)"
    and "\<And>n e reads s. inv s \<Longrightarrow> Q n (ReadError e # reads) s (count_op add_error (emit DeviceRead s), Failed e)"
    and "\<And>n e reads s s'. inv s \<Longrightarrow> s' = emit DeviceRead s \<or>
        s' = emit (Slept retryablePacketDeviceReadDelay False) (count_op add_error (emit DeviceRead s)) \<Longrightarrow>
      Q n (ReadError e # reads) s (s', Stopped)"
    and "\<And>n e reads s s' r. inv s \<Longrightarrow>
      s' = emit (Slept retryablePacketDeviceReadDelay True) (count_op add_error (emit DeviceRead s)) \<Longrightarrow>
      Q (Suc n) reads s' r \<Longrightarrow> Q n (ReadError e # reads) s r"
    and "\<And>n bs reads s r. inv s \<Longrightarrow> take MaxFrameSize bs = [] \<Longrightarrow>
      Q 0 reads (emit DeviceRead s) r \<Longrightarrow> Q n (ReadData bs # reads) s r"
    and "\<And>n bs p reads s r. inv s \<Longrightarrow> p = take MaxFrameSize bs \<Longrightarrow> frame_ok p \<Longrightarrow> \<not> allow pol p \<Longrightarrow>
      Q 0 reads (count_op add_drop (emit DeviceRead s)) r \<Longrightarrow> Q n (ReadData bs # reads) s r"
    and "\<And>n bs p reads s r. inv s \<Longrightarrow> p = take MaxFrameSize bs \<Longrightarrow> frame_ok p \<Longrightarrow> allow pol p \<Longrightarrow>
      Q 0 reads (forward p (emit DeviceRead s)) r \<Longrightarrow> Q n (ReadData bs # reads) s r"
  shows "Q n reads s (device_pump env pol forward n reads s)"
  using inv
proof (induction reads arbitrary: n s)
  case (Cons x reads)
  show ?case
  proof (cases x)
    case (ReadData bs)
    have ok: "frame_ok (take MaxFrameSize bs)" if "take MaxFrameSize bs \<noteq> []"
      using that by (auto simp: frame_ok_def)
    show ?thesis
      using Cons assms(6-8) [OF Cons.prems] ok unfolding ReadData
      by (simp add: Let_def fwd_inv del: take_eq_Nil)
  next
    case (ReadError e)
    show ?thesis
      using Cons assms(3-5) [OF Cons.prems] unfolding ReadError
      by (auto simp: Let_def sleep_context_def)
  qed
qed (use assms(2) in simp)

lemma pump_rel:
  assumes "inv s" "\<And>s. R s s" "\<And>s s' s''. R s s' \<Longrightarrow> R s' s'' \<Longrightarrow> R s s''"
    and io: "\<And>s. R s (emit DeviceRead s)" "\<And>s b. R s (emit (Slept retryablePacketDeviceReadDelay b) s)"
      "\<And>s. R s (count_op add_error s)" "\<And>s. R s (count_op add_drop s)"
    and fwd: "\<And>s p. inv s \<Longrightarrow> frame_ok p \<Longrightarrow> allow pol p \<Longrightarrow> R s (forward p s)"
  shows "R s (fst (device_pump env pol forward n reads s))"
  using assms(1)
proof (induction rule: pump_induct [where n = n and reads = reads and env = env and pol = pol])
  case (forwarded n bs p reads s r)
  then have "R (emit DeviceRead s) (forward p (emit DeviceRead s))" using fwd by simp
  with forwarded show ?case using assms(3) io(1) by blast
next
  case (closed n e reads s s')
  then show ?case using assms(3) io by (metis fst_conv)
qed (use assms(2,3) io in \<open>metis fst_conv\<close>)+

lemma pump_inv:
  assumes "inv s"
  shows "inv (fst (device_pump env pol forward n reads s))"
  using pump_rel [OF assms, where R = "\<lambda>s s'. inv s \<longrightarrow> inv s'"] assms by (simp add: fwd_inv)

lemma pump_extends:
  assumes "inv s"
  shows "extends s (fst (device_pump env pol forward n reads s))"
  by (rule pump_rel [OF assms]) (auto intro: extends_trans fwd_extends)

lemma pump_rx:
  assumes "inv s"
  shows "rxPackets (io_ctrs (fst (device_pump env pol forward n reads s))) = rxPackets (io_ctrs s)"
  by (rule sym, rule pump_rel [OF assms]) (auto simp: fwd_rx)

lemma pump_active:
  assumes "inv s"
  shows "active (fst (device_pump env pol forward n reads s)) \<subseteq> active s"
  by (rule pump_rel [OF assms, where R = "\<lambda>s s'. active s' \<subseteq> active s"]) (use fwd_active in auto)

lemma pump_handled:
  assumes "inv s" "snd (device_pump env pol forward n reads s) = Blocked"
  shows "handled (io_ctrs (fst (device_pump env pol forward n reads s))) =
     handled (io_ctrs s) + of_nat (length (read_packets reads))"
  using assms
  by (induction rule: pump_induct [where n = n and reads = reads and env = env and pol = pol])
    (auto simp: fwd_handled frame_ok_def)

lemma pump_wire:
  assumes "inv s" "st \<in> active (fst (device_pump env pol forward n reads s))"
  shows "\<exists>ps. subseq ps (filter (allow pol) (read_packets reads)) \<and>
    wire st (io_trace (fst (device_pump env pol forward n reads s))) =
      wire st (io_trace s) @ concat (map frame_bytes ps)"
proof -
  let ?Q = "\<lambda>n reads s r. st \<in> active (fst r) \<longrightarrow> st \<in> active s \<and>
    (\<exists>ps. subseq ps (filter (allow pol) (read_packets reads)) \<and>
      wire st (io_trace (fst r)) = wire st (io_trace s) @ concat (map frame_bytes ps))"
  have "?Q n reads s (device_pump env pol forward n reads s)"
    using assms(1)
  proof (induction rule: pump_induct [where n = n and reads = reads and env = env and pol = pol])
    case (forwarded n bs p reads s r)
    show ?case
    proof (intro impI)
      assume st: "st \<in> active (fst r)"
      with forwarded obtain ps where ps: "st \<in> active (forward p (emit DeviceRead s))"
        "subseq ps (filter (allow pol) (read_packets reads))"
        "wire st (io_trace (fst r)) = wire st (io_trace (forward p (emit DeviceRead s))) @ concat (map frame_bytes ps)"
        by auto
      then have act: "st \<in> active s" using fwd_active [of "emit DeviceRead s" p] forwarded(1) by auto
      have pk: "filter (allow pol) (read_packets (ReadData bs # reads)) = p # filter (allow pol) (read_packets reads)"
        using forwarded(2-4) by (auto simp: frame_ok_def)
      consider "wire st (io_trace (forward p (emit DeviceRead s))) = wire st (io_trace s)"
        | "wire st (io_trace (forward p (emit DeviceRead s))) = wire st (io_trace s) @ frame_bytes p"
        using fwd_wire [of "emit DeviceRead s" p st] forwarded(1,3) ps(1) by auto
      then show "st \<in> active s \<and> (\<exists>ps. subseq ps (filter (allow pol) (read_packets (ReadData bs # reads))) \<and>
          wire st (io_trace (fst r)) = wire st (io_trace s) @ concat (map frame_bytes ps))"
      proof cases
        case 1
        with ps act pk show ?thesis by (intro conjI exI [of _ ps]) auto
      next
        case 2
        with ps act pk show ?thesis by (intro conjI exI [of _ "p # ps"]) auto
      qed
    qed
  qed (auto simp: frame_ok_def)
  with assms(2) show ?thesis by blast
qed

lemma pump_writes:
  assumes "inv s"
    "StreamWrite st bs e \<in> set (new_events s (fst (device_pump env pol forward n reads s)))"
  shows "\<exists>p. frame_ok p \<and> allow pol p \<and> bs \<in> {be32 (of_nat (length p)), p}"
proof -
  let ?R = "\<lambda>s s'. extends s s' \<and> (\<forall>st bs e. StreamWrite st bs e \<in> set (new_events s s') \<longrightarrow>
    (\<exists>p. frame_ok p \<and> allow pol p \<and> bs \<in> {be32 (of_nat (length p)), p}))"
  have new: "set (new_events s s'') = set (new_events s s') \<union> set (new_events s' s'')"
    if "extends s s'" "extends s' s''" for s s' s'' :: "'z io_state_scheme"
    using that by (auto simp: extends_def new_events_def)
  have "?R s (fst (device_pump env pol forward n reads s))"
  proof (rule pump_rel [OF assms(1)], goal_cases)
    case (2 s s' s'')
    then have "extends s s''" by (blast intro: extends_trans)
    with 2 new [of s s' s''] show ?case by (metis UnE)
  next
    case (7 s p)
    then show ?case using fwd_extends [of s p] fwd_writes [of s p] by blast
  qed (auto simp: new_events_def)
  with assms(2) show ?thesis by blast
qed

end

section \<open>To the device\<close>

function frame_pump ::
  "env \<Rightarrow> packet_policy \<Rightarrow> (bool \<Rightarrow> frame_error \<Rightarrow> bool) \<Rightarrow> nat \<Rightarrow> reader \<Rightarrow>
   'z io_state_scheme \<Rightarrow> 'z io_state_scheme \<times> pump_end" where
  "frame_pump env pol quiet stream r s =
     (case read_frame r of
        (Inl err, r') \<Rightarrow>
          let s = emit (StreamRead stream) s
          in if quiet (is_done env s) err then (s, Stopped) else (count_op add_error s, Stopped)
      | (Inr packet, r') \<Rightarrow>
          let s = emit (StreamRead stream) s
          in if \<not> allow pol packet then frame_pump env pol quiet stream r' (count_op add_drop s)
             else case write_device env packet s of
                    (s, None) \<Rightarrow>
                      frame_pump env pol quiet stream r' (count_op (add_rx (int (length packet))) s)
                  | (s, Some err) \<Rightarrow>
                      if is_done env s \<or> is_closed err then (s, Stopped)
                      else (count_op add_error s, Failed err))"
  by pat_completeness auto
termination
  by (relation "measure (\<lambda>(env, pol, quiet, stream, r, s). length (content r))")
    (auto intro: frames.dec_shrinks dest: sym)

declare frame_pump.simps [simp del]

lemma frame_pump_induct [case_names finished denied sent refused]:
  assumes "\<And>r s s' err r'. read_frame r = (Inl err, r') \<Longrightarrow>
      s' = (if quiet (is_done env (emit (StreamRead st) s)) err then emit (StreamRead st) s
            else count_op add_error (emit (StreamRead st) s)) \<Longrightarrow> Q r s (s', Stopped)"
    and "\<And>r s p r' res. read_frame r = (Inr p, r') \<Longrightarrow> \<not> allow pol p \<Longrightarrow>
      Q r' (count_op add_drop (emit (StreamRead st) s)) res \<Longrightarrow> Q r s res"
    and "\<And>r s p r' res. read_frame r = (Inr p, r') \<Longrightarrow> allow pol p \<Longrightarrow>
      Q r' (count_op (add_rx (int (length p))) (emit (DeviceWrite p None) (emit (StreamRead st) s))) res \<Longrightarrow>
      Q r s res"
    and "\<And>r s p r' e s' res. read_frame r = (Inr p, r') \<Longrightarrow> allow pol p \<Longrightarrow>
      device_write env (io_trace (emit (StreamRead st) s)) p = Some e \<Longrightarrow>
      s' = emit (DeviceWrite p (Some e)) (emit (StreamRead st) s) \<Longrightarrow>
      res = (s', Stopped) \<or> res = (count_op add_error s', Failed e) \<Longrightarrow> Q r s res"
  shows "Q r s (frame_pump env pol quiet st r s)"
proof (induction "length (content r)" arbitrary: r s rule: less_induct)
  case less
  obtain x r' where rd: "read_frame r = (x, r')" by fastforce
  show ?case
  proof (cases x)
    case (Inl err)
    with rd assms(1) [of r err r' _ s] show ?thesis
      by (simp add: frame_pump.simps [of env pol quiet st r] Let_def split: if_splits)
  next
    case (Inr p)
    with rd have rd: "read_frame r = (Inr p, r')" by simp
    then have less': "length (content r') < length (content r)" by (rule frames.dec_shrinks)
    note IH = less.hyps [OF less']
    show ?thesis
    proof (cases "allow pol p")
      case False
      with assms(2) [OF rd False] IH show ?thesis
        by (simp add: frame_pump.simps [of env pol quiet st r] rd Let_def)
    next
      case True
      note sent = assms(3) [OF rd True] and refused = assms(4) [OF rd True]
      show ?thesis
      proof (cases "device_write env (io_trace (emit (StreamRead st) s)) p")
        case None
        with sent IH True show ?thesis
          by (simp add: frame_pump.simps [of env pol quiet st r] rd Let_def write_device_def)
      next
        case (Some e)
        with refused [OF Some refl] True show ?thesis
          by (auto simp: frame_pump.simps [of env pol quiet st r] rd Let_def write_device_def)
      qed
    qed
  qed
qed

abbreviation allowed_frames :: "packet_policy \<Rightarrow> reader \<Rightarrow> bytes list" where
  \<comment> \<open>the packets of a stream that the policy lets through\<close>
  "allowed_frames pol r \<equiv> filter (allow pol) (fst (read_frames r))"

text \<open>
  Whatever the device and the context do, the loop hands the device a prefix of the
  allowed packets of the stream, in order, and counts what it handed over as received.
\<close>

lemma frame_pump_general:
  "\<exists>n. delivered (io_trace (fst (frame_pump env pol quiet st r s))) =
        delivered (io_trace s) @ take n (allowed_frames pol r) \<and>
      rxPackets (io_ctrs (fst (frame_pump env pol quiet st r s))) = rxPackets (io_ctrs s) +
        of_nat (length (take n (allowed_frames pol r)))"
proof (induction rule: frame_pump_induct [where env = env and pol = pol and quiet = quiet and st = st])
  case (finished r s s' err r')
  then show ?case by (intro exI [of _ 0]) simp
next
  case (denied r s p r' res)
  then show ?case by (simp add: read_frames_step)
next
  case (sent r s p r' res)
  then obtain n where "delivered (io_trace (fst res)) = delivered (io_trace s) @ p # take n (allowed_frames pol r')"
    "rxPackets (io_ctrs (fst res)) = rxPackets (io_ctrs s) + 1 + of_nat (length (take n (allowed_frames pol r')))"
    by (auto simp: add_rx_def)
  with sent(1,2) show ?case
    by (intro exI [of _ "Suc n"]) (simp add: read_frames_step)
next
  case (refused r s p r' e s' res)
  then show ?case by (intro exI [of _ 0]) auto
qed

lemma frame_pump_frame:
  "extends s (fst (frame_pump env pol quiet st r s)) \<and>
   io_state.more (fst (frame_pump env pol quiet st r s)) = io_state.more s \<and>
   wire st' (io_trace (fst (frame_pump env pol quiet st r s))) = wire st' (io_trace s) \<and>
   txPackets (io_ctrs (fst (frame_pump env pol quiet st r s))) = txPackets (io_ctrs s)"
proof (induction rule: frame_pump_induct [where env = env and pol = pol and quiet = quiet and st = st])
  case (finished r s s' err r')
  then show ?case by (auto simp: extends_def counter_defs)
qed (auto simp: extends_def counter_defs)

definition device_accepts :: "env \<Rightarrow> bool" where
  "device_accepts env \<longleftrightarrow> (\<forall>tr p. device_write env tr p = None)"

lemma frame_pump_accepting:
  assumes "device_accepts env"
  shows "snd (frame_pump env pol quiet st r s) = Stopped \<and>
      delivered (io_trace (fst (frame_pump env pol quiet st r s))) =
        delivered (io_trace s) @ allowed_frames pol r \<and>
      rxPackets (io_ctrs (fst (frame_pump env pol quiet st r s))) =
        rxPackets (io_ctrs s) + of_nat (length (allowed_frames pol r)) \<and>
      droppedPackets (io_ctrs (fst (frame_pump env pol quiet st r s))) = droppedPackets (io_ctrs s) +
        of_nat (length (filter (\<lambda>p. \<not> allow pol p) (fst (read_frames r))))"
proof (induction rule: frame_pump_induct [where env = env and pol = pol and quiet = quiet and st = st])
  case (refused r s p r' e s' res)
  with assms show ?case by (simp add: device_accepts_def)
qed (auto simp: read_frames_step counter_defs)

section \<open>Retries of the device read\<close>

abbreviation transient :: "ext_error \<Rightarrow> bool" where
  "transient e \<equiv> is_retryable_packet_device_read_error (Some e) \<and> \<not> is_closed e"

primrec waited :: "nat \<Rightarrow> 'z io_state_scheme \<Rightarrow> 'z io_state_scheme" where
  \<comment> \<open>after so many reads that failed and were waited out\<close>
  "waited 0 s = s"
| "waited (Suc k) s =
     waited k (emit (Slept retryablePacketDeviceReadDelay True) (count_op add_error (emit DeviceRead s)))"

lemma waited_facts:
  "io_trace (waited k s) = io_trace s @ concat (replicate k [DeviceRead, Slept retryablePacketDeviceReadDelay True])"
  "io_ctrs (waited k s) = (add_error ^^ k) (io_ctrs s)" "io_state.more (waited k s) = io_state.more s"
  by (induction k arbitrary: s) (simp_all add: funpow_swap1)

lemma pump_retries:
  assumes "\<forall>e \<in> set es. transient e" "\<forall>tr. \<not> ctx_done env tr" "\<forall>tr d. timer_fires env tr d"
    "n + length es \<le> 100"
  shows "device_pump env pol forward n (map ReadError es @ reads) s =
    device_pump env pol forward (n + length es) reads (waited (length es) s)"
  using assms
  by (induction es arbitrary: n s)
    (simp_all add: Let_def is_closed_packet_device_error_def is_done_def sleep_context_def
      maxRetryablePacketDeviceReads_def)

section \<open>Properties\<close>

text \<open>
  (C33) Transient errors of the TUN device are retried a bounded number of times.  As long as
  the context goes on: up to 100 successive \<open>not pollable\<close> errors are waited out, each with
  one sleep of the retry delay, and are counted; whatever a successful read then returns is
  handled as usual, so an empty read is skipped, a denied packet dropped and an allowed
  packet forwarded; after it, again 100 such errors are waited out, and the next one ends
  the loop with that error.  Nothing else happens.
\<close>

theorem device_read_retries:
  assumes "\<forall>e \<in> set (es @ es'). is_retryable_packet_device_read_error (Some e) \<and> \<not> is_closed e"
    "\<forall>tr. \<not> ctx_done env tr" "\<forall>tr d. timer_fires env tr d" "length es \<le> 100"
    "device_pump env pol forward 0 (map ReadError es @ ReadData bs # map ReadError es') s = (s', fin)"
  shows "\<exists>s1 s2.
    io_trace s1 = io_trace s @
      concat (replicate (length es) [DeviceRead, Slept retryablePacketDeviceReadDelay True]) @ [DeviceRead] \<and>
    io_ctrs s1 = (add_error ^^ length es) (io_ctrs s) \<and> io_state.more s1 = io_state.more s \<and>
    s2 = (let packet = take MaxFrameSize bs
          in if packet = [] then s1 else if allow pol packet then forward packet s1 else count_op add_drop s1) \<and>
    io_trace s' = io_trace s2 @
      concat (replicate (min (length es') 100) [DeviceRead, Slept retryablePacketDeviceReadDelay True]) @
      (if length es' \<le> 100 then [] else [DeviceRead]) \<and>
    io_ctrs s' = (add_error ^^ min (length es') 101) (io_ctrs s2) \<and> io_state.more s' = io_state.more s2 \<and>
    fin = (if length es' \<le> 100 then Blocked else Failed (es' ! 100))"
proof -
  define s1 where "s1 = emit DeviceRead (waited (length es) s)"
  define s2 where "s2 = (let packet = take MaxFrameSize bs
      in if packet = [] then s1 else if allow pol packet then forward packet s1 else count_op add_drop s1)"
  have s1_facts: "io_trace s1 = io_trace s @
      concat (replicate (length es) [DeviceRead, Slept retryablePacketDeviceReadDelay True]) @ [DeviceRead]"
    "io_ctrs s1 = (add_error ^^ length es) (io_ctrs s)" "io_state.more s1 = io_state.more s"
    by (simp_all add: s1_def waited_facts)
  have trans: "\<forall>e \<in> set es. transient e" "\<forall>e \<in> set es'. transient e" using assms(1) by simp_all
  have "device_pump env pol forward 0 (map ReadError es @ ReadData bs # map ReadError es') s =
      device_pump env pol forward (length es) (ReadData bs # map ReadError es') (waited (length es) s)"
    using pump_retries [OF trans(1) assms(2,3), of 0] assms(4) by (simp del: device_pump.simps)
  also have "\<dots> = device_pump env pol forward 0 (map ReadError es') s2"
    by (simp add: s1_def s2_def Let_def del: take_eq_Nil)
  finally have run: "device_pump env pol forward 0 (map ReadError es') s2 = (s', fin)" using assms(5) by simp
  have after: "io_trace s' = io_trace s2 @
      concat (replicate (min (length es') 100) [DeviceRead, Slept retryablePacketDeviceReadDelay True]) @
      (if length es' \<le> 100 then [] else [DeviceRead]) \<and>
    io_ctrs s' = (add_error ^^ min (length es') 101) (io_ctrs s2) \<and> io_state.more s' = io_state.more s2 \<and>
    fin = (if length es' \<le> 100 then Blocked else Failed (es' ! 100))"
  proof (cases "length es' \<le> 100")
    case True
    with pump_retries [OF trans(2) assms(2,3), of 0 pol forward "[]" s2] run
    show ?thesis by (auto simp: waited_facts min_def)
  next
    case False
    define e rest where "e = es' ! 100" and "rest = drop 101 es'"
    have split: "es' = take 100 es' @ e # rest" "length (take 100 es') = 100"
      using False id_take_nth_drop [of 100 es'] by (simp_all add: e_def rest_def)
    have e: "transient e" using trans(2) False by (simp add: e_def)
    have "map ReadError es' = map ReadError (take 100 es') @ ReadError e # map ReadError rest"
      by (subst split(1)) simp
    moreover have "\<forall>e \<in> set (take 100 es'). transient e" using trans(2) by (auto dest: in_set_takeD)
    ultimately have "device_pump env pol forward 100 (ReadError e # map ReadError rest) (waited 100 s2) = (s', fin)"
      using pump_retries [OF _ assms(2,3), of "take 100 es'" 0 pol forward "ReadError e # map ReadError rest" s2] run
      unfolding split(2) by (simp del: device_pump.simps)
    then have "s' = count_op add_error (emit DeviceRead (waited 100 s2))" "fin = Failed e"
      using e assms(2)
      by (simp_all add: Let_def is_closed_packet_device_error_def is_done_def maxRetryablePacketDeviceReads_def)
    moreover have "(add_error ^^ 101) c = add_error ((add_error ^^ 100) c)" for c
      by (simp add: numeral_eq_Suc)
    moreover have "min (length es') 101 = 101" "min (length es') 100 = 100" using False by simp_all
    ultimately show ?thesis using False by (simp add: waited_facts e_def)
  qed
  show ?thesis
    by (rule exI [of _ s1], rule exI [of _ s2]) (intro conjI s1_facts s2_def after [THEN conjunct1]
      after [THEN conjunct2, THEN conjunct1] after [THEN conjunct2, THEN conjunct2, THEN conjunct1]
      after [THEN conjunct2, THEN conjunct2, THEN conjunct2])
qed

theorem device_read_retries_witness:
  \<comment> \<open>two errors, a packet that is forwarded, one error too many\<close>
  "\<exists>tr. device_pump calm_env \<lparr>allowedCIDR = None\<rparr> (\<lambda>p. count_op (add_tx 2)) 0
       (map ReadError (replicate 2 not_pollable) @ ReadData [5, 6] # map ReadError (replicate 101 not_pollable))
       \<lparr>io_trace = [], io_ctrs = zero_counters\<rparr> =
     (\<lparr>io_trace = tr, io_ctrs = (add_error ^^ 101) (add_tx 2 ((add_error ^^ 2) zero_counters))\<rparr>,
      Failed not_pollable) \<and> length tr = 206"
proof -
  have calm: "\<forall>tr. \<not> ctx_done calm_env tr" "\<forall>tr d. timer_fires calm_env tr d"
    by (simp_all add: calm_env_def)
  have trans: "\<forall>e \<in> set (replicate 2 not_pollable @ replicate 101 not_pollable).
      is_retryable_packet_device_read_error (Some e) \<and> \<not> is_closed e"
    using not_pollable_retryable by auto
  have two: "length (replicate 2 not_pollable) \<le> 100" by simp
  let ?run = "device_pump calm_env \<lparr>allowedCIDR = None\<rparr> (\<lambda>p. count_op (add_tx 2)) 0
       (map ReadError (replicate 2 not_pollable) @ ReadData [5, 6] # map ReadError (replicate 101 not_pollable))
       (\<lparr>io_trace = [], io_ctrs = zero_counters\<rparr> :: io_state)"
  let ?w = "[DeviceRead, Slept retryablePacketDeviceReadDelay True]"
  have "io_trace (fst ?run) = concat (replicate 2 ?w) @ DeviceRead # concat (replicate 100 ?w) @ [DeviceRead]"
    and run: "io_ctrs (fst ?run) = (add_error ^^ 101) (add_tx 2 ((add_error ^^ 2) zero_counters))"
      "snd ?run = Failed not_pollable"
    using device_read_retries [OF trans calm two surjective_pairing,
        where pol = "\<lparr>allowedCIDR = None\<rparr>" and forward = "\<lambda>p. count_op (add_tx 2)" and bs = "[5, 6]"
          and s = "\<lparr>io_trace = [], io_ctrs = zero_counters\<rparr> :: io_state"]
    by (auto simp: allow_def MaxFrameSize_def Let_def simp del: funpow.simps)
  moreover have "length (concat (replicate n ?w)) = 2 * n" for n by (induction n) simp_all
  ultimately have "length (io_trace (fst ?run)) = 206" by simp
  moreover have "?run = (\<lparr>io_trace = io_trace (fst ?run),
      io_ctrs = (add_error ^^ 101) (add_tx 2 ((add_error ^^ 2) zero_counters))\<rparr>, Failed not_pollable)"
    by (rule prod_eqI, rule io_state.equality) (simp_all only: run fst_conv snd_conv io_state.simps, simp)
  ultimately show ?thesis by blast
qed

end
