(* ===== verification/Client_Tun.thy ===== *)
theory Client_Tun
  imports Client_Paths Tun_Pump
begin

text \<open>
  The TUN client of \<open>internal/quictransport/client.go\<close>: sending the packets of the TUN
  device over the active paths with failover, and receiving packets from a path.  Each
  function here is one goroutine's code, run while the others do not touch the path set.
\<close>

section \<open>State and helpers\<close>

record client_state = io_state +
  cs_paths :: client_path_set

definition close_client_path :: "client_path \<Rightarrow> 'z io_state_scheme \<Rightarrow> 'z io_state_scheme" where
  "close_client_path path s =
     (let s = emit (StreamClose (cp_stream path)) s
      in case cp_conn path of None \<Rightarrow> s | Some conn \<Rightarrow> emit (ConnClose conn) s)"

fun close_client_paths :: "client_path list \<Rightarrow> 'z io_state_scheme \<Rightarrow> 'z io_state_scheme" where
  "close_client_paths [] s = s"
| "close_client_paths (path # paths) s = close_client_paths paths (close_client_path path s)"

definition client_next_path :: "env \<Rightarrow> client_state \<Rightarrow> client_path option \<times> client_state" where
  \<comment> \<open>\<open>pathSet.nextPath()\<close>, which reads the clock when there is a path\<close>
  "client_next_path env s =
     (if cps_paths (cs_paths s) = [] then (None, s)
      else case go_now env s of
             (now, s) \<Rightarrow> (case cps_next_path (cs_paths s) now of (path, ps) \<Rightarrow> (path, s\<lparr>cs_paths := ps\<rparr>)))"

definition client_mark_failure :: "env \<Rightarrow> int \<Rightarrow> client_state \<Rightarrow> client_state" where
  "client_mark_failure env pid s =
     (case go_now env s of
        (now, s) \<Rightarrow> s\<lparr>cs_paths := snd (cps_mark_failure (cs_paths s) now pid)\<rparr>)"

definition client_mark_success :: "int \<Rightarrow> client_state \<Rightarrow> client_state" where
  "client_mark_success pid s = s\<lparr>cs_paths := cps_mark_success (cs_paths s) pid\<rparr>"

definition remove_and_close :: "nat \<Rightarrow> client_state \<Rightarrow> client_state" where
  \<comment> \<open>\<open>if removed, ok := pathSet.remove(stream); ok { closeClientPath(removed) }\<close>\<close>
  "remove_and_close stream s =
     (case cps_remove (cs_paths s) stream of
        (None, ps) \<Rightarrow> s\<lparr>cs_paths := ps\<rparr>
      | (Some removed, ps) \<Rightarrow> close_client_path removed (s\<lparr>cs_paths := ps\<rparr>))"

definition drop_broken_path :: "env \<Rightarrow> client_path \<Rightarrow> client_state \<Rightarrow> client_state" where
  \<comment> \<open>the error branch of a packet write\<close>
  "drop_broken_path env path s =
     (let s = count_op add_error s;
          s = client_mark_failure env (cp_id path) s
      in remove_and_close (cp_stream path) s)"

lemma close_simps [simp]:
  "io_ctrs (close_client_path p s) = io_ctrs s"
  "io_state.more (close_client_path p s) = io_state.more s"
  "extends s (close_client_path p s)"
  "wire st (io_trace (close_client_path p s)) = wire st (io_trace s)"
  "delivered (io_trace (close_client_path p s)) = delivered (io_trace s)"
  by (auto simp: close_client_path_def extends_def Let_def split: option.split)

lemma cs_paths_io:
  assumes "io_state.more s' = io_state.more (s :: 'z client_state_scheme)"
  shows "cs_paths s' = cs_paths s"
  using assms by (cases s, cases s') (simp add: client_state.defs)

lemma cs_paths_steps [simp]:
  "cs_paths (emit e s) = cs_paths s" "cs_paths (count_op f s) = cs_paths s"
  "cs_paths (close_client_path p s) = cs_paths s"
  by (rule cs_paths_io, simp)+

section \<open>Sending\<close>

lemma next_path_cases:
  assumes "client_next_path env s = (r, s')"
  obtains "r = None" "cps_paths (cs_paths s) = []" "s' = s"
  | now q where "r = Some q" "q \<in> set (cps_paths (cs_paths s))" "fst (cps_next_path (cs_paths s) now) = Some q"
      "s' = (emit (Now now) s)\<lparr>cs_paths := snd (cps_next_path (cs_paths s) now)\<rparr>"
proof (cases "cps_paths (cs_paths s) = []")
  case True
  with assms have "r = None" "s' = s" by (simp_all add: client_next_path_def)
  with True show ?thesis using that(1) by blast
next
  case False
  define now where "now = clock env (io_trace s)"
  obtain q where q: "fst (cps_next_path (cs_paths s) now) = Some q"
    using False by (simp add: next_path_eq)
  have "client_next_path env s = (fst (cps_next_path (cs_paths s) now),
      (emit (Now now) s)\<lparr>cs_paths := snd (cps_next_path (cs_paths s) now)\<rparr>)"
    using False by (simp add: client_next_path_def go_now_def now_def Let_def case_prod_beta)
  with q assms that(2) [of q now] show ?thesis by (simp add: next_path_member)
qed

lemma drop_broken_paths:
  assumes "p \<in> set (cps_paths (cs_paths s))"
  shows "length (cps_paths (cs_paths (drop_broken_path env p s))) < length (cps_paths (cs_paths s))"
proof -
  define m where "m = snd (cps_mark_failure (cs_paths s) (clock env (io_trace s)) (cp_id p))"
  have mem: "p \<in> set (cps_paths m)" using assms by (simp add: m_def)
  then have "fst (cps_remove m (cp_stream p)) \<noteq> None" by (simp add: remove_None)
  then obtain q where q: "fst (cps_remove m (cp_stream p)) = Some q" by blast
  have "cs_paths (drop_broken_path env p s) = snd (cps_remove m (cp_stream p))"
    using q by (auto simp: drop_broken_path_def remove_and_close_def client_mark_failure_def go_now_def
        Let_def m_def split: prod.split option.split)
  with remove_Some(3) [OF q] mem show ?thesis
    by (cases "cps_paths m") (auto simp: m_def)
qed

function send_packet :: "env \<Rightarrow> bytes \<Rightarrow> client_state \<Rightarrow> client_state" where
  "send_packet env packet s =
     (case client_next_path env s of
        (None, s) \<Rightarrow> count_op add_drop s
      | (Some path, s) \<Rightarrow>
          (case write_frame_to env (cp_stream path) packet s of
             (s, Some err) \<Rightarrow> send_packet env packet (drop_broken_path env path s)
           | (s, None) \<Rightarrow>
               count_op (add_tx (int (length packet))) (client_mark_success (cp_id path) s)))"
  by pat_completeness auto
termination
proof (relation "measure (\<lambda>(env, packet, s). length (cps_paths (cs_paths s)))", goal_cases)
  case (2 env packet s x s1 path y s2 err)
  from 2(1,2) have "client_next_path env s = (Some path, s1)" by simp
  then have n: "path \<in> set (cps_paths (cs_paths s))" "cps_paths (cs_paths s1) = cps_paths (cs_paths s)"
    by (auto elim!: next_path_cases)
  from 2(3) have "write_frame_to env (cp_stream path) packet s1 = (y, s2)" by simp
  then have "cs_paths y = cs_paths s1" by (intro cs_paths_io write_frame_to_frame(3))
  with n drop_broken_paths [of path y env] show ?case by simp
qed simp

declare send_packet.simps [simp del]

definition send_tun_packets ::
  "env \<Rightarrow> packet_policy \<Rightarrow> read_result list \<Rightarrow> client_state \<Rightarrow> client_state \<times> pump_end" where
  "send_tun_packets env pol reads s = device_pump env pol (send_packet env) 0 reads s"

section \<open>One packet\<close>

lemma next_path_Some:
  assumes "client_next_path env s = (Some q, s')"
  shows "q \<in> set (cps_paths (cs_paths s))" "cps_paths (cs_paths s') = cps_paths (cs_paths s)"
    "path_set_ok (cs_paths s) \<Longrightarrow> path_set_ok (cs_paths s')" "io_ctrs s' = io_ctrs s"
    "\<exists>now. io_trace s' = io_trace s @ [Now now]"
  using assms by (auto elim!: next_path_cases simp: next_path_ok)

lemma drop_broken_path_eq:
  assumes "path_set_ok (cs_paths s)" "q \<in> set (cps_paths (cs_paths s))"
  obtains now m ps where
    "m = snd (cps_mark_failure (cs_paths s) now (cp_id q))" "cps_remove m (cp_stream q) = (Some q, ps)"
    "ps = cps_discard now q (cs_paths s)"
    "drop_broken_path env q s =
       close_client_path q (emit (Now now) (count_op add_error s)\<lparr>cs_paths := ps\<rparr>)"
proof -
  define now where "now = clock env (io_trace s)"
  define m where "m = snd (cps_mark_failure (cs_paths s) now (cp_id q))"
  define s1 where "s1 = (emit (Now now) (count_op add_error s))\<lparr>cs_paths := m\<rparr>"
  have m: "path_set_ok m" "q \<in> set (cps_paths m)" using assms by (simp_all add: m_def)
  obtain ps where ps: "cps_remove m (cp_stream q) = (Some q, ps)"
    using remove_member(1) [OF m] by (cases "cps_remove m (cp_stream q)") simp
  have mf: "client_mark_failure env (cp_id q) (count_op add_error s) = s1" "cs_paths s1 = m"
    by (simp_all add: client_mark_failure_def go_now_def Let_def now_def m_def s1_def)
  have "drop_broken_path env q s =
      close_client_path q (emit (Now now) (count_op add_error s)\<lparr>cs_paths := ps\<rparr>)"
    by (simp add: drop_broken_path_def Let_def mf remove_and_close_def ps) (simp add: s1_def)
  moreover have "ps = cps_discard now q (cs_paths s)"
    by (simp add: cps_discard_def ps m_def [symmetric])
  ultimately show ?thesis using that [OF m_def ps] by blast
qed

lemma drop_broken_path_facts:
  assumes "path_set_ok (cs_paths s)" "q \<in> set (cps_paths (cs_paths s))"
  shows "path_set_ok (cs_paths (drop_broken_path env q s))"
    "set (cps_paths (cs_paths (drop_broken_path env q s))) = set (cps_paths (cs_paths s)) - {q}"
    "io_ctrs (drop_broken_path env q s) = add_error (io_ctrs s)"
    "\<exists>tr. io_trace (drop_broken_path env q s) = io_trace s @ tr \<and> list_all silent tr \<and>
       StreamClose (cp_stream q) \<in> set tr"
proof -
  obtain now ps where eq: "ps = cps_discard now q (cs_paths s)"
    and drop: "drop_broken_path env q s =
       close_client_path q (emit (Now now) (count_op add_error s)\<lparr>cs_paths := ps\<rparr>)"
    by (rule drop_broken_path_eq [OF assms, of env]) (rule that)
  from drop have paths: "cs_paths (drop_broken_path env q s) = ps" by simp
  show "path_set_ok (cs_paths (drop_broken_path env q s))"
    unfolding paths eq by (rule cps.discard_invar) (rule assms(1))
  show "set (cps_paths (cs_paths (drop_broken_path env q s))) = set (cps_paths (cs_paths s)) - {q}"
    unfolding paths eq by (rule cps.discard_members) (rule assms)+
  show "io_ctrs (drop_broken_path env q s) = add_error (io_ctrs s)" by (simp add: drop)
  show "\<exists>tr. io_trace (drop_broken_path env q s) = io_trace s @ tr \<and> list_all silent tr \<and>
      StreamClose (cp_stream q) \<in> set tr"
    by (cases "cp_conn q") (simp_all add: drop close_client_path_def Let_def)
qed

lemma send_packet_induct [consumes 1, case_names empty sent retry]:
  assumes ok: "path_set_ok (cs_paths s)"
    and "\<And>s. path_set_ok (cs_paths s) \<Longrightarrow> cps_paths (cs_paths s) = [] \<Longrightarrow> Q s (count_op add_drop s)"
    and "\<And>s q s1 s2. path_set_ok (cs_paths s) \<Longrightarrow> client_next_path env s = (Some q, s1) \<Longrightarrow>
      write_frame_to env (cp_stream q) p s1 = (s2, None) \<Longrightarrow>
      Q s (count_op (add_tx (int (length p))) (client_mark_success (cp_id q) s2))"
    and "\<And>s q s1 s2 e r. path_set_ok (cs_paths s) \<Longrightarrow> client_next_path env s = (Some q, s1) \<Longrightarrow>
      write_frame_to env (cp_stream q) p s1 = (s2, Some e) \<Longrightarrow> path_set_ok (cs_paths s2) \<Longrightarrow>
      q \<in> set (cps_paths (cs_paths s2)) \<Longrightarrow> Q (drop_broken_path env q s2) r \<Longrightarrow> Q s r"
  shows "Q s (send_packet env p s)"
  using ok
proof (induction "length (cps_paths (cs_paths s))" arbitrary: s rule: less_induct)
  case less
  obtain r s1 where nx: "client_next_path env s = (r, s1)" by fastforce
  show ?case
  proof (cases r)
    case None
    with nx have "cps_paths (cs_paths s) = []" "s1 = s" by (auto elim!: next_path_cases)
    with assms(2) [OF less.prems] nx None show ?thesis by (simp add: send_packet.simps [of env p s])
  next
    case (Some q)
    with nx have nx: "client_next_path env s = (Some q, s1)" by simp
    note n = next_path_Some [OF nx]
    obtain s2 e where wr: "write_frame_to env (cp_stream q) p s1 = (s2, e)" by fastforce
    have cs: "cs_paths s2 = cs_paths s1" using wr by (intro cs_paths_io write_frame_to_frame(3))
    show ?thesis
    proof (cases e)
      case None
      with assms(3) [OF less.prems nx] wr nx show ?thesis
        by (simp add: send_packet.simps [of env p s])
    next
      case (Some err)
      have ok2: "path_set_ok (cs_paths s2)" and q: "q \<in> set (cps_paths (cs_paths s2))"
        using cs n less.prems by simp_all
      have "length (cps_paths (cs_paths (drop_broken_path env q s2))) < length (cps_paths (cs_paths s))"
        using drop_broken_paths [OF q, of env] cs n(2) by simp
      from less.hyps [OF this drop_broken_path_facts(1) [OF ok2 q]]
      show ?thesis
        using assms(4) [OF less.prems nx _ ok2 q] wr nx Some by (simp add: send_packet.simps [of env p s])
    qed
  qed
qed

definition active_streams :: "client_state \<Rightarrow> nat set" where
  "active_streams s = cp_stream ` set (cps_paths (cs_paths s))"

abbreviation client_ok :: "client_state \<Rightarrow> bool" where
  "client_ok s \<equiv> path_set_ok (cs_paths s)"

lemma mark_success_facts [simp]:
  "cps_paths (cs_paths (client_mark_success i s)) = cps_paths (cs_paths s)"
  "client_ok (client_mark_success i s) = client_ok s"
  "io_trace (client_mark_success i s) = io_trace s" "io_ctrs (client_mark_success i s) = io_ctrs s"
  by (simp_all add: client_mark_success_def)

lemma active_streams_distinct:
  "client_ok s \<Longrightarrow> q \<in> set (cps_paths (cs_paths s)) \<Longrightarrow> q' \<in> set (cps_paths (cs_paths s)) \<Longrightarrow>
   cp_stream q = cp_stream q' \<longleftrightarrow> q = q'"
  by (auto simp: path_set_ok_def distinct_map dest: inj_onD)

text \<open>
  What \<open>send_packet\<close> did: which paths are left, and on which stream, if any, the frame went.
\<close>

definition sent_on :: "bytes \<Rightarrow> client_path \<Rightarrow> client_state \<Rightarrow> client_state \<Rightarrow> bool" where
  "sent_on p q s s' \<longleftrightarrow> q \<in> set (cps_paths (cs_paths s')) \<and>
     wire (cp_stream q) (io_trace s') = wire (cp_stream q) (io_trace s) @ frame_bytes p \<and>
     (\<forall>q' \<in> set (cps_paths (cs_paths s')) - {q}.
        wire (cp_stream q') (io_trace s') = wire (cp_stream q') (io_trace s)) \<and>
     handled (io_ctrs s') = handled (io_ctrs s) + 1 \<and>
     droppedPackets (io_ctrs s') = droppedPackets (io_ctrs s)"

definition sent_nowhere :: "client_state \<Rightarrow> client_state \<Rightarrow> bool" where
  "sent_nowhere s s' \<longleftrightarrow> cps_paths (cs_paths s') = [] \<and>
     handled (io_ctrs s') = handled (io_ctrs s) + 1 \<and>
     droppedPackets (io_ctrs s') = droppedPackets (io_ctrs s) + 1"

lemma send_packet_outcome:
  assumes "client_ok s" "frame_ok p"
  shows "client_ok (send_packet env p s) \<and>
    set (cps_paths (cs_paths (send_packet env p s))) \<subseteq> set (cps_paths (cs_paths s)) \<and>
    (sent_nowhere s (send_packet env p s) \<or> (\<exists>q. sent_on p q s (send_packet env p s)))"
  using assms(1)
proof (induction rule: send_packet_induct [where env = env and p = p])
  case (empty s)
  then show ?case by (simp add: sent_nowhere_def)
next
  case (sent s q s1 s2)
  note n = next_path_Some [OF sent(2)]
  note w = write_frame_to_ok [OF assms(2) sent(3)] write_frame_to_frame [OF sent(3)]
  have cs: "cs_paths s2 = cs_paths s1" using w(3) by (rule cs_paths_io)
  have other: "wire (cp_stream q') (io_trace s2) = wire (cp_stream q') (io_trace s)"
    if "q' \<in> set (cps_paths (cs_paths s)) - {q}" for q'
    using that n active_streams_distinct [OF sent(1), of q' q] write_frame_to_frame(4) [OF sent(3), of "cp_stream q'"]
    by auto
  have "sent_on p q s (count_op (add_tx (int (length p))) (client_mark_success (cp_id q) s2))"
    using n w(1,2,4) other cs by (auto simp: sent_on_def)
  with n cs sent(1) show ?case by auto
next
  case (retry s q s1 s2 e r)
  note n = next_path_Some [OF retry(2)]
  note w = write_frame_to_frame [OF retry(3)]
  note d = drop_broken_path_facts [OF retry(4,5), of env]
  have cs: "cs_paths s2 = cs_paths s1" using w(3) by (rule cs_paths_io)
  have wire: "wire (cp_stream q') (io_trace (drop_broken_path env q s2)) = wire (cp_stream q') (io_trace s)"
    if "q' \<in> set (cps_paths (cs_paths r))" for q'
  proof -
    have "q' \<in> set (cps_paths (cs_paths s))" "q' \<noteq> q" using that retry(6) d(2) cs n by auto
    then have "cp_stream q' \<noteq> cp_stream q" using n(1) active_streams_distinct [OF retry(1)] by blast
    then have "wire (cp_stream q') (io_trace s2) = wire (cp_stream q') (io_trace s1)"
      by (rule write_frame_to_frame(4) [OF retry(3)])
    with n(5) d(4) silent_nothing show ?thesis by fastforce
  qed
  have ctrs: "io_ctrs (drop_broken_path env q s2) = add_error (io_ctrs s)" using d(3) w(2) n(4) by simp
  have "sent_nowhere s r" if "sent_nowhere (drop_broken_path env q s2) r"
    using that ctrs by (simp add: sent_nowhere_def)
  moreover have "sent_on p q' s r" if "sent_on p q' (drop_broken_path env q s2) r" for q'
    using that ctrs wire by (auto simp: sent_on_def)
  ultimately show ?case using retry(6) d(2) cs n(2) by auto
qed

lemma send_packet_events:
  assumes "client_ok s" "frame_ok p"
  shows "\<exists>tr. io_trace (send_packet env p s) = io_trace s @ tr \<and> list_all (event_offers p) tr"
  using assms(1)
proof (induction rule: send_packet_induct [where env = env and p = p])
  case (sent s q s1 s2)
  obtain tr where "io_trace s2 = io_trace s1 @ tr" "list_all (event_offers p) tr"
    using write_frame_to_events [OF assms(2) sent(3)] by blast
  with next_path_Some(5) [OF sent(2)] show ?case by auto
next
  case (retry s q s1 s2 e r)
  obtain tr where "io_trace s2 = io_trace s1 @ tr" "list_all (event_offers p) tr"
    using write_frame_to_events [OF assms(2) retry(3)] by blast
  moreover obtain tr' where "io_trace (drop_broken_path env q s2) = io_trace s2 @ tr'" "list_all silent tr'"
    using drop_broken_path_facts(4) [OF retry(4,5)] by blast
  ultimately show ?case using next_path_Some(5) [OF retry(2)] retry(6) silent_offers [of tr' p] by auto
qed auto

text \<open>
  The rounds of \<open>send_packet\<close>: how \<open>WriteFrame\<close> ended on one stream, and what each round does
  to the streams.
\<close>

datatype attempt =
    HeaderFails ext_error
  | PayloadFails ext_error
  | FrameSent

fun attempt_ops :: "bytes \<Rightarrow> nat \<times> attempt \<Rightarrow> io_event list" where
  "attempt_ops p (st, HeaderFails e) =
     [StreamWrite st (be32 (of_nat (length p))) (Some e), StreamClose st]"
| "attempt_ops p (st, PayloadFails e) =
     [StreamWrite st (be32 (of_nat (length p))) None, StreamWrite st p (Some e), StreamClose st]"
| "attempt_ops p (st, FrameSent) =
     [StreamWrite st (be32 (of_nat (length p))) None, StreamWrite st p None]"

fun stream_op :: "io_event \<Rightarrow> bool" where
  "stream_op (StreamWrite st bs e) = True"
| "stream_op (StreamClose st) = True"
| "stream_op _ = False"

definition stream_ops :: "io_event list \<Rightarrow> io_event list" where
  \<comment> \<open>the writes and closes of streams\<close>
  "stream_ops tr = filter stream_op tr"

lemma stream_ops_simps [simp]:
  "stream_ops [] = []" "stream_ops (e # tr) = (if stream_op e then [e] else []) @ stream_ops tr"
  "stream_ops (tr @ tr') = stream_ops tr @ stream_ops tr'"
  by (simp_all add: stream_ops_def)

definition failed_over :: "bytes \<Rightarrow> client_state \<Rightarrow> client_state \<Rightarrow> (nat \<times> attempt) list \<Rightarrow> (nat \<times> attempt) list \<Rightarrow> bool" where
  \<comment> \<open>first the rounds that failed, then the one that did not, unless no path was left\<close>
  "failed_over p s s' failed sent \<longleftrightarrow>
     (\<exists>tr. io_trace s' = io_trace s @ tr \<and> stream_ops tr = concat (map (attempt_ops p) (failed @ sent))) \<and>
     distinct (map fst (failed @ sent)) \<and> set (map fst (failed @ sent)) \<subseteq> active_streams s \<and>
     (\<forall>a \<in> set failed. snd a \<noteq> FrameSent) \<and>
     active_streams s' = active_streams s - set (map fst failed) \<and>
     (sent = [] \<and> active_streams s' = {} \<or>
      (\<exists>q \<in> set (cps_paths (cs_paths s')). sent = [(cp_stream q, FrameSent)]))"

lemma write_frame_to_attempt:
  assumes "frame_ok p" "write_frame_to env st p s = (s', err)"
  obtains "err = None" "io_trace s' = io_trace s @ attempt_ops p (st, FrameSent)"
  | a tr where "err \<noteq> None" "a \<noteq> FrameSent" "io_trace s' = io_trace s @ tr"
      "stream_ops tr @ [StreamClose st] = attempt_ops p (st, a)"
proof -
  obtain e1 e2 where "write_frame_to env st p s =
     (case e1 of
        Some err \<Rightarrow> (emit (StreamWrite st (be32 (of_nat (length p))) e1) s, Some (FrameIO err))
      | None \<Rightarrow> (emit (StreamWrite st p e2) (emit (StreamWrite st (be32 (of_nat (length p))) None) s),
                 map_option FrameIO e2))"
    using write_frame_to_cases [OF assms(1)] by blast
  with assms(2) that(1) that(2) [of "HeaderFails (the e1)"] that(2) [of "PayloadFails (the e2)"]
  show ?thesis by (cases e1; cases e2) auto
qed

lemma drop_broken_path_ops:
  assumes "path_set_ok (cs_paths s)" "q \<in> set (cps_paths (cs_paths s))"
  obtains tr where "io_trace (drop_broken_path env q s) = io_trace s @ tr"
    "stream_ops tr = [StreamClose (cp_stream q)]"
proof -
  obtain now ps where "drop_broken_path env q s =
       close_client_path q (emit (Now now) (count_op add_error s)\<lparr>cs_paths := ps\<rparr>)"
    by (rule drop_broken_path_eq [OF assms, of env]) (rule that)
  then show ?thesis
    using that by (cases "cp_conn q") (simp_all add: close_client_path_def Let_def)
qed

lemma send_packet_failover:
  assumes "client_ok s" "frame_ok p"
  shows "\<exists>failed sent. failed_over p s (send_packet env p s) failed sent"
  using assms(1)
proof (induction rule: send_packet_induct [where env = env and p = p])
  case (empty s)
  then have "failed_over p s (count_op add_drop s) [] []" by (simp add: failed_over_def active_streams_def)
  then show ?case by blast
next
  case (sent s q s1 s2)
  note n = next_path_Some [OF sent(2)]
  obtain now where now: "io_trace s1 = io_trace s @ [Now now]" using n(5) by blast
  have tr: "io_trace s2 = io_trace s1 @ attempt_ops p (cp_stream q, FrameSent)"
    by (rule write_frame_to_attempt [OF assms(2) sent(3)]) auto
  have "cs_paths s2 = cs_paths s1" using sent(3) by (intro cs_paths_io write_frame_to_frame(3))
  with n(1,2) now tr
  have "failed_over p s (count_op (add_tx (int (length p))) (client_mark_success (cp_id q) s2)) []
      [(cp_stream q, FrameSent)]"
    by (auto simp: failed_over_def active_streams_def)
  then show ?case by blast
next
  case (retry s q s1 s2 e r)
  note n = next_path_Some [OF retry(2)]
  let ?d = "drop_broken_path env q s2"
  obtain now where now: "io_trace s1 = io_trace s @ [Now now]" using n(5) by blast
  obtain a tr1 where a: "a \<noteq> FrameSent" "io_trace s2 = io_trace s1 @ tr1"
    "stream_ops tr1 @ [StreamClose (cp_stream q)] = attempt_ops p (cp_stream q, a)"
    by (rule write_frame_to_attempt [OF assms(2) retry(3)]) auto
  obtain tr2 where tr2: "io_trace ?d = io_trace s2 @ tr2" "stream_ops tr2 = [StreamClose (cp_stream q)]"
    by (rule drop_broken_path_ops [OF retry(4,5)])
  obtain failed sent tr3 where r: "io_trace r = io_trace ?d @ tr3" 
    "stream_ops tr3 = concat (map (attempt_ops p) (failed @ sent))"
    "failed_over p ?d r failed sent"
    using retry(6) by (auto simp: failed_over_def)
  have "cs_paths s2 = cs_paths s1" using retry(3) by (intro cs_paths_io write_frame_to_frame(3))
  then have "set (cps_paths (cs_paths ?d)) = set (cps_paths (cs_paths s)) - {q}"
    using drop_broken_path_facts(2) [OF retry(4,5), of env] n(2) by simp
  then have act: "active_streams ?d = active_streams s - {cp_stream q}"
    using active_streams_distinct [OF retry(1)] n(1) by (auto simp: active_streams_def)
  have q: "cp_stream q \<in> active_streams s" using n(1) by (simp add: active_streams_def)
  have ops: "stream_ops (Now now # tr1 @ tr2 @ tr3) =
      concat (map (attempt_ops p) (((cp_stream q, a) # failed) @ sent))"
    using a(3) tr2(2) r(2) by simp
  have trace: "io_trace r = io_trace s @ Now now # tr1 @ tr2 @ tr3"
    using now a(2) tr2(1) r(1) by simp
  have "failed_over p s r ((cp_stream q, a) # failed) sent"
    using r(3) act q a(1) unfolding failed_over_def
    by (intro conjI exI [of _ "Now now # tr1 @ tr2 @ tr3"] trace ops) auto
  then show ?case by blast
qed

lemma failed_over_rounds:
  assumes "failed_over p s s' failed sent"
  shows "length (failed @ sent) \<le> length (cps_paths (cs_paths s))"
proof -
  have "length (failed @ sent) = card (set (map fst (failed @ sent)))"
    using assms distinct_card [of "map fst (failed @ sent)"] by (simp add: failed_over_def)
  also have "\<dots> \<le> card (active_streams s)"
    using assms by (intro card_mono) (simp_all add: failed_over_def active_streams_def)
  also have "\<dots> \<le> length (cps_paths (cs_paths s))"
    unfolding active_streams_def by (meson card_image_le card_length finite_set order_trans)
  finally show ?thesis .
qed

lemma send_packet_extends: "client_ok s \<Longrightarrow> extends s (send_packet env p s)"
proof (induction rule: send_packet_induct [where env = env and p = p])
  case (sent s q s1 s2)
  from next_path_Some(5) [OF sent(2)] write_frame_to_frame(1) [OF sent(3)]
  show ?case by (auto simp: extends_def)
next
  case (retry s q s1 s2 e r)
  from next_path_Some(5) [OF retry(2)] write_frame_to_frame(1) [OF retry(3)]
    drop_broken_path_facts(4) [OF retry(4,5), of env] retry(6)
  show ?case by (auto simp: extends_def)
qed simp

lemma send_packet_keeps:
  assumes "client_ok s"
  shows "client_ok (send_packet env p s) \<and>
    set (cps_paths (cs_paths (send_packet env p s))) \<subseteq> set (cps_paths (cs_paths s)) \<and>
    handled (io_ctrs (send_packet env p s)) = handled (io_ctrs s) + 1 \<and>
    rxPackets (io_ctrs (send_packet env p s)) = rxPackets (io_ctrs s)"
  using assms
proof (induction rule: send_packet_induct [where env = env and p = p])
  case (sent s q s1 s2)
  note n = next_path_Some [OF sent(2)]
  note w = write_frame_to_frame [OF sent(3)]
  have "cs_paths s2 = cs_paths s1" using w(3) by (rule cs_paths_io)
  with n w(2) sent(1) show ?case by simp
next
  case (retry s q s1 s2 e r)
  note n = next_path_Some [OF retry(2)]
  note w = write_frame_to_frame [OF retry(3)]
  note d = drop_broken_path_facts [OF retry(4,5), of env]
  have cs: "cs_paths s2 = cs_paths s1" using w(3) by (rule cs_paths_io)
  have ctrs: "io_ctrs (drop_broken_path env q s2) = add_error (io_ctrs s)" using d(3) w(2) n(4) by simp
  show ?case using retry(6) d(2) cs n(2) ctrs by auto
qed simp

text \<open>
  Each failed write costs one path: it is counted as an error, and the path is closed.
\<close>

lemma send_packet_failures:
  assumes "client_ok s"
  shows "errors (io_ctrs (send_packet env p s)) + of_nat (length (cps_paths (cs_paths (send_packet env p s)))) =
      errors (io_ctrs s) + of_nat (length (cps_paths (cs_paths s))) \<and>
    (\<exists>tr. io_trace (send_packet env p s) = io_trace s @ tr \<and>
      (\<forall>q \<in> set (cps_paths (cs_paths s)) - set (cps_paths (cs_paths (send_packet env p s))).
         StreamClose (cp_stream q) \<in> set tr))"
  using assms
proof (induction rule: send_packet_induct [where env = env and p = p])
  case (sent s q s1 s2)
  note n = next_path_Some [OF sent(2)]
  note w = write_frame_to_frame [OF sent(3)]
  have "cs_paths s2 = cs_paths s1" using w(3) by (rule cs_paths_io)
  with n w(1,2) show ?case by (auto simp: extends_def)
next
  case (retry s q s1 s2 e r)
  note n = next_path_Some [OF retry(2)]
  note w = write_frame_to_frame [OF retry(3)]
  note d = drop_broken_path_facts [OF retry(4,5), of env]
  let ?d = "drop_broken_path env q s2"
  have cs: "cs_paths s2 = cs_paths s1" using w(3) by (rule cs_paths_io)
  have paths: "set (cps_paths (cs_paths ?d)) = set (cps_paths (cs_paths s)) - {q}" using d(2) cs n by simp
  then have "set (cps_paths (cs_paths s)) = insert q (set (cps_paths (cs_paths ?d)))"
    "q \<notin> set (cps_paths (cs_paths ?d))" using n(1) by auto
  then have len: "length (cps_paths (cs_paths s)) = Suc (length (cps_paths (cs_paths ?d)))"
    using distinct_card [OF distinct_paths [OF retry(1)]] distinct_card [OF distinct_paths [OF d(1)]] by simp
  have ctrs: "io_ctrs ?d = add_error (io_ctrs s)" using d(3) w(2) n(4) by simp
  obtain tr1 tr2 where tr: "io_trace s2 = io_trace s @ tr1" "io_trace ?d = io_trace s2 @ tr2"
    "StreamClose (cp_stream q) \<in> set tr2"
    using n(5) w(1) d(4) by (auto simp: extends_def)
  obtain tr3 where tr3: "io_trace r = io_trace ?d @ tr3"
    "\<forall>q' \<in> set (cps_paths (cs_paths ?d)) - set (cps_paths (cs_paths r)). StreamClose (cp_stream q') \<in> set tr3"
    using retry(6) by blast
  have "\<forall>q' \<in> set (cps_paths (cs_paths s)) - set (cps_paths (cs_paths r)).
      StreamClose (cp_stream q') \<in> set (tr1 @ tr2 @ tr3)"
    using tr tr3(2) paths by auto
  moreover have "errors (io_ctrs r) + of_nat (length (cps_paths (cs_paths r))) =
      errors (io_ctrs s) + of_nat (length (cps_paths (cs_paths s)))"
    using retry(6) len ctrs by simp
  moreover have "io_trace r = io_trace s @ (tr1 @ tr2 @ tr3)" using tr tr3(1) by simp
  ultimately show ?case by blast
qed simp

lemma send_packet_reliable_path:
  assumes "client_ok s" "frame_ok p" "\<And>tr bs. stream_write env tr (cp_stream q0) bs = None"
  shows "q0 \<in> set (cps_paths (cs_paths s)) \<longrightarrow> q0 \<in> set (cps_paths (cs_paths (send_packet env p s)))"
  using assms(1)
proof (induction rule: send_packet_induct [where env = env and p = p])
  case (sent s q s1 s2)
  have "cs_paths s2 = cs_paths s1" using sent(3) by (intro cs_paths_io write_frame_to_frame(3))
  with next_path_Some(2) [OF sent(2)] show ?case by simp
next
  case (retry s q s1 s2 e r)
  have cs: "cs_paths s2 = cs_paths s1" using retry(3) by (intro cs_paths_io write_frame_to_frame(3))
  have "q \<noteq> q0"
  proof
    assume "q = q0"
    then have "snd (write_frame_to env (cp_stream q) p s1) = None"
      using assms(2,3)
      by (simp add: write_frame_to_def write_frame_eq stream_writer_def frame_ok_def Let_def)
    with retry(3) show False by simp
  qed
  then show ?case
    using retry(6) drop_broken_path_facts(2) [OF retry(4,5), of env] cs next_path_Some(2) [OF retry(2)]
    by auto
qed simp

section \<open>The sender is a forwarder\<close>

interpretation client_sender: packet_forwarder "send_packet env" client_ok active_streams for env
proof (unfold_locales, goal_cases)
  case (1 s' s)
  then show ?case using cs_paths_io [OF 1] by simp
next
  case (2 s' s)
  then show ?case using cs_paths_io [OF 2] by (simp add: active_streams_def)
next
  case (3 s p) then show ?case by (simp add: send_packet_keeps)
next
  case (4 s p) then show ?case by (rule send_packet_extends)
next
  case (5 s p) then show ?case using send_packet_keeps [of s env p] by (auto simp: active_streams_def)
next
  case (6 s p st)
  then obtain q where q: "q \<in> set (cps_paths (cs_paths (send_packet env p s)))" "st = cp_stream q"
    by (auto simp: active_streams_def)
  from send_packet_outcome [OF 6(1,2), of env]
  consider "cps_paths (cs_paths (send_packet env p s)) = []"
    | q' where "sent_on p q' s (send_packet env p s)"
    by (auto simp: sent_nowhere_def)
  then show ?case
  proof cases
    case 2
    with q show ?thesis by (cases "q = q'") (auto simp: sent_on_def)
  qed (use q in simp)
next
  case (7 s p st bs e)
  then obtain tr where "new_events s (send_packet env p s) = tr" "list_all (event_offers p) tr"
    using send_packet_events [OF 7(1,2), of env] by (auto simp: new_events_def)
  with 7(3) show ?case by (force simp: list_all_iff)
next
  case (8 s p) then show ?case by (simp add: send_packet_keeps)
next
  case (9 s p) then show ?case by (simp add: send_packet_keeps)
qed

section \<open>Receiving\<close>

definition client_quiet :: "bool \<Rightarrow> frame_error \<Rightarrow> bool" where
  \<comment> \<open>the read errors that end \<open>receivePathPackets\<close> without a report\<close>
  "client_quiet done err \<longleftrightarrow>
     done \<or> (case err of FrameIO e \<Rightarrow> is_closed e | _ \<Rightarrow> False) \<or> is_graceful_stream_end err"

definition receive_path_packets ::
  "env \<Rightarrow> packet_policy \<Rightarrow> client_path \<Rightarrow> reader \<Rightarrow> client_state \<Rightarrow> client_state \<times> pump_end" where
  "receive_path_packets env pol path r s =
     (case frame_pump env pol client_quiet (cp_stream path) r s of
        (s, fin) \<Rightarrow> (remove_and_close (cp_stream path) s, fin))"

lemma remove_and_close_facts:
  shows "io_ctrs (remove_and_close st s) = io_ctrs s"
    "delivered (io_trace (remove_and_close st s)) = delivered (io_trace s)"
    "wire st' (io_trace (remove_and_close st s)) = wire st' (io_trace s)"
    "cs_paths (remove_and_close st s) = snd (cps_remove (cs_paths s) st)"
    "extends s (remove_and_close st s)"
  by (auto simp: remove_and_close_def extends_def close_client_path_def Let_def split: option.splits prod.splits)

section \<open>Concrete instances\<close>

definition two_paths :: "io_event list \<Rightarrow> client_state" where
  "two_paths tr = \<lparr>io_trace = tr, io_ctrs = zero_counters,
     cs_paths = new_client_path_set [example_path 0 10, example_path 1 11]\<rparr>"

definition half_broken_env :: "nat \<Rightarrow> env" where
  \<comment> \<open>every write to this one stream fails\<close>
  "half_broken_env st = calm_env\<lparr>stream_write := (\<lambda>tr st' bs. if st' = st then Some unexpected_eof else None)\<rparr>"

lemma two_paths_ok: "path_set_ok (cs_paths (two_paths tr))"
  by (simp add: two_paths_def) (rule path_set_ok_new; simp add: example_path_def)

definition after_one_packet :: client_state where
  "after_one_packet =
     \<lparr>io_trace = [DeviceRead, Now 1, StreamWrite 10 [0, 0, 0, 3] None, StreamWrite 10 [1, 2, 3] None],
      io_ctrs = add_tx 3 zero_counters,
      cs_paths = (new_client_path_set [example_path 0 10, example_path 1 11])\<lparr>cps_next := 1\<rparr>\<rparr>"

lemma example_run:
  "send_tun_packets calm_env \<lparr>allowedCIDR = None\<rparr> [ReadData [1, 2, 3]] (two_paths []) =
     (after_one_packet, Blocked)"
  by (simp add: send_tun_packets_def send_packet.simps two_paths_def client_next_path_def go_now_def
      calm_env_def Let_def cps_next_path_def choose_index_def new_client_path_set_def allow_def
      MaxFrameSize_def write_frame_to_def write_frame_eq stream_writer_def be32_def emit_def count_op_def
      client_mark_success_def cps_mark_success_def health_of_def zero_health_def is_cooling_down_def
      example_path_def after_one_packet_def)

lemma half_broken_run:
  \<comment> \<open>the first path breaks, the second one stays\<close>
  "set (cps_paths (cs_paths (send_packet (half_broken_env 10) [1, 2, 3] (two_paths [])))) = {example_path 1 11}"
proof -
  let ?env = "half_broken_env 10" and ?p = "[1, 2, 3] :: bytes"
  have ok: "frame_ok ?p" by (simp add: frame_ok_def MaxFrameSize_def)
  have both: "set (cps_paths (cs_paths (two_paths []))) = {example_path 0 10, example_path 1 11}"
    by (simp add: two_paths_def new_client_path_set_def)
  have "fst (client_next_path ?env (two_paths [])) = Some (example_path 0 10)"
    by (simp add: client_next_path_def go_now_def two_paths_def cps_next_path_def choose_index_def
        new_client_path_set_def health_of_def zero_health_def is_cooling_down_def Let_def
        half_broken_env_def calm_env_def)
  then obtain s1 where s1: "client_next_path ?env (two_paths []) = (Some (example_path 0 10), s1)"
    by (metis prod.collapse)
  note n = s1 next_path_Some(2) [OF s1] next_path_Some(3) [OF s1 two_paths_ok]
  obtain s2 e where w: "write_frame_to ?env 10 ?p s1 = (s2, Some e)"
    by (simp add: write_frame_to_def write_frame_eq MaxFrameSize_def stream_writer_def half_broken_env_def Let_def)
  have cs: "cs_paths s2 = cs_paths s1" using w by (intro cs_paths_io write_frame_to_frame(3))
  have first: "example_path 0 10 \<in> set (cps_paths (cs_paths s2))" using both n(2) cs by simp
  let ?d = "drop_broken_path ?env (example_path 0 10) s2"
  have run: "send_packet ?env ?p (two_paths []) = send_packet ?env ?p ?d"
    using n(1) w by (simp add: send_packet.simps [of ?env ?p "two_paths []"] example_path_def)
  have ok2: "client_ok s2" using n(3) cs by simp
  note d = drop_broken_path_facts(1,2) [OF ok2 first, of ?env]
  have second: "set (cps_paths (cs_paths ?d)) = {example_path 1 11}"
    using d(2) both n(2) cs by (auto simp: example_path_def)
  have spare: "stream_write ?env tr (cp_stream (example_path 1 11)) bs = None" for tr bs
    by (simp add: half_broken_env_def example_path_def calm_env_def)
  have "example_path 1 11 \<in> set (cps_paths (cs_paths (send_packet ?env ?p ?d)))"
    using send_packet_reliable_path [OF d(1) ok spare] second by simp
  moreover have "set (cps_paths (cs_paths (send_packet ?env ?p ?d))) \<subseteq> {example_path 1 11}"
    using send_packet_outcome [OF d(1) ok, of ?env] second by simp
  ultimately show ?thesis unfolding run by blast
qed

section \<open>Properties\<close>

text \<open>
  (C2) Failover: if one active path accepts every write, a packet that fits a frame is sent,
  whatever the other paths do.  Exactly one active stream carries its frame, the others
  that stay active are untouched, the packet counts once as sent and not as dropped.
\<close>

theorem packet_fails_over:
  assumes "path_set_ok (cs_paths s)" "frame_ok p" "q0 \<in> set (cps_paths (cs_paths s))"
    "\<forall>tr bs. stream_write env tr (cp_stream q0) bs = None"
  shows "\<exists>q. sent_on p q s (send_packet env p s) \<and>
    q0 \<in> set (cps_paths (cs_paths (send_packet env p s))) \<and>
    txPackets (io_ctrs (send_packet env p s)) = txPackets (io_ctrs s) + 1"
proof -
  have q0: "q0 \<in> set (cps_paths (cs_paths (send_packet env p s)))"
    using send_packet_reliable_path [OF assms(1,2)] assms(3,4) by blast
  then have "\<not> sent_nowhere s (send_packet env p s)" by (auto simp: sent_nowhere_def)
  then obtain q where q: "sent_on p q s (send_packet env p s)"
    using send_packet_outcome [OF assms(1,2)] by blast
  then have "txPackets (io_ctrs (send_packet env p s)) = txPackets (io_ctrs s) + 1"
    by (auto simp: sent_on_def handled_def)
  with q q0 show ?thesis by blast
qed

theorem packet_fails_over_witness:
  "\<exists>q. sent_on [1, 2, 3] q (two_paths []) (send_packet (half_broken_env 10) [1, 2, 3] (two_paths []))"
proof -
  have "frame_ok [1, 2, 3]" by (simp add: frame_ok_def MaxFrameSize_def)
  moreover have "example_path 1 11 \<in> set (cps_paths (cs_paths (two_paths [])))"
    by (simp add: two_paths_def new_client_path_set_def)
  moreover have "\<forall>tr bs. stream_write (half_broken_env 10) tr (cp_stream (example_path 1 11)) bs = None"
    by (simp add: half_broken_env_def example_path_def)
  ultimately show ?thesis using packet_fails_over [OF two_paths_ok] by blast
qed

text \<open>
  (C17) Failover tries each path at most once.  To send one packet, the sender goes through
  rounds on pairwise different active streams, at most one per path: first those that fail,
  in each of which it writes the header once, the packet at most once behind a header that
  went through, and then closes that stream; then one whose header and packet both go
  through, on a stream that stays active.  It does nothing else to any stream; the paths
  that failed are exactly those that leave the set, and without a round that succeeds no
  path is left.
\<close>

theorem failover_tries_each_path_once:
  assumes "path_set_ok (cs_paths s)" "frame_ok p" "send_packet env p s = s'"
  shows "\<exists>failed sent.
    stream_ops (new_events s s') = concat (map (attempt_ops p) (failed @ sent)) \<and>
    distinct (map fst (failed @ sent)) \<and> set (map fst (failed @ sent)) \<subseteq> active_streams s \<and>
    length (failed @ sent) \<le> length (cps_paths (cs_paths s)) \<and>
    (\<forall>a \<in> set failed. snd a \<noteq> FrameSent) \<and>
    active_streams s' = active_streams s - set (map fst failed) \<and>
    (sent = [] \<and> active_streams s' = {} \<or>
     (\<exists>q \<in> set (cps_paths (cs_paths s')). sent = [(cp_stream q, FrameSent)]))"
proof -
  obtain failed sent where f: "failed_over p s s' failed sent"
    using send_packet_failover [OF assms(1,2), of env] assms(3) by blast
  then have "stream_ops (new_events s s') = concat (map (attempt_ops p) (failed @ sent))"
    by (auto simp: failed_over_def new_events_def)
  with f failed_over_rounds [OF f] show ?thesis unfolding failed_over_def by blast
qed

theorem failover_tries_each_path_once_witness:
  "active_streams (send_packet (half_broken_env 10) [1, 2, 3] (two_paths [])) = {11} \<and>
   (\<exists>failed sent. distinct (map fst (failed @ sent)) \<and> set (map fst failed) = {10} \<and>
      stream_ops (new_events (two_paths []) (send_packet (half_broken_env 10) [1, 2, 3] (two_paths []))) =
        concat (map (attempt_ops [1, 2, 3]) (failed @ sent)))"
proof -
  have ok: "frame_ok [1, 2, 3]" by (simp add: frame_ok_def MaxFrameSize_def)
  have act: "active_streams (two_paths []) = {10, 11}"
    by (auto simp: active_streams_def two_paths_def new_client_path_set_def example_path_def)
  have after: "active_streams (send_packet (half_broken_env 10) [1, 2, 3] (two_paths [])) = {11}"
    using half_broken_run by (auto simp: active_streams_def example_path_def)
  obtain failed sent where f: "distinct (map fst (failed @ sent))"
    "set (map fst (failed @ sent)) \<subseteq> {10, 11}" "{11} = {10, 11} - set (map fst failed)"
    "stream_ops (new_events (two_paths []) (send_packet (half_broken_env 10) [1, 2, 3] (two_paths []))) =
        concat (map (attempt_ops [1, 2, 3]) (failed @ sent))"
    using failover_tries_each_path_once [OF two_paths_ok [of "[]"] ok refl, of "half_broken_env 10"]
    unfolding act after by (elim exE conjE) (rule that, assumption+)
  have "10 \<in> set (map fst failed)"
  proof (rule ccontr)
    assume "10 \<notin> set (map fst failed)"
    then have "10 \<in> {10, 11} - set (map fst failed)" by blast
    then show False unfolding f(3) [symmetric] by simp
  qed
  moreover have "11 \<notin> set (map fst failed)" using f(3) by blast
  ultimately have "set (map fst failed) = {10}" using f(2) by auto
  with f after show ?thesis by blast
qed

text \<open>
  A write failure costs exactly one path: after a packet was sent or dropped, the
  errors counted are the paths that left the set, the stream of each of them was closed,
  and a packet is dropped only when no path is left.
\<close>

theorem failed_paths_are_closed:
  assumes "path_set_ok (cs_paths s)" "frame_ok p"
  shows "errors (io_ctrs (send_packet env p s)) + of_nat (length (cps_paths (cs_paths (send_packet env p s)))) =
      errors (io_ctrs s) + of_nat (length (cps_paths (cs_paths s))) \<and>
    (\<forall>q \<in> set (cps_paths (cs_paths s)) - set (cps_paths (cs_paths (send_packet env p s))).
       StreamClose (cp_stream q) \<in> set (new_events s (send_packet env p s))) \<and>
    (droppedPackets (io_ctrs (send_packet env p s)) \<noteq> droppedPackets (io_ctrs s) \<longrightarrow>
       cps_paths (cs_paths (send_packet env p s)) = [])"
proof -
  obtain tr where tr: "io_trace (send_packet env p s) = io_trace s @ tr"
    "\<forall>q \<in> set (cps_paths (cs_paths s)) - set (cps_paths (cs_paths (send_packet env p s))).
       StreamClose (cp_stream q) \<in> set tr"
    using send_packet_failures [OF assms(1), of env p] by blast
  then have "new_events s (send_packet env p s) = tr" by (simp add: new_events_def)
  with tr send_packet_failures [OF assms(1), of env p] send_packet_outcome [OF assms, of env]
  show ?thesis by (auto simp: sent_nowhere_def sent_on_def)
qed

theorem failed_paths_are_closed_witness:
  "errors (io_ctrs (send_packet (half_broken_env 10) [1, 2, 3] (two_paths []))) +
     of_nat (length (cps_paths (cs_paths (send_packet (half_broken_env 10) [1, 2, 3] (two_paths []))))) = 2"
proof -
  have "frame_ok [1, 2, 3]" by (simp add: frame_ok_def MaxFrameSize_def)
  from failed_paths_are_closed [OF two_paths_ok [of "[]"] this, of "half_broken_env 10"]
  show ?thesis by (simp add: two_paths_def zero_counters_def new_client_path_set_def)
qed

text \<open>
  (C16) No packet is lost track of: whatever the reads, the streams and the timers do, as
  long as the sender is still waiting for the device, each packet it read counts exactly
  once, as sent or as dropped; nothing counts as received, and the path set stays well
  formed.
\<close>

theorem sender_accounts_for_every_packet:
  assumes "path_set_ok (cs_paths s)" "send_tun_packets env pol reads s = (s', Blocked)"
  shows "txPackets (io_ctrs s') + droppedPackets (io_ctrs s') =
      txPackets (io_ctrs s) + droppedPackets (io_ctrs s) + of_nat (length (read_packets reads)) \<and>
    rxPackets (io_ctrs s') = rxPackets (io_ctrs s) \<and> path_set_ok (cs_paths s')"
proof -
  have s': "s' = fst (device_pump env pol (send_packet env) 0 reads s)"
    "snd (device_pump env pol (send_packet env) 0 reads s) = Blocked"
    using assms(2) by (simp_all add: send_tun_packets_def)
  have "handled (io_ctrs s') = handled (io_ctrs s) + of_nat (length (read_packets reads))"
    unfolding s'(1) using client_sender.pump_handled [OF assms(1) s'(2)] .
  moreover have "rxPackets (io_ctrs s') = rxPackets (io_ctrs s)"
    unfolding s'(1) by (rule client_sender.pump_rx [OF assms(1)])
  moreover have "path_set_ok (cs_paths s')"
    unfolding s'(1) by (rule client_sender.pump_inv [OF assms(1)])
  ultimately show ?thesis by (simp add: handled_def)
qed

theorem sender_accounts_for_every_packet_witness:
  "txPackets (io_ctrs after_one_packet) + droppedPackets (io_ctrs after_one_packet) = 1"
  using sender_accounts_for_every_packet [OF two_paths_ok example_run]
  by (simp add: two_paths_def zero_counters_def MaxFrameSize_def)

text \<open>
  Streams carry whole frames: on every path that is still active, the bytes that
  \<open>sendTUNPackets\<close> put on the stream are the frames of some of the allowed packets,
  complete and in the order in which they were read.
\<close>

theorem active_streams_carry_whole_frames:
  assumes "path_set_ok (cs_paths s)" "send_tun_packets env pol reads s = (s', fin)"
    "q \<in> set (cps_paths (cs_paths s'))"
  shows "\<exists>ps. subseq ps (filter (allow pol) (read_packets reads)) \<and>
    wire (cp_stream q) (io_trace s') = wire (cp_stream q) (io_trace s) @ concat (map frame_bytes ps)"
proof -
  have s': "s' = fst (device_pump env pol (send_packet env) 0 reads s)"
    using assms(2) by (simp add: send_tun_packets_def)
  have "cp_stream q \<in> active_streams s'" using assms(3) by (simp add: active_streams_def)
  then show ?thesis
    unfolding s' using client_sender.pump_wire [OF assms(1)] by blast
qed

theorem active_streams_carry_whole_frames_witness:
  "\<exists>ps. subseq ps [[1, 2, 3]] \<and> wire 10 (io_trace after_one_packet) = concat (map frame_bytes ps)"
proof -
  have "example_path 0 10 \<in> set (cps_paths (cs_paths after_one_packet))"
    by (simp add: after_one_packet_def new_client_path_set_def)
  from active_streams_carry_whole_frames [OF two_paths_ok example_run this] show ?thesis
    by (simp add: two_paths_def MaxFrameSize_def allow_def example_path_def)
qed

text \<open>
  (C18) No denied packet leaves the client: everything \<open>sendTUNPackets\<close> offers to any
  stream, whether the write succeeds or not, is the header or the payload of the frame of
  a packet that the policy allows.
\<close>

theorem denied_packets_never_leave:
  assumes "path_set_ok (cs_paths s)" "send_tun_packets env pol reads s = (s', fin)"
    "StreamWrite stream bs err \<in> set (new_events s s')"
  shows "\<exists>p. frame_ok p \<and> allow pol p \<and> (bs = be32 (of_nat (length p)) \<or> bs = p)"
proof -
  have "StreamWrite stream bs err \<in>
      set (new_events s (fst (device_pump env pol (send_packet env) 0 reads s)))"
    using assms(2,3) by (simp add: send_tun_packets_def)
  from client_sender.pump_writes [OF assms(1) this] show ?thesis by simp
qed

theorem denied_packets_never_leave_witness:
  "\<exists>p. frame_ok p \<and> allow \<lparr>allowedCIDR = None\<rparr> p \<and>
     ([0, 0, 0, 3] = be32 (of_nat (length p)) \<or> [0, 0, 0, 3] = p)"
proof -
  have "StreamWrite 10 [0, 0, 0, 3] None \<in> set (new_events (two_paths []) after_one_packet)"
    by (simp add: new_events_def two_paths_def after_one_packet_def)
  from denied_packets_never_leave [OF two_paths_ok example_run this] show ?thesis .
qed

text \<open>
  Receiving: with a device that accepts every packet, the receiver of a path hands the
  device exactly the packets of the stream that the policy allows, in order, counts those
  as received and the others as dropped, and then takes its own path out of the set.
\<close>

theorem receiver_delivers_allowed_packets:
  assumes "device_accepts env" "receive_path_packets env pol path r s = (s', fin)"
  shows "fin = Stopped \<and>
    delivered (io_trace s') = delivered (io_trace s) @ filter (allow pol) (fst (read_frames r)) \<and>
    rxPackets (io_ctrs s') = rxPackets (io_ctrs s) + of_nat (length (filter (allow pol) (fst (read_frames r)))) \<and>
    droppedPackets (io_ctrs s') = droppedPackets (io_ctrs s) +
      of_nat (length (filter (\<lambda>p. \<not> allow pol p) (fst (read_frames r)))) \<and>
    cs_paths s' = snd (cps_remove (cs_paths s) (cp_stream path))"
proof -
  obtain s1 fin1 where fp: "frame_pump env pol client_quiet (cp_stream path) r s = (s1, fin1)" by fastforce
  have cs: "cs_paths s1 = cs_paths s"
    using frame_pump_frame [where env = env and pol = pol and quiet = client_quiet and st = "cp_stream path" and r = r and s = s] fp
    by (intro cs_paths_io) simp
  have "s' = remove_and_close (cp_stream path) s1" "fin = fin1"
    using assms(2) fp by (simp_all add: receive_path_packets_def)
  with frame_pump_accepting [OF assms(1), where pol = pol and quiet = client_quiet and st = "cp_stream path" and r = r and s = s] fp cs
    remove_and_close_facts [where st = "cp_stream path" and s = s1]
  show ?thesis by simp
qed

theorem receiver_delivers_allowed_packets_witness:
  "delivered (io_trace (fst (receive_path_packets calm_env \<lparr>allowedCIDR = None\<rparr> (example_path 0 10)
     \<lparr>chunks = [[0, 0, 0, 1, 5]], end_err = io_eof, eager = False\<rparr> (two_paths [])))) = [[5]]"
proof -
  let ?r = "\<lparr>chunks = [[0, 0, 0, 1, 5]], end_err = io_eof, eager = False\<rparr>"
  have "device_accepts calm_env" by (simp add: device_accepts_def calm_env_def)
  moreover have "fst (read_frames ?r) = [[5]]"
  proof -
    have "list_all frame_ok [[5]]" "content ?r = concat (map frame_bytes [[5]]) @ []"
      by (simp_all add: frame_ok_def MaxFrameSize_def content_def frame_bytes_def be32_def)
    then obtain r' where r': "content r' = []" "read_frames ?r = ([[5]] @ fst (read_frames r'), snd (read_frames r'))"
      using read_frames_encoded by blast
    have "fst (read_frames r') = []"
      using read_frame_cases [of r'] r'(1) by (auto simp: read_frames.simps [of r'] frame_result_def)
    with r'(2) show ?thesis by simp
  qed
  ultimately show ?thesis
    using receiver_delivers_allowed_packets [OF _ surjective_pairing,
        of calm_env "\<lparr>allowedCIDR = None\<rparr>" "example_path 0 10" ?r "two_paths []"]
    by (simp add: allow_def two_paths_def)
qed

end
