(* ===== verification/Systems.thy ===== *)
theory Systems
  imports Main
begin

text \<open>
  Step relations and what is proved about all their runs at once.  The interleaved models of
  the client and of the server (Client_System, Client_Wire, Server_System) interpret these
  locales, so that each of them is left with one proof per kind of step.
\<close>

lemma steps_embed:
  \<comment> \<open>a run of one component is a run of the system around it\<close>
  "r\<^sup>*\<^sup>* a b \<Longrightarrow> (\<And>x y. r x y \<Longrightarrow> s (f x) (f y)) \<Longrightarrow> s\<^sup>*\<^sup>* (f a) (f b)"
  by (induction rule: rtranclp_induct) (auto intro: rtranclp.rtrancl_into_rtrancl)

section \<open>Invariants\<close>

locale step_invariant =
  fixes step :: "'y \<Rightarrow> 'y \<Rightarrow> bool"
    and inv :: "'y \<Rightarrow> bool"
  assumes step_inv: "inv y \<Longrightarrow> step y z \<Longrightarrow> inv z"
begin

lemma steps_inv: "step\<^sup>*\<^sup>* y z \<Longrightarrow> inv y \<Longrightarrow> inv z"
  by (induction rule: rtranclp_induct) (auto intro: step_inv)

lemma steps_relate:
  assumes "\<And>y z. inv y \<Longrightarrow> step y z \<Longrightarrow> R y z" "reflp R" "transp R" "step\<^sup>*\<^sup>* y z" "inv y"
  shows "R y z"
  using assms(4,5)
proof (induction rule: rtranclp_induct)
  case base
  then show ?case using assms(2) by (simp add: reflp_def)
next
  case (step x z)
  then have "R y x" "R x z" using steps_inv assms(1) by simp_all
  then show ?case by (rule transpD [OF assms(3)])
qed

end

section \<open>Parts of a system\<close>

text \<open>
  A system that contains another: each of its steps leaves the part alone or is a step of
  it.  Then its runs are runs of the part, and the part keeps its invariants.
\<close>

locale system_part =
  fixes whole_step :: "'y \<Rightarrow> 'y \<Rightarrow> bool"
    and part_step :: "'x \<Rightarrow> 'x \<Rightarrow> bool"
    and part :: "'y \<Rightarrow> 'x"
  assumes part_moves: "whole_step y z \<Longrightarrow> part z = part y \<or> part_step (part y) (part z)"
begin

lemma part_steps: "whole_step\<^sup>*\<^sup>* y z \<Longrightarrow> part_step\<^sup>*\<^sup>* (part y) (part z)"
proof (induction rule: rtranclp_induct)
  case (step x z)
  then show ?case using part_moves [OF step(2)] by (auto intro: rtranclp.rtrancl_into_rtrancl)
qed simp

end

locale invariant_part = system_part whole_step part_step part + inner: step_invariant part_step inv
  for whole_step :: "'y \<Rightarrow> 'y \<Rightarrow> bool" and part_step :: "'x \<Rightarrow> 'x \<Rightarrow> bool"
    and part :: "'y \<Rightarrow> 'x" and inv :: "'x \<Rightarrow> bool"

sublocale invariant_part \<subseteq> outer: step_invariant whole_step "\<lambda>y. inv (part y)"
proof
  show "inv (part z)" if "inv (part y)" "whole_step y z" for y z
    using part_moves [OF that(2)] inner.step_inv that(1) by metis
qed

end
