(* ===== verification/Client_System.thy ===== *)
theory Client_System
  imports Client_Tun Systems
begin

text \<open>
  The goroutines of \<open>pumpTUN\<close> in \<open>internal/quictransport/client.go\<close> interleaved: the
  sender, one receiver per started path, and one redial loop per configured path share the
  path set.  The methods of the set hold its mutex and are the atomic steps; between them
  every other goroutine may run.  What a goroutine holds in a local variable between two
  steps is its program point here.  Times are arbitrary.  The last step is the return of
  \<open>pumpTUN\<close>, which cancels the context and closes a snapshot of the paths while the other
  goroutines are still on their way out; the invariants speak about the client before it.
\<close>

section \<open>States and steps\<close>

datatype sender_point =
    Waiting                      \<comment> \<open>before \<open>nextPath\<close>\<close>
  | Writing client_path          \<comment> \<open>in \<open>WriteFrame\<close>\<close>
  | Failed_Write client_path     \<comment> \<open>before \<open>markFailure\<close>\<close>
  | Marked client_path           \<comment> \<open>before \<open>remove\<close>\<close>
  | Closing client_path          \<comment> \<open>before \<open>closeClientPath\<close>\<close>

datatype redial_point =
    Polling                      \<comment> \<open>before \<open>hasPathID\<close>\<close>
  | Dialling                     \<comment> \<open>in \<open>dialClientPath\<close>\<close>
  | Dialled client_path          \<comment> \<open>before \<open>add\<close>\<close>
  | Starting client_path         \<comment> \<open>before the receiver is started\<close>

record client_system =
  cy_set :: client_path_set
  cy_sender :: sender_point
  cy_receivers :: "client_path list"
  cy_redial :: "int \<Rightarrow> redial_point"
  cy_closing :: "client_path list"  \<comment> \<open>removed by a receiver or replaced, not yet closed\<close>
  cy_closed :: "nat list"           \<comment> \<open>streams closed so far\<close>
  cy_used :: "nat set"              \<comment> \<open>streams opened so far\<close>
  cy_stopped :: bool                \<comment> \<open>\<open>pumpTUN\<close> has returned\<close>

definition start_system :: "client_path list \<Rightarrow> client_system" where
  "start_system ps = \<lparr>cy_set = new_client_path_set ps, cy_sender = Waiting, cy_receivers = ps,
     cy_redial = (\<lambda>_. Polling), cy_closing = [], cy_closed = [], cy_used = cp_stream ` set ps, cy_stopped = False\<rparr>"

inductive sender_step :: "client_system \<Rightarrow> client_system \<Rightarrow> bool" where
  \<comment> \<open>the loop of \<open>sendTUNPackets\<close> that looks for a path for one packet\<close>
  snd_pick: "cy_sender y = Waiting \<Longrightarrow> cps_next_path (cy_set y) now = (Some p, ps) \<Longrightarrow>
    sender_step y (y\<lparr>cy_set := ps, cy_sender := Writing p\<rparr>)"
| snd_write_ok: "cy_sender y = Writing p \<Longrightarrow>
    sender_step y (y\<lparr>cy_set := cps_mark_success (cy_set y) (cp_id p), cy_sender := Waiting\<rparr>)"
| snd_write_fails: "cy_sender y = Writing p \<Longrightarrow> sender_step y (y\<lparr>cy_sender := Failed_Write p\<rparr>)"
| snd_mark_failure: "cy_sender y = Failed_Write p \<Longrightarrow>
    sender_step y (y\<lparr>cy_set := snd (cps_mark_failure (cy_set y) now (cp_id p)), cy_sender := Marked p\<rparr>)"
| snd_sender_removes: "cy_sender y = Marked p \<Longrightarrow> cps_remove (cy_set y) (cp_stream p) = (Some q, ps) \<Longrightarrow>
    sender_step y (y\<lparr>cy_set := ps, cy_sender := Closing q\<rparr>)"
| snd_sender_too_late: "cy_sender y = Marked p \<Longrightarrow> cps_remove (cy_set y) (cp_stream p) = (None, ps) \<Longrightarrow>
    sender_step y (y\<lparr>cy_set := ps, cy_sender := Waiting\<rparr>)"
| snd_sender_closes: "cy_sender y = Closing q \<Longrightarrow>
    sender_step y (y\<lparr>cy_closed := cp_stream q # cy_closed y, cy_sender := Waiting\<rparr>)"

inductive receiver_step :: "client_system \<Rightarrow> client_system \<Rightarrow> bool" where
  \<comment> \<open>the end of \<open>receivePathPackets\<close>; a removed path is closed later, by whoever removed it\<close>
  rcv_receiver_removes: "cy_receivers y = rs @ p # rs' \<Longrightarrow> cps_remove (cy_set y) (cp_stream p) = (Some q, ps) \<Longrightarrow>
    receiver_step y (y\<lparr>cy_set := ps, cy_receivers := rs @ rs', cy_closing := q # cy_closing y\<rparr>)"
| rcv_receiver_too_late: "cy_receivers y = rs @ p # rs' \<Longrightarrow> cps_remove (cy_set y) (cp_stream p) = (None, ps) \<Longrightarrow>
    receiver_step y (y\<lparr>cy_set := ps, cy_receivers := rs @ rs'\<rparr>)"
| rcv_closes: "cy_closing y = qs @ q # qs' \<Longrightarrow>
    receiver_step y (y\<lparr>cy_closing := qs @ qs', cy_closed := cp_stream q # cy_closed y\<rparr>)"

inductive redial_step :: "int set \<Rightarrow> client_system \<Rightarrow> client_system \<Rightarrow> bool" for specs :: "int set" where
  \<comment> \<open>the loop of \<open>reconnectClientPath\<close>\<close>
  red_finds_missing: "i \<in> specs \<Longrightarrow> \<not> cy_stopped y \<Longrightarrow> cy_redial y i = Polling \<Longrightarrow>
    \<not> cps_has_path_id (cy_set y) i \<Longrightarrow>
    redial_step specs y (y\<lparr>cy_redial := (cy_redial y)(i := Dialling)\<rparr>)"
| red_dial_fails: "cy_redial y i = Dialling \<Longrightarrow>
    redial_step specs y (y\<lparr>cy_redial := (cy_redial y)(i := Polling)\<rparr>)"
| red_dials: "cy_redial y i = Dialling \<Longrightarrow> cp_id p = i \<Longrightarrow> cp_stream p \<notin> cy_used y \<Longrightarrow>
    redial_step specs y (y\<lparr>cy_redial := (cy_redial y)(i := Dialled p), cy_used := insert (cp_stream p) (cy_used y)\<rparr>)"
| red_adds: "cy_redial y i = Dialled p \<Longrightarrow> cps_add (cy_set y) p = (None, ps) \<Longrightarrow>
    redial_step specs y (y\<lparr>cy_set := ps, cy_redial := (cy_redial y)(i := Starting p)\<rparr>)"
| red_replaces: "cy_redial y i = Dialled p \<Longrightarrow> cps_add (cy_set y) p = (Some old, ps) \<Longrightarrow>
    redial_step specs y (y\<lparr>cy_set := ps, cy_redial := (cy_redial y)(i := Starting p),
      cy_closing := old # cy_closing y\<rparr>)"
| red_starts: "cy_redial y i = Starting p \<Longrightarrow>
    redial_step specs y (y\<lparr>cy_receivers := p # cy_receivers y, cy_redial := (cy_redial y)(i := Polling)\<rparr>)"

inductive pump_returns :: "client_system \<Rightarrow> client_system \<Rightarrow> bool" where
  \<comment> \<open>the deferred function of \<open>pumpTUN\<close>\<close>
  pmp_stops: "\<not> cy_stopped y \<Longrightarrow>
    pump_returns y (y\<lparr>cy_stopped := True,
      cy_closed := map cp_stream (cps_snapshot (cy_set y)) @ cy_closed y\<rparr>)"

inductive sys_step :: "int set \<Rightarrow> client_system \<Rightarrow> client_system \<Rightarrow> bool" for specs :: "int set" where
  sender_moves: "sender_step y z \<Longrightarrow> sys_step specs y z"
| receiver_moves: "receiver_step y z \<Longrightarrow> sys_step specs y z"
| redial_moves: "redial_step specs y z \<Longrightarrow> sys_step specs y z"
| pump_moves: "pump_returns y z \<Longrightarrow> sys_step specs y z"

lemmas pick = snd_pick [THEN sender_moves]
lemmas write_ok = snd_write_ok [THEN sender_moves]
lemmas write_fails = snd_write_fails [THEN sender_moves]
lemmas mark_failure = snd_mark_failure [THEN sender_moves]
lemmas sender_removes = snd_sender_removes [THEN sender_moves]
lemmas sender_too_late = snd_sender_too_late [THEN sender_moves]
lemmas sender_closes = snd_sender_closes [THEN sender_moves]
lemmas receiver_removes = rcv_receiver_removes [THEN receiver_moves]
lemmas receiver_too_late = rcv_receiver_too_late [THEN receiver_moves]
lemmas closes = rcv_closes [THEN receiver_moves]
lemmas finds_missing = red_finds_missing [THEN redial_moves]
lemmas dial_fails = red_dial_fails [THEN redial_moves]
lemmas dials = red_dials [THEN redial_moves]
lemmas adds = red_adds [THEN redial_moves]
lemmas replaces = red_replaces [THEN redial_moves]
lemmas starts = red_starts [THEN redial_moves]

inductive reachable :: "int set \<Rightarrow> client_path list \<Rightarrow> client_system \<Rightarrow> bool"
  for specs :: "int set" and ps :: "client_path list" where
  reach_start: "reachable specs ps (start_system ps)"
| reach_step: "reachable specs ps y \<Longrightarrow> sys_step specs y z \<Longrightarrow> reachable specs ps z"

section \<open>The invariant\<close>

fun sender_closing :: "sender_point \<Rightarrow> client_path list" where
  "sender_closing (Closing q) = [q]"
| "sender_closing _ = []"

definition retired :: "client_system \<Rightarrow> nat list" where
  \<comment> \<open>the streams of removed paths, closed or about to be\<close>
  "retired y = map cp_stream (sender_closing (cy_sender y)) @ map cp_stream (cy_closing y) @ cy_closed y"

definition active :: "client_system \<Rightarrow> client_path set" where
  "active y = set (cps_paths (cy_set y))"

definition streams_inv :: "client_system \<Rightarrow> bool" where
  \<comment> \<open>no stream is retired twice or while it is active, and none is unknown\<close>
  "streams_inv y \<longleftrightarrow> path_set_ok (cy_set y) \<and> distinct (retired y) \<and>
     cp_stream ` active y \<inter> set (retired y) = {} \<and>
     cp_stream ` active y \<union> set (retired y) \<subseteq> cy_used y"

definition redial_inv :: "int set \<Rightarrow> client_system \<Rightarrow> bool" where
  \<comment> \<open>a redial loop that left its poll owns its path id; what it dialled is new\<close>
  "redial_inv specs y \<longleftrightarrow> cp_id ` active y \<subseteq> specs \<and>
     (\<forall>i. cy_redial y i = Dialling \<longrightarrow> i \<in> specs \<and> i \<notin> cp_id ` active y) \<and>
     (\<forall>i p. cy_redial y i = Dialled p \<longrightarrow> i \<in> specs \<and> cp_id p = i \<and> i \<notin> cp_id ` active y \<and>
        cp_stream p \<in> cy_used y - cp_stream ` active y - set (retired y)) \<and>
     (\<forall>i p. cy_redial y i = Starting p \<longrightarrow> i \<in> specs \<and> cp_id p = i) \<and>
     (\<forall>i j p q. cy_redial y i = Dialled p \<longrightarrow> cy_redial y j = Dialled q \<longrightarrow>
        cp_stream p = cp_stream q \<longrightarrow> i = j)"

definition receiver_inv :: "client_system \<Rightarrow> bool" where
  \<comment> \<open>every active path is read, or its redial loop is about to start its receiver\<close>
  "receiver_inv y \<longleftrightarrow>
     (\<forall>p \<in> active y. p \<in> set (cy_receivers y) \<or> cy_redial y (cp_id p) = Starting p)"

lemma remove_found:
  assumes "path_set_ok s" "cps_remove s st = (Some q, s')"
  shows "q \<in> set (cps_paths s)" "cp_stream q = st" "set (cps_paths s') = set (cps_paths s) - {q}"
    "path_set_ok s'"
proof -
  have fs: "fst (cps_remove s st) = Some q" "snd (cps_remove s st) = s'" using assms(2) by simp_all
  show q: "q \<in> set (cps_paths s)" "cp_stream q = st"
    using remove_Some(1,2) [OF fs(1)] .
  show "set (cps_paths s') = set (cps_paths s) - {q}"
    using remove_member(2) [OF assms(1) q(1)] q(2) fs(2) by simp
  show "path_set_ok s'" using remove_ok [OF assms(1), of st] fs(2) by simp
qed

lemma remove_missed:
  assumes "cps_remove s st = (None, s')"
  shows "s' = s" "st \<notin> cp_stream ` set (cps_paths s)"
proof -
  have "fst (cps_remove s st) = None" "snd (cps_remove s st) = s'" using assms by simp_all
  then show "s' = s" "st \<notin> cp_stream ` set (cps_paths s)"
    using remove_unchanged remove_None by metis+
qed

lemma add_new:
  assumes "path_set_ok s" "cp_stream p \<notin> cp_stream ` set (cps_paths s)" "cps_add s p = (None, s')"
  shows "set (cps_paths s') = insert p (set (cps_paths s))" "path_set_ok s'"
proof -
  show "set (cps_paths s') = insert p (set (cps_paths s))"
    using assms(3) by (auto simp: cps_add_def split: option.splits)
  show "path_set_ok s'" using add_ok [OF assms(1,2)] assms(3) by simp
qed

lemma add_replaces:
  assumes "cps_add s p = (Some old, s')"
  shows "cp_id p \<in> cp_id ` set (cps_paths s)"
proof -
  obtain i where "first_index (\<lambda>c. cp_id c = cp_id p) (cps_paths s) = Some i"
    using assms by (auto simp: cps_add_def split: option.splits)
  from first_index_Some [OF this] show ?thesis by (metis image_eqI nth_mem)
qed

definition sys_inv :: "int set \<Rightarrow> client_system \<Rightarrow> bool" where
  "sys_inv specs y \<longleftrightarrow> streams_inv y \<and> redial_inv specs y \<and> receiver_inv y"

lemmas inv_defs = sys_inv_def streams_inv_def redial_inv_def receiver_inv_def retired_def active_def

lemma start_inv:
  assumes "distinct (map cp_id ps)" "distinct (map cp_stream ps)" "cp_id ` set ps \<subseteq> specs"
  shows "sys_inv specs (start_system ps)"
proof -
  have "cps_paths (new_client_path_set ps) = ps" by (simp add: new_client_path_set_def)
  then show ?thesis
    using assms(3) path_set_ok_new [OF assms(1,2)] by (simp add: inv_defs start_system_def)
qed

lemma retire_inv:
  \<comment> \<open>a path moves from the set to the retired streams\<close>
  assumes "sys_inv specs y" "cps_remove (cy_set y) st = (Some q, ps)"
    "cy_set z = ps" "set (retired z) = insert (cp_stream q) (set (retired y))"
    "distinct (retired z) \<longleftrightarrow> distinct (cp_stream q # retired y)"
    "cy_redial z = cy_redial y" "cy_used z = cy_used y"
    "set (cy_receivers y) - {p. cp_stream p = st} \<subseteq> set (cy_receivers z)"
  shows "sys_inv specs z"
proof -
  have ok: "path_set_ok (cy_set y)" using assms(1) by (simp add: inv_defs)
  note r = remove_found [OF ok assms(2)]
  have act: "active z = active y - {q}" using r(3) assms(3) by (simp add: active_def)
  have q: "q \<in> active y" using r(1) by (simp add: active_def)
  have other: "cp_stream p \<noteq> cp_stream q" if "p \<in> active z" for p
    using that act q stream_of_active [OF ok] by (auto simp: active_def)
  have sp: "cp_stream ` active z \<inter> set (retired z) = {}"
    using assms(1) act other unfolding assms(4) sys_inv_def streams_inv_def by blast
  have old: "distinct (retired y)" "cp_stream ` active y \<inter> set (retired y) = {}"
    "cp_stream ` active y \<union> set (retired y) \<subseteq> cy_used y"
    using assms(1) by (simp_all add: sys_inv_def streams_inv_def)
  have "distinct (retired z)" using old(1,2) q assms(5) by auto
  moreover have "cp_stream ` active z \<union> set (retired z) \<subseteq> cy_used z"
    using old(3) q act assms(4,7) by auto
  ultimately have "streams_inv z"
    using r(4) sp assms(3) by (simp add: streams_inv_def)
  moreover have "redial_inv specs z"
    using assms(1) q act unfolding sys_inv_def redial_inv_def assms(4,6,7) by blast
  moreover have "receiver_inv z"
    using assms(1,6,8) act other r(2) by (fastforce simp: sys_inv_def receiver_inv_def)
  ultimately show ?thesis by (simp add: sys_inv_def)
qed

lemma sys_invD:
  assumes "sys_inv specs y"
  shows "path_set_ok (cy_set y)" "distinct (retired y)" "cp_stream ` active y \<inter> set (retired y) = {}"
    "cp_stream ` active y \<subseteq> cy_used y" "set (retired y) \<subseteq> cy_used y" "cp_id ` active y \<subseteq> specs"
    "cy_redial y i = Dialling \<Longrightarrow> i \<in> specs \<and> i \<notin> cp_id ` active y"
    "cy_redial y i = Dialled p \<Longrightarrow> i \<in> specs \<and> cp_id p = i \<and> i \<notin> cp_id ` active y \<and>
        cp_stream p \<in> cy_used y - cp_stream ` active y - set (retired y)"
    "cy_redial y i = Starting p \<Longrightarrow> i \<in> specs \<and> cp_id p = i"
    "cy_redial y i = Dialled p \<Longrightarrow> cy_redial y j = Dialled q \<Longrightarrow> cp_stream p = cp_stream q \<Longrightarrow> i = j"
    "p \<in> active y \<Longrightarrow> p \<in> set (cy_receivers y) \<or> cy_redial y (cp_id p) = Starting p"
proof -
  have s: "streams_inv y" and r: "redial_inv specs y" and v: "receiver_inv y"
    using assms by (simp_all add: sys_inv_def)
  show "path_set_ok (cy_set y)" "distinct (retired y)" "cp_stream ` active y \<inter> set (retired y) = {}"
    "cp_stream ` active y \<subseteq> cy_used y" "set (retired y) \<subseteq> cy_used y"
    using s by (simp_all add: streams_inv_def)
  note r = r [unfolded redial_inv_def]
  show "cp_id ` active y \<subseteq> specs" using r by (rule conjunct1)
  note r = r [THEN conjunct2]
  show "i \<in> specs \<and> i \<notin> cp_id ` active y" if "cy_redial y i = Dialling"
    using r [THEN conjunct1] that by blast
  note r = r [THEN conjunct2]
  show "i \<in> specs \<and> cp_id p = i \<and> i \<notin> cp_id ` active y \<and>
        cp_stream p \<in> cy_used y - cp_stream ` active y - set (retired y)" if "cy_redial y i = Dialled p"
    using r [THEN conjunct1] that by simp
  note r = r [THEN conjunct2]
  show "i \<in> specs \<and> cp_id p = i" if "cy_redial y i = Starting p"
    using r [THEN conjunct1] that by simp
  show "i = j" if "cy_redial y i = Dialled p" "cy_redial y j = Dialled q" "cp_stream p = cp_stream q"
    using r [THEN conjunct2] that by blast
  show "p \<in> set (cy_receivers y) \<or> cy_redial y (cp_id p) = Starting p" if "p \<in> active y"
    using v that by (simp add: receiver_inv_def)
qed

lemma receiver_invI:
  assumes "sys_inv specs y" "active z = active y" "set (cy_receivers y) \<subseteq> set (cy_receivers z)"
    "\<And>p. cy_redial y (cp_id p) = Starting p \<Longrightarrow>
       cy_redial z (cp_id p) = Starting p \<or> p \<in> set (cy_receivers z)"
  shows "receiver_inv z"
  unfolding receiver_inv_def assms(2)
proof (rule ballI)
  fix p assume "p \<in> active y"
  then show "p \<in> set (cy_receivers z) \<or> cy_redial z (cp_id p) = Starting p"
    using sys_invD(11) [OF assms(1), of p] assms(3,4) by blast
qed

lemma poll_inv:
  assumes inv: "sys_inv specs y" and st: "\<And>p. cy_redial y i \<noteq> Starting p"
    and z: "z = y\<lparr>cy_redial := (cy_redial y)(i := r)\<rparr>"
    and r: "r = Polling \<or> r = Dialling \<and> i \<in> specs \<and> i \<notin> cp_id ` active y"
  shows "sys_inv specs z"
proof -
  note d = sys_invD [OF inv]
  have same: "active z = active y" "retired z = retired y" "cy_used z = cy_used y" "cy_set z = cy_set y"
    by (simp_all add: z active_def retired_def)
  have "streams_inv z" using d(1-5) by (simp add: streams_inv_def same)
  moreover have "redial_inv specs z"
    unfolding redial_inv_def same
  proof (intro conjI allI impI)
    fix j k q r' assume "cy_redial z j = Dialled q" "cy_redial z k = Dialled r'" "cp_stream q = cp_stream r'"
    then show "j = k" using d(10) [of j q k r'] r by (auto simp: z split: if_splits)
  qed (use d(6-9) r in \<open>auto simp: z split: if_splits\<close>)
  moreover have "receiver_inv z"
    using st by (intro receiver_invI [OF inv same(1)]) (auto simp: z)
  ultimately show ?thesis by (simp add: sys_inv_def)
qed

lemma dial_inv:
  assumes inv: "sys_inv specs y" and st: "cy_redial y i = Dialling" "cp_id p = i" "cp_stream p \<notin> cy_used y"
    and z: "z = y\<lparr>cy_redial := (cy_redial y)(i := Dialled p), cy_used := insert (cp_stream p) (cy_used y)\<rparr>"
  shows "sys_inv specs z"
proof -
  note d = sys_invD [OF inv]
  have same: "active z = active y" "retired z = retired y" "cy_set z = cy_set y"
    "cy_used z = insert (cp_stream p) (cy_used y)"
    by (simp_all add: z active_def retired_def)
  have fresh: "cp_stream p \<notin> cp_stream ` active y" "cp_stream p \<notin> set (retired y)"
    using st(3) d(4,5) by blast+
  have other: "cp_stream q \<noteq> cp_stream p" if "cy_redial y j = Dialled q" for j q
    using d(8) [OF that] st(3) by auto
  have "streams_inv z" using d(1-5) by (auto simp: streams_inv_def same)
  moreover have "redial_inv specs z"
    unfolding redial_inv_def same
  proof (intro conjI allI impI)
    fix j k q r assume "cy_redial z j = Dialled q" "cy_redial z k = Dialled r" "cp_stream q = cp_stream r"
    then show "j = k" using d(10) [of j q k r] other by (auto simp: z split: if_splits)
  qed (use d(6-9) st fresh in \<open>auto simp: z split: if_splits\<close>)
  moreover have "receiver_inv z"
    using st(1) by (intro receiver_invI [OF inv same(1)]) (auto simp: z)
  ultimately show ?thesis by (simp add: sys_inv_def)
qed

lemma add_inv:
  assumes inv: "sys_inv specs y" and st: "cy_redial y i = Dialled p" "cps_add (cy_set y) p = (None, ps)"
    and z: "z = y\<lparr>cy_set := ps, cy_redial := (cy_redial y)(i := Starting p)\<rparr>"
  shows "sys_inv specs z"
proof -
  note d = sys_invD [OF inv]
  note p = d(8) [OF st(1)]
  have fresh: "cp_stream p \<notin> cp_stream ` set (cps_paths (cy_set y))" using p by (auto simp: active_def)
  note a = add_new [OF d(1) fresh st(2)]
  have same: "active z = insert p (active y)" "retired z = retired y" "cy_used z = cy_used y"
    using a(1) by (simp_all add: z active_def retired_def)
  have "streams_inv z" using d(1-5) p a(2) by (auto simp: streams_inv_def same) (simp_all add: z)
  moreover have "redial_inv specs z"
    unfolding redial_inv_def same
  proof (intro conjI allI impI)
    fix j k q r assume "cy_redial z j = Dialled q" "cy_redial z k = Dialled r" "cp_stream q = cp_stream r"
    then show "j = k" using d(10) [of j q k r] by (auto simp: z split: if_splits)
  next
    fix j q assume "cy_redial z j = Dialled q"
    then have j: "cy_redial y j = Dialled q" "j \<noteq> i" by (auto simp: z split: if_splits)
    have "cp_stream q \<noteq> cp_stream p" using d(10) [OF j(1) st(1)] j(2) by blast
    then show "j \<in> specs" "cp_id q = j" "j \<notin> cp_id ` insert p (active y)"
      "cp_stream q \<in> cy_used y - cp_stream ` insert p (active y) - set (retired y)"
      using d(8) [OF j(1)] j(2) p by auto
  qed (use d(6,7,9) p in \<open>auto simp: z split: if_splits\<close>)
  moreover have "receiver_inv z"
    unfolding receiver_inv_def same
  proof (rule ballI)
    fix q assume "q \<in> insert p (active y)"
    then show "q \<in> set (cy_receivers z) \<or> cy_redial z (cp_id q) = Starting q"
      using d(11) [of q] p st(1) by (cases "q = p") (auto simp: z)
  qed
  ultimately show ?thesis by (simp add: sys_inv_def)
qed

lemma start_receiver_inv:
  assumes inv: "sys_inv specs y" and st: "cy_redial y i = Starting p"
    and z: "z = y\<lparr>cy_receivers := p # cy_receivers y, cy_redial := (cy_redial y)(i := Polling)\<rparr>"
  shows "sys_inv specs z"
proof -
  note d = sys_invD [OF inv]
  have same: "active z = active y" "retired z = retired y" "cy_used z = cy_used y" "cy_set z = cy_set y"
    by (simp_all add: z active_def retired_def)
  have "streams_inv z" using d(1-5) by (simp add: streams_inv_def same)
  moreover have "redial_inv specs z"
    using d(6-10) unfolding redial_inv_def same by (simp add: z)
  moreover have "receiver_inv z"
    using st(1) by (intro receiver_invI [OF inv same(1)]) (auto simp: z)
  ultimately show ?thesis by (simp add: sys_inv_def)
qed

lemma sender_step_inv:
  assumes "sender_step y z" "sys_inv specs y"
  shows "sys_inv specs z"
  using assms(1)
proof (cases rule: sender_step.cases)
  case (snd_pick now p ps)
  then show ?thesis using assms(2) next_path_ok [of "cy_set y" now] next_path_paths [of "cy_set y" now]
    by (simp add: inv_defs)
next
  case (snd_sender_removes p q ps)
  show ?thesis
    by (rule retire_inv [OF assms(2) snd_sender_removes(3)])
      (use snd_sender_removes in \<open>auto simp: retired_def\<close>)
next
  case (snd_sender_too_late p ps)
  then show ?thesis using assms(2) remove_missed(1) [OF snd_sender_too_late(3)]
    by (simp add: inv_defs)
next
  case (snd_sender_closes q)
  then show ?thesis using assms(2) by (auto simp: inv_defs)
qed (use assms(2) in \<open>simp_all add: inv_defs\<close>)

lemma late_receiver_inv:
  \<comment> \<open>a receiver whose path is no longer active may go away\<close>
  assumes inv: "sys_inv specs y" and st: "cy_receivers y = rs @ p # rs'" "p \<notin> active y"
    and z: "z = y\<lparr>cy_receivers := rs @ rs'\<rparr>"
  shows "sys_inv specs z"
proof -
  have same: "active z = active y" "retired z = retired y" "cy_used z = cy_used y" "cy_set z = cy_set y"
    "cy_redial z = cy_redial y" by (simp_all add: z active_def retired_def)
  have "streams_inv z" "redial_inv specs z"
    using inv by (simp_all add: sys_inv_def streams_inv_def redial_inv_def same)
  moreover have "receiver_inv z"
    unfolding receiver_inv_def same
  proof (rule ballI)
    fix q assume "q \<in> active y"
    then show "q \<in> set (cy_receivers z) \<or> cy_redial y (cp_id q) = Starting q"
      using sys_invD(11) [OF inv, of q] st by (auto simp: z)
  qed
  ultimately show ?thesis by (simp add: sys_inv_def)
qed

lemma receiver_step_inv:
  assumes "receiver_step y z" "sys_inv specs y"
  shows "sys_inv specs z"
  using assms(1)
proof (cases rule: receiver_step.cases)
  case (rcv_receiver_removes rs p rs' q ps)
  show ?thesis
    by (rule retire_inv [OF assms(2) rcv_receiver_removes(3)])
      (use rcv_receiver_removes in \<open>auto simp: retired_def\<close>)
next
  case (rcv_receiver_too_late rs p rs' ps)
  note missed = remove_missed [OF rcv_receiver_too_late(3)]
  show ?thesis
  proof (rule late_receiver_inv [OF assms(2) rcv_receiver_too_late(2)])
    show "p \<notin> active y" using missed(2) by (auto simp: active_def)
    show "z = y\<lparr>cy_receivers := rs @ rs'\<rparr>" unfolding rcv_receiver_too_late(1) missed(1) by simp
  qed
next
  case (rcv_closes qs q qs')
  then show ?thesis using assms(2) by (auto simp: inv_defs)
qed

lemma redial_step_inv:
  assumes "redial_step specs y z" "sys_inv specs y"
  shows "sys_inv specs z"
  using assms(1)
proof (cases rule: redial_step.cases)
  case (red_finds_missing i)
  then have "i \<notin> cp_id ` active y" by (auto simp: active_def cps_has_path_id_def list_ex_iff)
  with red_finds_missing show ?thesis by (intro poll_inv [OF assms(2), of i z Dialling]) simp_all
next
  case (red_dial_fails i)
  then show ?thesis by (intro poll_inv [OF assms(2), of i z Polling]) simp_all
next
  case (red_dials i p)
  then show ?thesis by (intro dial_inv [OF assms(2)])
next
  case (red_adds i p ps)
  then show ?thesis by (intro add_inv [OF assms(2)])
next
  case (red_replaces i p old ps)
  then show ?thesis using assms(2) add_replaces [OF red_replaces(3)] by (simp add: inv_defs)
next
  case (red_starts i p)
  then show ?thesis by (intro start_receiver_inv [OF assms(2)])
qed

inductive_simps pump_returns_iff: "pump_returns y z"
inductive_simps sys_step_iff: "sys_step specs y z"

lemma sys_step_inv:
  assumes "sys_step specs y z" "sys_inv specs y" "\<not> cy_stopped z"
  shows "sys_inv specs z"
  using assms sender_step_inv receiver_step_inv redial_step_inv by (auto simp: sys_step_iff pump_returns_iff)

section \<open>Reachable states\<close>

definition proper_start :: "int set \<Rightarrow> client_path list \<Rightarrow> bool" where
  "proper_start specs ps \<longleftrightarrow>
     distinct (map cp_id ps) \<and> distinct (map cp_stream ps) \<and> cp_id ` set ps \<subseteq> specs"

inductive_cases sender_stepE: "sender_step y z"
inductive_cases receiver_stepE: "receiver_step y z"
inductive_cases redial_stepE: "redial_step specs y z"

lemmas stepEs = sender_stepE receiver_stepE redial_stepE
lemmas step_iffs = sys_step_iff pump_returns_iff

lemma stays_stopped: "sys_step specs y z \<Longrightarrow> cy_stopped y \<Longrightarrow> cy_stopped z"
  by (auto simp: step_iffs elim!: stepEs)

definition running_inv :: "int set \<Rightarrow> client_system \<Rightarrow> bool" where
  "running_inv specs y \<longleftrightarrow> cy_stopped y \<or> sys_inv specs y"

interpretation running: step_invariant "sys_step specs" "running_inv specs" for specs
proof
  show "running_inv specs z" if "running_inv specs y" "sys_step specs y z" for specs y z
    using that(1) stays_stopped [OF that(2)] sys_step_inv [OF that(2)] by (auto simp: running_inv_def)
qed

interpretation dialled: step_invariant "sys_step specs" "\<lambda>y. finite (cy_used y)" for specs
  by unfold_locales (auto simp: step_iffs elim!: stepEs)

lemma reachable_iff: "reachable specs ps y \<longleftrightarrow> (sys_step specs)\<^sup>*\<^sup>* (start_system ps) y"
proof
  show "(sys_step specs)\<^sup>*\<^sup>* (start_system ps) y" if "reachable specs ps y"
    using that by induction (auto intro: rtranclp.rtrancl_into_rtrancl)
  show "reachable specs ps y" if "(sys_step specs)\<^sup>*\<^sup>* (start_system ps) y"
    using that by (induction rule: rtranclp_induct) (auto intro: reachable.intros)
qed

lemma reachable_inv:
  assumes "reachable specs ps y" "proper_start specs ps" "\<not> cy_stopped y"
  shows "sys_inv specs y"
proof -
  have "running_inv specs (start_system ps)"
    using start_inv assms(2) by (simp add: running_inv_def proper_start_def)
  then show ?thesis using running.steps_inv assms(1,3) by (auto simp: reachable_iff running_inv_def)
qed

lemma reachable_used: "reachable specs ps y \<Longrightarrow> finite (cy_used y)"
  using dialled.steps_inv by (simp add: reachable_iff start_system_def)

text \<open>
  (C3) While the client runs, in every interleaving of its goroutines, no stream is closed
  twice, no active path has a closed stream, and two active paths share neither an id nor
  a stream.
\<close>
theorem no_active_path_is_closed:
  assumes "reachable specs ps y" "proper_start specs ps" "\<not> cy_stopped y"
  shows "distinct (cy_closed y) \<and> cp_stream ` active y \<inter> set (cy_closed y) = {} \<and>
     path_set_ok (cy_set y)"
  using sys_invD(1,2,3) [OF reachable_inv [OF assms]] by (auto simp: retired_def)

text \<open>
  (C15) While the client runs, every active path is read by a receiver, or the redial loop
  that added it is about to start one: no path is written to whose replies nobody reads.
\<close>
theorem every_active_path_is_read:
  assumes "reachable specs ps y" "proper_start specs ps" "\<not> cy_stopped y" "p \<in> active y"
  shows "p \<in> set (cy_receivers y) \<or> cy_redial y (cp_id p) = Starting p"
  using sys_invD(11) [OF reachable_inv [OF assms(1-3)] assms(4)] .

text \<open>
  While the client runs, a redial loop never finds its path id taken when it adds the
  path it dialled: the branch that closes a replaced path is dead code.
\<close>
theorem redial_never_replaces:
  assumes "reachable specs ps y" "proper_start specs ps" "\<not> cy_stopped y"
    "cy_redial y i = Dialled p"
  shows "fst (cps_add (cy_set y) p) = None"
proof (cases "cps_add (cy_set y) p")
  case (Pair r ps')
  note d = sys_invD(8) [OF reachable_inv [OF assms(1-3)] assms(4)]
  have "r \<noteq> Some old" for old using d add_replaces [of "cy_set y" p old ps'] Pair by (auto simp: active_def)
  then have "r = None" by (cases r) blast+
  with Pair show ?thesis by simp
qed

definition served :: "int \<Rightarrow> client_system \<Rightarrow> bool" where
  \<comment> \<open>a path of this id is active and read\<close>
  "served i y \<longleftrightarrow> (\<exists>p \<in> active y. cp_id p = i \<and> p \<in> set (cy_receivers y))"

lemma reachable_steps: "(sys_step specs)\<^sup>*\<^sup>* y z \<Longrightarrow> reachable specs ps y \<Longrightarrow> reachable specs ps z"
  unfolding reachable_iff by (rule rtranclp_trans)

lemma serve_dialled:
  assumes "reachable specs ps y" "proper_start specs ps" "\<not> cy_stopped y" "cy_redial y i = Dialled p"
  shows "\<exists>z. (sys_step specs)\<^sup>*\<^sup>* y z \<and> served i z"
proof -
  note d = sys_invD [OF reachable_inv [OF assms(1-3)]]
  note p = d(8) [OF assms(4)]
  obtain r s where rs: "cps_add (cy_set y) p = (r, s)" by fastforce
  have "r \<noteq> Some old" for old using p add_replaces [of "cy_set y" p old s] rs by (auto simp: active_def)
  then have "r = None" by (cases r) blast+
  with rs have add: "cps_add (cy_set y) p = (None, s)" by simp
  have "set (cps_paths s) = insert p (active y)"
    using add_new(1) [OF d(1) _ add] p by (auto simp: active_def)
  moreover define y1 where "y1 = y\<lparr>cy_set := s, cy_redial := (cy_redial y)(i := Starting p)\<rparr>"
  moreover define y2 where
    "y2 = y1\<lparr>cy_receivers := p # cy_receivers y1, cy_redial := (cy_redial y1)(i := Polling)\<rparr>"
  ultimately have "served i y2" using p by (auto simp: served_def active_def)
  moreover have "sys_step specs y y1" unfolding y1_def by (rule adds [OF assms(4) add])
  moreover have "sys_step specs y1 y2" unfolding y2_def by (rule starts) (simp add: y1_def)
  ultimately show ?thesis by (blast intro: rtranclp.rtrancl_into_rtrancl)
qed

lemma serve_dialling:
  assumes "reachable specs ps y" "proper_start specs ps" "\<not> cy_stopped y" "cy_redial y i = Dialling"
  shows "\<exists>z. (sys_step specs)\<^sup>*\<^sup>* y z \<and> served i z"
proof -
  obtain st where st: "st \<notin> cy_used y" using reachable_used [OF assms(1)] infinite_UNIV_nat ex_new_if_finite by blast
  define p where "p = \<lparr>cp_id = i, cp_address = '''', cp_conn = None, cp_stream = st\<rparr>"
  define z where
    "z = y\<lparr>cy_redial := (cy_redial y)(i := Dialled p), cy_used := insert (cp_stream p) (cy_used y)\<rparr>"
  have step: "sys_step specs y z"
    unfolding z_def using assms(4) st by (intro dials) (simp_all add: p_def)
  moreover have "\<not> cy_stopped z" "cy_redial z i = Dialled p" using assms(3) by (simp_all add: z_def)
  ultimately show ?thesis
    using serve_dialled [OF reach_step [OF assms(1) step] assms(2)]
    by (blast intro: converse_rtranclp_into_rtranclp)
qed

lemma serve_polling:
  assumes "reachable specs ps y" "proper_start specs ps" "\<not> cy_stopped y" "cy_redial y i = Polling"
    "i \<in> specs"
  shows "\<exists>z. (sys_step specs)\<^sup>*\<^sup>* y z \<and> served i z"
proof (cases "cps_has_path_id (cy_set y) i")
  case True
  then obtain p where p: "p \<in> active y" "cp_id p = i"
    by (auto simp: cps_has_path_id_def list_ex_iff active_def)
  then have "served i y"
    using sys_invD(11) [OF reachable_inv [OF assms(1-3)] p(1)] assms(4) by (auto simp: served_def)
  then show ?thesis by blast
next
  case False
  define z where "z = y\<lparr>cy_redial := (cy_redial y)(i := Dialling)\<rparr>"
  have step: "sys_step specs y z"
    unfolding z_def by (rule finds_missing [OF assms(5,3,4) False])
  moreover have "\<not> cy_stopped z" "cy_redial z i = Dialling" using assms(3) by (simp_all add: z_def)
  ultimately show ?thesis
    using serve_dialling [OF reach_step [OF assms(1) step] assms(2)]
    by (blast intro: converse_rtranclp_into_rtranclp)
qed

text \<open>
  (C11) A path that was lost can always come back: from every reachable state of the running
  client, and for every configured path id, some steps lead to a state in which a path of
  this id is active and read.  No interleaving leaves the client where redialling is stuck.
\<close>
theorem lost_path_can_return:
  assumes "reachable specs ps y" "proper_start specs ps" "\<not> cy_stopped y" "i \<in> specs"
  shows "\<exists>z. (sys_step specs)\<^sup>*\<^sup>* y z \<and> served i z"
proof (cases "cy_redial y i")
  case (Starting p)
  define z where "z = y\<lparr>cy_receivers := p # cy_receivers y, cy_redial := (cy_redial y)(i := Polling)\<rparr>"
  have step: "sys_step specs y z" unfolding z_def by (rule starts [OF Starting])
  moreover have "\<not> cy_stopped z" "cy_redial z i = Polling" using assms(3) by (simp_all add: z_def)
  ultimately show ?thesis
    using serve_polling [OF reach_step [OF assms(1) step] assms(2) _ _ assms(4)]
    by (blast intro: converse_rtranclp_into_rtranclp)
qed (use serve_polling serve_dialling serve_dialled assms in blast)+

section \<open>The sequential sender refines the interleaved one\<close>

definition sim :: "client_state \<Rightarrow> client_system \<Rightarrow> bool" where
  \<comment> \<open>the same path set, the same streams closed, and the sender between two packets\<close>
  "sim s y \<longleftrightarrow> cs_paths s = cy_set y \<and> closed_streams (io_trace s) = cy_closed y \<and>
     cy_sender y = Waiting"

abbreviation simulated :: "int set \<Rightarrow> client_state \<Rightarrow> client_state \<Rightarrow> bool" where
  "simulated specs s r \<equiv> (\<forall>y. sim s y \<longrightarrow> (\<exists>z. (sys_step specs)\<^sup>*\<^sup>* y z \<and> sim r z))"

lemma pick_step:
  assumes "client_next_path env s = (Some q, s1)" "sim s y"
  obtains y1 where "sys_step specs y y1" "cy_sender y1 = Writing q" "cy_set y1 = cs_paths s1"
    "cy_closed y1 = closed_streams (io_trace s1)"
proof -
  obtain now where now: "fst (cps_next_path (cs_paths s) now) = Some q"
    "s1 = (emit (Now now) s)\<lparr>cs_paths := snd (cps_next_path (cs_paths s) now)\<rparr>"
    using assms(1) by (auto elim!: next_path_cases)
  then have "cps_next_path (cy_set y) now = (Some q, cs_paths s1)"
    using assms(2) by (simp add: sim_def prod_eq_iff)
  moreover have "cy_sender y = Waiting" using assms(2) by (simp add: sim_def)
  ultimately have "sys_step specs y (y\<lparr>cy_set := cs_paths s1, cy_sender := Writing q\<rparr>)"
    by (intro pick)
  from that [OF this] show ?thesis using assms(2) now(2) by (simp add: sim_def)
qed

lemma success_step:
  assumes "client_next_path env s = (Some q, s1)" "frame_ok p"
    "write_frame_to env (cp_stream q) p s1 = (s2, None)"
  shows "simulated specs s (count_op f (client_mark_success (cp_id q) s2))"
proof (intro allI impI)
  fix y assume "sim s y"
  from pick_step [OF assms(1) this, of specs] obtain y1 where y1: "sys_step specs y y1"
    "cy_sender y1 = Writing q" "cy_set y1 = cs_paths s1" "cy_closed y1 = closed_streams (io_trace s1)" .
  have "cs_paths s2 = cs_paths s1" using assms(3) by (intro cs_paths_io write_frame_to_frame(3))
  then have "sim (count_op f (client_mark_success (cp_id q) s2))
      (y1\<lparr>cy_set := cps_mark_success (cy_set y1) (cp_id q), cy_sender := Waiting\<rparr>)"
    using y1 write_frame_to_closes [OF assms(2,3)] by (simp add: sim_def) (simp add: client_mark_success_def)
  with y1(1) write_ok [OF y1(2), of specs]
  show "\<exists>z. (sys_step specs)\<^sup>*\<^sup>* y z \<and> sim (count_op f (client_mark_success (cp_id q) s2)) z"
    by (blast intro: rtranclp.rtrancl_into_rtrancl)
qed

lemma failure_steps:
  assumes "client_next_path env s = (Some q, s1)" "frame_ok p"
    "write_frame_to env (cp_stream q) p s1 = (s2, Some e)"
    "client_ok s2" "q \<in> set (cps_paths (cs_paths s2))"
  shows "simulated specs s (drop_broken_path env q s2)"
proof (intro allI impI)
  fix y assume "sim s y"
  from pick_step [OF assms(1) this, of specs] obtain y1 where y1: "sys_step specs y y1"
    "cy_sender y1 = Writing q" "cy_set y1 = cs_paths s1" "cy_closed y1 = closed_streams (io_trace s1)" .
  have cs: "cs_paths s2 = cs_paths s1" using assms(3) by (intro cs_paths_io write_frame_to_frame(3))
  obtain now m ps where
    d: "m = snd (cps_mark_failure (cs_paths s2) now (cp_id q))" "cps_remove m (cp_stream q) = (Some q, ps)"
      "drop_broken_path env q s2 =
         close_client_path q (emit (Now now) (count_op add_error s2)\<lparr>cs_paths := ps\<rparr>)"
    by (rule drop_broken_path_eq [OF assms(4,5), of env]) (rule that)
  define y2 where "y2 = y1\<lparr>cy_sender := Failed_Write q\<rparr>"
  define y3 where "y3 = y2\<lparr>cy_set := m, cy_sender := Marked q\<rparr>"
  define y4 where "y4 = y3\<lparr>cy_set := ps, cy_sender := Closing q\<rparr>"
  define y5 where "y5 = y4\<lparr>cy_closed := cp_stream q # cy_closed y4, cy_sender := Waiting\<rparr>"
  from y1(1) have "(sys_step specs)\<^sup>*\<^sup>* y y1" by (rule r_into_rtranclp)
  also have "sys_step specs y1 y2" unfolding y2_def by (rule write_fails [OF y1(2)])
  also have "sys_step specs y2 y3"
    using mark_failure [of y2 q specs now] y1(3) cs d(1) by (simp add: y2_def y3_def)
  also have "sys_step specs y3 y4"
    unfolding y4_def using d(2) by (intro sender_removes [of _ q]) (simp_all add: y3_def)
  also have "sys_step specs y4 y5"
    unfolding y5_def by (rule sender_closes) (simp add: y4_def)
  finally have "(sys_step specs)\<^sup>*\<^sup>* y y5" .
  moreover have "sim (drop_broken_path env q s2) y5"
    using y1(4) write_frame_to_closes [OF assms(2,3)]
    by (cases "cp_conn q")
      (simp_all add: sim_def d(3) y5_def y4_def y3_def y2_def close_client_path_def Let_def)
  ultimately show "\<exists>z. (sys_step specs)\<^sup>*\<^sup>* y z \<and> sim (drop_broken_path env q s2) z" by blast
qed

text \<open>
  The sender's failover loop as one function, which the sequential theory reasons about,
  refines the steps of the interleaved system: whatever the function does to the path set
  and whichever streams it closes, the sender's atomic steps reach the same path set with
  the same streams closed.
\<close>
theorem sender_refines_steps:
  assumes "client_ok s" "frame_ok p" "sim s y"
  shows "\<exists>z. (sys_step specs)\<^sup>*\<^sup>* y z \<and> sim (send_packet env p s) z"
proof -
  have "simulated specs s (send_packet env p s)"
    using assms(1)
  proof (induction rule: send_packet_induct [where env = env and p = p])
    case (empty s)
    have "sim (count_op add_drop s) y" if "sim s y" for y using that by (simp add: sim_def)
    then show ?case by blast
  next
    case (sent s q s1 s2)
    then show ?case by (intro success_step [OF _ assms(2)])
  next
    case (retry s q s1 s2 e r)
    show ?case
    proof (intro allI impI)
      fix y assume "sim s y"
      with failure_steps [OF retry(2) assms(2) retry(3-5)]
      obtain z where z: "(sys_step specs)\<^sup>*\<^sup>* y z" "sim (drop_broken_path env q s2) z" by blast
      from retry(6) z(2) obtain z' where "(sys_step specs)\<^sup>*\<^sup>* z z'" "sim r z'" by blast
      with z(1) show "\<exists>z. (sys_step specs)\<^sup>*\<^sup>* y z \<and> sim r z" by (blast intro: rtranclp_trans)
    qed
  qed
  then show ?thesis using assms(3) by blast
qed

theorem sender_refines_steps_witness:
  "\<exists>z. (sys_step {0, 1})\<^sup>*\<^sup>* (start_system [example_path 0 10, example_path 1 11]) z \<and>
     sim (send_packet (half_broken_env 10) [1, 2, 3] (two_paths [])) z"
proof -
  have "sim (two_paths []) (start_system [example_path 0 10, example_path 1 11])"
    by (simp add: sim_def two_paths_def start_system_def)
  moreover have "frame_ok [1, 2, 3]" by (simp add: frame_ok_def MaxFrameSize_def)
  ultimately show ?thesis using sender_refines_steps [OF two_paths_ok] by blast
qed

section \<open>A lost path and its replacement\<close>

definition first_path :: client_path where
  "first_path = \<lparr>cp_id = 0, cp_address = ''a:1'', cp_conn = Some 7, cp_stream = 8\<rparr>"

definition second_path :: client_path where
  "second_path = first_path\<lparr>cp_conn := Some 9, cp_stream := 10\<rparr>"

definition nobody :: "int \<Rightarrow> redial_point" where
  "nobody = (\<lambda>_. Polling)"

lemma nobody_polls [simp]: "nobody(i := Polling) = nobody"
  by (auto simp: nobody_def)

definition failing :: "sender_point \<Rightarrow> path_health option \<Rightarrow> client_path list \<Rightarrow> nat list \<Rightarrow> client_system" where
  \<comment> \<open>the client of one path while the sender gives it up\<close>
  "failing pt h ps closed =
     \<lparr>cy_set = \<lparr>cps_paths = ps, cps_next = 0, cps_health = (\<lambda>_. None)(0 := h)\<rparr>,
      cy_sender = pt, cy_receivers = [first_path], cy_redial = nobody, cy_closing = [],
      cy_closed = closed, cy_used = {8}, cy_stopped = False\<rparr>"

definition once_failed :: "path_health option" where
  "once_failed = Some \<lparr>consecutiveFailures = 1, cooldownUntil = 1000000001\<rparr>"

definition redialled :: client_system where
  \<comment> \<open>the path was removed and closed, the redial loop holds a new one\<close>
  "redialled = (failing Waiting once_failed [] [8])
     \<lparr>cy_redial := nobody(0 := Dialled second_path), cy_used := {10, 8}\<rparr>"

lemma fail_steps:
  "sys_step specs (start_system [first_path]) (failing (Writing first_path) None [first_path] [])"
  "sys_step specs (failing (Writing first_path) None [first_path] [])
     (failing (Failed_Write first_path) None [first_path] [])"
  "sys_step specs (failing (Failed_Write first_path) None [first_path] [])
     (failing (Marked first_path) once_failed [first_path] [])"
  "sys_step specs (failing (Marked first_path) once_failed [first_path] [])
     (failing (Closing first_path) once_failed [] [])"
  "sys_step specs (failing (Closing first_path) once_failed [] [])
     (failing Waiting once_failed [] [8])"
proof -
  let ?s0 = "start_system [first_path]"
  have n: "cps_next_path (cy_set ?s0) 1 = (Some first_path, cy_set (failing w None [first_path] []))" for w
    by (simp add: cps_next_path_def choose_index_def start_system_def new_client_path_set_def failing_def
        health_of_def zero_health_def is_cooling_down_def Let_def)
  show "sys_step specs ?s0 (failing (Writing first_path) None [first_path] [])"
    using pick [of ?s0 1 first_path _ specs, OF _ n]
    by (simp add: start_system_def failing_def nobody_def first_path_def)
  show "sys_step specs (failing (Writing first_path) None [first_path] [])
     (failing (Failed_Write first_path) None [first_path] [])"
    using write_fails [of "failing (Writing first_path) None [first_path] []" first_path specs]
    by (simp add: failing_def)
  show "sys_step specs (failing (Failed_Write first_path) None [first_path] [])
     (failing (Marked first_path) once_failed [first_path] [])"
    using mark_failure [of "failing (Failed_Write first_path) None [first_path] []" first_path specs 1]
    by (simp add: failing_def cps_mark_failure_def health_of_def zero_health_def first_path_def
        client_path_cooldown_def second_def once_failed_def Let_def)
  show "sys_step specs (failing (Marked first_path) once_failed [first_path] [])
     (failing (Closing first_path) once_failed [] [])"
    using sender_removes [of "failing (Marked first_path) once_failed [first_path] []" first_path first_path _ specs]
    by (simp add: failing_def cps_remove_def delete_at_def cursor_after_removal_def Let_def)
  show "sys_step specs (failing (Closing first_path) once_failed [] [])
     (failing Waiting once_failed [] [8])"
    using sender_closes [of "failing (Closing first_path) once_failed [] []" first_path specs]
    by (simp add: failing_def first_path_def)
qed

lemma reach_redialled: "reachable {0} [first_path] redialled"
proof -
  let ?y = "failing Waiting once_failed [] [8]"
  let ?d = "?y\<lparr>cy_redial := nobody(0 := Dialling)\<rparr>"
  have "reachable {0} [first_path] ?y"
    using reach_start fail_steps by (meson reach_step)
  moreover have "sys_step {0} ?y ?d"
    using finds_missing [of 0 "{0}" ?y] by (simp add: failing_def nobody_def cps_has_path_id_def)
  moreover have "sys_step {0} ?d redialled"
    using dials [of ?d 0 second_path "{0}"]
    by (simp add: redialled_def failing_def second_path_def first_path_def)
  ultimately show ?thesis by (meson reach_step)
qed

lemma proper_example: "proper_start {0} [first_path]"
  by (simp add: proper_start_def first_path_def)

lemma redialled_running: "\<not> cy_stopped redialled"
  by (simp add: redialled_def failing_def)

theorem no_active_path_is_closed_witness:
  "cy_closed redialled = [8] \<and> distinct (cy_closed redialled) \<and>
   cp_stream ` active redialled \<inter> set (cy_closed redialled) = {} \<and> path_set_ok (cy_set redialled)"
  using no_active_path_is_closed [OF reach_redialled proper_example redialled_running]
  by (simp add: redialled_def failing_def)

theorem redial_never_replaces_witness: "fst (cps_add (cy_set redialled) second_path) = None"
  using redial_never_replaces [OF reach_redialled proper_example redialled_running, of 0 second_path]
  by (simp add: redialled_def)

theorem lost_path_can_return_witness: "\<exists>z. (sys_step {0})\<^sup>*\<^sup>* redialled z \<and> served 0 z"
  using lost_path_can_return [OF reach_redialled proper_example redialled_running, of 0] by simp

definition re_added :: client_system where
  "re_added = redialled\<lparr>cy_set := snd (cps_add (cy_set redialled) second_path),
     cy_redial := nobody(0 := Starting second_path)\<rparr>"

lemma reach_re_added: "reachable {0} [first_path] re_added"
proof -
  have "cps_add (cy_set redialled) second_path = (None, snd (cps_add (cy_set redialled) second_path))"
    by (simp add: redialled_def failing_def cps_add_def)
  from adds [of redialled 0 second_path, OF _ this] have "sys_step {0} redialled re_added"
    by (simp add: re_added_def redialled_def)
  with reach_redialled show ?thesis by (rule reach_step)
qed

theorem every_active_path_is_read_witness:
  "second_path \<in> active re_added \<and>
   (second_path \<in> set (cy_receivers re_added) \<or> cy_redial re_added (cp_id second_path) = Starting second_path)"
proof -
  have "\<not> cy_stopped re_added" "second_path \<in> active re_added"
    by (simp_all add: re_added_def redialled_def failing_def active_def cps_add_def)
  with every_active_path_is_read [OF reach_re_added proper_example, of second_path] show ?thesis by blast
qed

section \<open>Returning from \<open>pumpTUN\<close>\<close>


definition left_alone :: "int set \<Rightarrow> client_path \<Rightarrow> client_system \<Rightarrow> client_system \<Rightarrow> bool" where
  \<comment> \<open>a step after which the path is still being read and no write to it has just failed\<close>
  "left_alone specs p y z \<longleftrightarrow>
     sys_step specs y z \<and> p \<in> set (cy_receivers z) \<and> cy_sender z \<noteq> Failed_Write p"

fun spares :: "nat \<Rightarrow> sender_point \<Rightarrow> bool" where
  \<comment> \<open>the sender is not about to give up the path of this stream\<close>
  "spares st (Failed_Write q) = (cp_stream q \<noteq> st)"
| "spares st (Marked q) = (cp_stream q \<noteq> st)"
| "spares st (Closing q) = (cp_stream q \<noteq> st)"
| "spares st _ = True"

definition forgotten :: "client_path \<Rightarrow> client_system \<Rightarrow> bool" where
  "forgotten p y \<longleftrightarrow> cy_stopped y \<and> (\<forall>i. cy_redial y i = Polling) \<and> path_set_ok (cy_set y) \<and>
     p \<in> active y \<and> cp_stream p \<notin> set (cy_closed y) \<and>
     cp_stream p \<notin> cp_stream ` set (cy_closing y) \<and> distinct (map cp_stream (cy_receivers y)) \<and>
     spares (cp_stream p) (cy_sender y) \<and>
     (\<forall>q. cy_sender y = Writing q \<longrightarrow> q = p \<or> cp_stream q \<noteq> cp_stream p)"

lemma forgotten_remove:
  assumes "forgotten p y" "cps_remove (cy_set y) st = (Some q, ps)" "st \<noteq> cp_stream p"
  shows "path_set_ok ps" "p \<in> set (cps_paths ps)" "cp_stream q \<noteq> cp_stream p"
  using remove_found [of "cy_set y" st q ps] assms by (auto simp: forgotten_def active_def)

lemma forgotten_sender:
  assumes "forgotten p y" "sender_step y z" "cy_sender z \<noteq> Failed_Write p"
  shows "forgotten p z"
  using assms(2)
proof (cases rule: sender_step.cases)
  case (snd_pick now q ps)
  then have "q \<in> set (cps_paths (cy_set y))" "cps_paths ps = cps_paths (cy_set y)" "path_set_ok ps"
    using assms(1) next_path_ok [of "cy_set y" now] next_path_paths [of "cy_set y" now]
      next_path_member [of "cy_set y" now q] by (simp_all add: forgotten_def)
  moreover have "q = p \<or> cp_stream q \<noteq> cp_stream p"
    using assms(1) calculation(1) stream_of_active [of "cy_set y" q p] by (auto simp: forgotten_def active_def)
  ultimately show ?thesis using assms(1) snd_pick by (simp add: forgotten_def active_def)
next
  case (snd_sender_removes q q' ps)
  then have "cp_stream q \<noteq> cp_stream p" using assms(1) by (simp add: forgotten_def)
  from forgotten_remove [OF assms(1) snd_sender_removes(3) this] show ?thesis
    using assms(1) snd_sender_removes by (simp add: forgotten_def active_def)
next
  case (snd_sender_too_late q ps)
  then show ?thesis using assms(1) remove_missed(1) [OF snd_sender_too_late(3)]
    by (simp add: forgotten_def active_def)
qed (use assms(1,3) in \<open>auto simp: forgotten_def active_def\<close>)

lemma forgotten_receiver:
  assumes "forgotten p y" "receiver_step y z" "p \<in> set (cy_receivers z)"
  shows "forgotten p z"
  using assms(2)
proof (cases rule: receiver_step.cases)
  case (rcv_receiver_removes rs q rs' q' ps)
  then have "cp_stream q \<noteq> cp_stream p" using assms(1,3) by (auto simp: forgotten_def)
  from forgotten_remove [OF assms(1) rcv_receiver_removes(3) this] show ?thesis
    using assms(1) rcv_receiver_removes by (auto simp: forgotten_def active_def)
next
  case (rcv_receiver_too_late rs q rs' ps)
  then show ?thesis using assms(1) remove_missed(1) [OF rcv_receiver_too_late(3)]
    by (auto simp: forgotten_def active_def)
next
  case (rcv_closes qs q qs')
  then show ?thesis using assms(1) by (auto simp: forgotten_def active_def)
qed

interpretation forgotten: step_invariant "left_alone specs p" "forgotten p" for specs p
proof
  show "forgotten p z" if inv: "forgotten p y" and step: "left_alone specs p y z" for specs p y z
  proof -
    from step consider "sender_step y z" | "receiver_step y z" | "redial_step specs y z" | "pump_returns y z"
      by (auto simp: left_alone_def sys_step_iff)
    then show ?thesis
    proof cases
      case 1
      then show ?thesis using forgotten_sender [OF inv 1] step by (simp add: left_alone_def)
    next
      case 2
      then show ?thesis using forgotten_receiver [OF inv 2] step by (simp add: left_alone_def)
    next
      case 3
      then show ?thesis using inv by (auto simp: forgotten_def elim!: redial_stepE)
    next
      case 4
      then show ?thesis using inv by (simp add: forgotten_def pump_returns_iff)
    qed
  qed
qed





end
