(* ===== verification/Server_Session.thy ===== *)
theory Server_Session
  imports Scheduler Path_Pool Tun_Pump
begin

text \<open>
  The TUN server of \<open>internal/quictransport/server.go\<close>: the session's list of client
  streams with its round-robin cursor, forwarding the packets of the TUN device over it,
  and handling a connection in TUN mode.  The device, the counters and the policy of
  \<open>serverTUNSession\<close> are the environment, the shared state and an argument.
\<close>

section \<open>The session\<close>

record server_path =
  sp_id :: int
  sp_stream :: nat

record server_session =
  sess_paths :: "server_path list"
  sess_next :: nat

definition new_server_tun_session :: server_session where
  "new_server_tun_session = \<lparr>sess_paths = [], sess_next = 0\<rparr>"

definition sess_add :: "server_session \<Rightarrow> int \<Rightarrow> nat \<Rightarrow> server_session" where
  "sess_add s pathID stream =
     s\<lparr>sess_paths := sess_paths s @ [\<lparr>sp_id = pathID, sp_stream = stream\<rparr>]\<rparr>"

definition sess_remove :: "server_session \<Rightarrow> nat \<Rightarrow> server_session" where
  "sess_remove s stream =
     (case first_index (\<lambda>path. sp_stream path = stream) (sess_paths s) of
        None \<Rightarrow> s
      | Some i \<Rightarrow>
          let ps = delete_at i (sess_paths s)
          in s\<lparr>sess_paths := ps, sess_next := cursor_after_removal (length ps) (sess_next s)\<rparr>)"

definition sess_pick :: "server_session \<Rightarrow> server_path option \<times> server_session" where
  \<comment> \<open>the part of \<open>writeNextPath\<close> under the lock\<close>
  "sess_pick s =
     (if length (sess_paths s) = 0 then (None, s)
      else (Some (sess_paths s ! (sess_next s mod length (sess_paths s))),
            s\<lparr>sess_next := (sess_next s + 1) mod length (sess_paths s)\<rparr>))"

definition session_ok :: "server_session \<Rightarrow> bool" where
  "session_ok s \<longleftrightarrow> distinct (map sp_stream (sess_paths s)) \<and>
     cursor_ok (length (sess_paths s)) (sess_next s)"

lemma session_ok_new: "session_ok new_server_tun_session"
  by (simp add: session_ok_def new_server_tun_session_def cursor_ok_def)

lemma sess_add_ok:
  "session_ok s \<Longrightarrow> stream \<notin> sp_stream ` set (sess_paths s) \<Longrightarrow> session_ok (sess_add s pathID stream)"
  by (auto simp: session_ok_def sess_add_def cursor_ok_def split: if_splits)

lemma sess_remove_ok: "session_ok s \<Longrightarrow> session_ok (sess_remove s stream)"
  by (auto simp: session_ok_def sess_remove_def Let_def map_delete_at distinct_delete_at
      cursor_ok_removal split: option.split)

lemma sess_distinct: "session_ok s \<Longrightarrow> distinct (sess_paths s)"
  by (auto simp: session_ok_def distinct_map)

lemma sess_remove_set:
  assumes "session_ok s"
  shows "set (sess_paths (sess_remove s st)) = {p \<in> set (sess_paths s). sp_stream p \<noteq> st}"
proof (cases "first_index (\<lambda>path. sp_stream path = st) (sess_paths s)")
  case None
  then have "sess_remove s st = s" "\<forall>p \<in> set (sess_paths s). sp_stream p \<noteq> st"
    by (simp add: sess_remove_def) (use None in \<open>simp add: first_index_None\<close>)
  then show ?thesis by auto
next
  case (Some i)
  then have i: "i < length (sess_paths s)" "sp_stream (sess_paths s ! i) = st"
    by (auto dest: first_index_Some)
  have "p = sess_paths s ! i" if "p \<in> set (sess_paths s)" "sp_stream p = st" for p
    using that i assms by (auto simp: session_ok_def distinct_map dest: inj_onD)
  then show ?thesis
    using Some i set_delete_at [OF sess_distinct [OF assms] i(1)] by (auto simp: sess_remove_def Let_def)
qed

lemma sess_pick_facts:
  assumes "session_ok s"
  shows "sess_paths (snd (sess_pick s)) = sess_paths s" "session_ok (snd (sess_pick s))"
    "fst (sess_pick s) = None \<longleftrightarrow> sess_paths s = []"
    "fst (sess_pick s) = Some p \<Longrightarrow> p \<in> set (sess_paths s)"
  using assms by (auto simp: sess_pick_def session_ok_def cursor_ok_def split: if_splits)


interpretation session_cursor: round_robin_cursor "\<lambda>s. length (sess_paths s)" sess_next
  "\<lambda>s. (sess_next s mod length (sess_paths s), snd (sess_pick s))"
  "\<lambda>s. session_ok s \<and> sess_paths s \<noteq> []"
proof (unfold_locales, goal_cases)
  case (1 s)
  then show ?case by (simp add: session_ok_def cursor_ok_def)
next
  case (4 s)
  then show ?case by (simp add: sess_pick_facts)
next
  case (5 s)
  then show ?case by (simp add: session_ok_def cursor_ok_def)
qed (auto simp: sess_pick_def)

section \<open>Forwarding\<close>

record server_state = io_state +
  ss :: server_session

datatype write_error = NoActivePaths | PathWriteFailed int frame_error

definition write_next_path :: "env \<Rightarrow> bytes \<Rightarrow> server_state \<Rightarrow> server_state \<times> write_error option" where
  "write_next_path env packet s =
     (case sess_pick (ss s) of
        (None, sess) \<Rightarrow> (s, Some NoActivePaths)
      | (Some path, sess) \<Rightarrow>
          (case write_frame_to env (sp_stream path) packet (s\<lparr>ss := sess\<rparr>) of
             (s, Some err) \<Rightarrow>
               (count_op add_error (s\<lparr>ss := sess_remove (ss s) (sp_stream path)\<rparr>),
                Some (PathWriteFailed (sp_id path) err))
           | (s, None) \<Rightarrow> (s, None)))"

definition forward_packet :: "env \<Rightarrow> bytes \<Rightarrow> server_state \<Rightarrow> server_state" where
  "forward_packet env packet s =
     (case write_next_path env packet s of
        (s, Some err) \<Rightarrow> count_op add_drop s
      | (s, None) \<Rightarrow> count_op (add_tx (int (length packet))) s)"

definition forward_device_packets ::
  "env \<Rightarrow> packet_policy \<Rightarrow> read_result list \<Rightarrow> server_state \<Rightarrow> server_state \<times> pump_end" where
  "forward_device_packets env pol reads s = device_pump env pol (forward_packet env) 0 reads s"

abbreviation server_ok :: "server_state \<Rightarrow> bool" where
  "server_ok s \<equiv> session_ok (ss s)"

definition server_streams :: "server_state \<Rightarrow> nat set" where
  "server_streams s = sp_stream ` set (sess_paths (ss s))"

lemma ss_io:
  assumes "io_state.more s' = io_state.more (s :: 'z server_state_scheme)"
  shows "ss s' = ss s"
  using assms by (cases s, cases s') (simp add: server_state.defs)

lemma ss_steps [simp]: "ss (emit e s) = ss s" "ss (count_op f s) = ss s"
  by (rule ss_io, simp)+

lemma forward_packet_cases [consumes 1, case_names none sent failed]:
  assumes "server_ok s"
    and "sess_paths (ss s) = [] \<Longrightarrow> Q (count_op add_drop s)"
    and "\<And>path s1 s2. path \<in> set (sess_paths (ss s)) \<Longrightarrow> s1 = s\<lparr>ss := snd (sess_pick (ss s))\<rparr> \<Longrightarrow>
      write_frame_to env (sp_stream path) p s1 = (s2, None) \<Longrightarrow> ss s2 = ss s1 \<Longrightarrow>
      Q (count_op (add_tx (int (length p))) s2)"
    and "\<And>path s1 s2 e. path \<in> set (sess_paths (ss s)) \<Longrightarrow> s1 = s\<lparr>ss := snd (sess_pick (ss s))\<rparr> \<Longrightarrow>
      write_frame_to env (sp_stream path) p s1 = (s2, Some e) \<Longrightarrow> ss s2 = ss s1 \<Longrightarrow>
      Q (count_op add_drop (count_op add_error (s2\<lparr>ss := sess_remove (ss s1) (sp_stream path)\<rparr>)))"
  shows "Q (forward_packet env p s)"
proof (cases "sess_pick (ss s)")
  case (Pair picked sess)
  show ?thesis
  proof (cases picked)
    case None
    then have "sess_paths (ss s) = []" using sess_pick_facts(3) [OF assms(1)] Pair by simp
    with assms(2) Pair None show ?thesis by (simp add: forward_packet_def write_next_path_def)
  next
    case (Some path)
    let ?s1 = "s\<lparr>ss := snd (sess_pick (ss s))\<rparr>"
    obtain s2 e where w: "write_frame_to env (sp_stream path) p ?s1 = (s2, e)" by fastforce
    have mem: "path \<in> set (sess_paths (ss s))" using sess_pick_facts(4) [OF assms(1)] Pair Some by simp
    have sess: "ss s2 = ss ?s1" using w by (intro ss_io write_frame_to_frame(3))
    show ?thesis
    proof (cases e)
      case None
      with assms(3) [OF mem refl] w sess Pair Some show ?thesis
        by (simp add: forward_packet_def write_next_path_def)
    next
      case (Some err)
      with assms(4) [OF mem refl] w sess Pair \<open>picked = Some path\<close> show ?thesis
        by (simp add: forward_packet_def write_next_path_def)
    qed
  qed
qed

lemma forward_packet_wire:
  assumes "server_ok s" "frame_ok p" "st \<in> server_streams (forward_packet env p s)"
  shows "wire st (io_trace (forward_packet env p s)) \<in> {wire st (io_trace s), wire st (io_trace s) @ frame_bytes p}"
proof (rule forward_packet_cases [OF assms(1), where p = p and env = env and Q = "\<lambda>r. st \<in> server_streams r \<longrightarrow>
    wire st (io_trace r) \<in> {wire st (io_trace s), wire st (io_trace s) @ frame_bytes p}", rule_format])
  fix path s1 s2
  assume s1: "s1 = s\<lparr>ss := snd (sess_pick (ss s))\<rparr>"
    and w: "write_frame_to env (sp_stream path) p s1 = (s2, None)"
  show "wire st (io_trace (count_op (add_tx (int (length p))) s2))
      \<in> {wire st (io_trace s), wire st (io_trace s) @ frame_bytes p}"
    using write_frame_to_ok(4) [OF assms(2) w] write_frame_to_frame(4) [OF w, of st] s1
    by (cases "st = sp_stream path") auto
next
  fix path s1 s2 e
  assume s1: "s1 = s\<lparr>ss := snd (sess_pick (ss s))\<rparr>"
    and w: "write_frame_to env (sp_stream path) p s1 = (s2, Some e)"
    and st: "st \<in> server_streams
      (count_op add_drop (count_op add_error (s2\<lparr>ss := sess_remove (ss s1) (sp_stream path)\<rparr>)))"
  have "st \<noteq> sp_stream path"
    using st s1 assms(1) by (auto simp: server_streams_def sess_remove_set sess_pick_facts)
  with write_frame_to_frame(4) [OF w, of st] s1
  show "wire st (io_trace (count_op add_drop (count_op add_error
        (s2\<lparr>ss := sess_remove (ss s1) (sp_stream path)\<rparr>))))
      \<in> {wire st (io_trace s), wire st (io_trace s) @ frame_bytes p}" by simp
qed (use assms in simp_all)

lemma forward_packet_writes:
  assumes "server_ok s" "frame_ok p"
  shows "list_all (event_offers p) (new_events s (forward_packet env p s))"
proof -
  have "\<exists>tr. io_trace (forward_packet env p s) = io_trace s @ tr \<and> list_all (event_offers p) tr"
    by (rule forward_packet_cases [OF assms(1), where Q = "\<lambda>r. \<exists>tr. io_trace r = io_trace s @ tr \<and>
        list_all (event_offers p) tr"])
      (auto dest!: write_frame_to_events [OF assms(2)])
  then show ?thesis by (auto simp: new_events_def)
qed

interpretation server_sender: packet_forwarder "forward_packet env" server_ok server_streams for env
proof (unfold_locales, goal_cases)
  case (1 s' s)
  then show ?case using ss_io [OF 1] by simp
next
  case (2 s' s)
  then show ?case using ss_io [OF 2] by (simp add: server_streams_def)
next
  case (3 s p)
  show ?case
    by (rule forward_packet_cases [OF 3, where Q = server_ok])
      (use 3 in \<open>simp_all add: sess_pick_facts sess_remove_ok\<close>)
next
  case (4 s p)
  show ?case
    by (rule forward_packet_cases [OF 4, where Q = "extends s"])
      (auto simp: extends_def dest!: write_frame_to_frame(1))
next
  case (5 s p)
  show ?case
    by (rule forward_packet_cases [OF 5, where Q = "\<lambda>r. server_streams r \<subseteq> server_streams s"])
      (use 5 in \<open>auto simp: server_streams_def sess_pick_facts sess_remove_set\<close>)
next
  case (6 s p st)
  then show ?case by (rule forward_packet_wire)
next
  case (7 s p st bs e)
  with forward_packet_writes [OF 7(1,2), of env] show ?case by (force simp: list_all_iff)
next
  case (8 s p)
  show ?case
    by (rule forward_packet_cases [OF 8, where Q = "\<lambda>r. handled (io_ctrs r) = handled (io_ctrs s) + 1"])
      (auto dest!: write_frame_to_frame(2))
next
  case (9 s p)
  show ?case
    by (rule forward_packet_cases [OF 9, where Q = "\<lambda>r. rxPackets (io_ctrs r) = rxPackets (io_ctrs s)"])
      (auto dest!: write_frame_to_frame(2))
qed

section \<open>A connection in TUN mode\<close>

definition server_quiet :: "bool \<Rightarrow> frame_error \<Rightarrow> bool" where
  \<comment> \<open>the read errors that end \<open>handleTUNQUICConnection\<close> without a report\<close>
  "server_quiet done err \<longleftrightarrow> done \<or> is_graceful_stream_end err"

definition handle_tun_quic_connection ::
  "env \<Rightarrow> packet_policy \<Rightarrow> int \<Rightarrow> nat \<Rightarrow> ext_error + nat \<times> reader \<Rightarrow> server_state \<Rightarrow> server_state" where
  \<comment> \<open>\<open>accepted\<close> is the answer of \<open>conn.AcceptStream\<close> with what the stream will deliver;
      the deferred calls run in reverse order\<close>
  "handle_tun_quic_connection env pol pathID conn accepted s =
     (case accepted of
        Inl err \<Rightarrow>
          let s = (if is_done env s then s else count_op add_error s) in emit (ConnClose conn) s
      | Inr (stream, r) \<Rightarrow>
          let s = s\<lparr>ss := sess_add (ss s) pathID stream\<rparr>;
              s = fst (frame_pump env pol server_quiet stream r s);
              s = s\<lparr>ss := sess_remove (ss s) stream\<rparr>;
              s = emit (StreamClose stream) s
          in emit (ConnClose conn) s)"

lemma first_index_append:
  "(\<forall>x \<in> set xs. \<not> P x) \<Longrightarrow> P y \<Longrightarrow> first_index P (xs @ [y]) = Some (length xs)"
  by (induction xs) auto

lemma sess_add_remove:
  assumes "session_ok s" "stream \<notin> sp_stream ` set (sess_paths s)"
  shows "sess_remove (sess_add s pathID stream) stream = s"
proof -
  have "\<forall>p \<in> set (sess_paths s). \<not> sp_stream p = stream" using assms(2) by auto
  from first_index_append [OF this, of "\<lparr>sp_id = pathID, sp_stream = stream\<rparr>"]
  have "first_index (\<lambda>p. sp_stream p = stream) (sess_paths (sess_add s pathID stream)) =
      Some (length (sess_paths s))"
    by (simp add: sess_add_def)
  then show ?thesis using assms(1)
    by (auto simp: sess_remove_def sess_add_def Let_def delete_at_def cursor_after_removal_def
        session_ok_def cursor_ok_def split: if_splits)
qed

section \<open>Properties\<close>

text \<open>
  Forwarding on the server accounts for every packet and never offers a stream a
  denied one: as long as the loop waits for the device, each packet read counts once as
  sent or dropped, the session stays well formed, and what is on a stream that is still in
  the session are whole frames of allowed packets, in the order of the reads.
\<close>

theorem server_forwards_whole_frames:
  assumes "session_ok (ss s)" "forward_device_packets env pol reads s = (s', fin)"
  shows "session_ok (ss s') \<and>
    (fin = Blocked \<longrightarrow> txPackets (io_ctrs s') + droppedPackets (io_ctrs s') =
       txPackets (io_ctrs s) + droppedPackets (io_ctrs s) + of_nat (length (read_packets reads))) \<and>
    (\<forall>path \<in> set (sess_paths (ss s')). \<exists>ps. subseq ps (filter (allow pol) (read_packets reads)) \<and>
       wire (sp_stream path) (io_trace s') =
         wire (sp_stream path) (io_trace s) @ concat (map frame_bytes ps)) \<and>
    (\<forall>stream bs err. StreamWrite stream bs err \<in> set (new_events s s') \<longrightarrow>
       (\<exists>p. frame_ok p \<and> allow pol p \<and> (bs = be32 (of_nat (length p)) \<or> bs = p)))"
proof -
  let ?r = "device_pump env pol (forward_packet env) 0 reads s"
  have s': "s' = fst ?r" "fin = snd ?r"
    using assms(2) by (simp_all add: forward_device_packets_def)
  have "session_ok (ss s')" unfolding s' by (rule server_sender.pump_inv [OF assms(1)])
  moreover have "handled (io_ctrs s') = handled (io_ctrs s) + of_nat (length (read_packets reads))"
    if "fin = Blocked" using server_sender.pump_handled [OF assms(1)] that s' by simp
  moreover have "\<exists>ps. subseq ps (filter (allow pol) (read_packets reads)) \<and>
       wire (sp_stream path) (io_trace s') =
         wire (sp_stream path) (io_trace s) @ concat (map frame_bytes ps)"
    if "path \<in> set (sess_paths (ss s'))" for path
    using that server_sender.pump_wire [OF assms(1), where env = env and pol = pol and n = 0
        and reads = reads and st = "sp_stream path"] s'(1) by (auto simp: server_streams_def)
  moreover have "\<exists>p. frame_ok p \<and> allow pol p \<and> (bs = be32 (of_nat (length p)) \<or> bs = p)"
    if "StreamWrite stream bs err \<in> set (new_events s s')" for stream bs err
    using server_sender.pump_writes [OF assms(1), where env = env and pol = pol and n = 0
        and reads = reads and st = stream and bs = bs and e = err] that s'(1) by simp
  ultimately show ?thesis by (auto simp: handled_def)
qed

definition two_clients :: server_state where
  \<comment> \<open>a session with two streams, for the concrete instances\<close>
  "two_clients = \<lparr>io_trace = [], io_ctrs = zero_counters,
     ss = sess_add (sess_add new_server_tun_session 0 10) 1 11\<rparr>"

lemma two_clients_ok: "session_ok (ss two_clients)"
  by (simp add: two_clients_def session_ok_def sess_add_def new_server_tun_session_def cursor_ok_def)

definition first_stream_broken :: env where
  "first_stream_broken =
     calm_env\<lparr>stream_write := (\<lambda>tr st bs. if st = 10 then Some unexpected_eof else None)\<rparr>"

lemma broken_run:
  "forward_device_packets first_stream_broken \<lparr>allowedCIDR = None\<rparr> [ReadData [1, 2, 3]] two_clients =
     (\<lparr>io_trace = [DeviceRead, StreamWrite 10 [0, 0, 0, 3] (Some unexpected_eof)],
       io_ctrs = add_drop (add_error zero_counters),
       ss = \<lparr>sess_paths = [\<lparr>sp_id = 1, sp_stream = 11\<rparr>], sess_next = 0\<rparr>\<rparr>, Blocked)"
  by (simp add: forward_device_packets_def MaxFrameSize_def allow_def forward_packet_def
      write_next_path_def sess_pick_def two_clients_def sess_add_def new_server_tun_session_def
      write_frame_to_def write_frame_eq stream_writer_def Let_def first_stream_broken_def be32_def
      emit_def count_op_def sess_remove_def delete_at_def cursor_after_removal_def)

definition after_one_reply :: server_state where
  "after_one_reply =
     \<lparr>io_trace = [DeviceRead, StreamWrite 10 [0, 0, 0, 3] None, StreamWrite 10 [1, 2, 3] None],
      io_ctrs = add_tx 3 zero_counters,
      ss = (ss two_clients)\<lparr>sess_next := 1\<rparr>\<rparr>"

lemma calm_run:
  "forward_device_packets calm_env \<lparr>allowedCIDR = None\<rparr> [ReadData [1, 2, 3]] two_clients =
     (after_one_reply, Blocked)"
  by (simp add: forward_device_packets_def MaxFrameSize_def allow_def forward_packet_def
      write_next_path_def sess_pick_def two_clients_def sess_add_def new_server_tun_session_def
      write_frame_to_def write_frame_eq stream_writer_def Let_def calm_env_def be32_def
      emit_def count_op_def after_one_reply_def)

lemma first_session_path: "\<lparr>sp_id = 0, sp_stream = 10\<rparr> \<in> set (sess_paths (ss after_one_reply))"
  by (simp add: after_one_reply_def two_clients_def sess_add_def new_server_tun_session_def)

theorem server_forwards_whole_frames_witness:
  "\<exists>ps. subseq ps [[1, 2, 3]] \<and> [0, 0, 0, 3, 1, 2, 3] = concat (map frame_bytes ps)"
proof -
  have "\<exists>ps. subseq ps (filter (allow \<lparr>allowedCIDR = None\<rparr>) (read_packets [ReadData [1, 2, 3]])) \<and>
      wire 10 (io_trace after_one_reply) = wire 10 (io_trace two_clients) @ concat (map frame_bytes ps)"
    using server_forwards_whole_frames [OF two_clients_ok calm_run] first_session_path by force
  then show ?thesis by (simp add: after_one_reply_def two_clients_def MaxFrameSize_def allow_def)
qed



text \<open>
  (C23) A connection in TUN mode: with a device that accepts every packet, the handler hands
  the device exactly the allowed packets of the stream, in order, counts them as received
  and the denied ones as dropped, leaves the session as it found it, and closes the stream
  and then the connection.
\<close>

theorem tun_connection_delivers_and_cleans_up:
  assumes "session_ok (ss s)" "stream \<notin> sp_stream ` set (sess_paths (ss s))" "device_accepts env"
    "handle_tun_quic_connection env pol pathID conn (Inr (stream, r)) s = s'"
  shows "delivered (io_trace s') = delivered (io_trace s) @ filter (allow pol) (fst (read_frames r)) \<and>
    rxPackets (io_ctrs s') = rxPackets (io_ctrs s) + of_nat (length (filter (allow pol) (fst (read_frames r)))) \<and>
    droppedPackets (io_ctrs s') = droppedPackets (io_ctrs s) +
      of_nat (length (filter (\<lambda>p. \<not> allow pol p) (fst (read_frames r)))) \<and>
    ss s' = ss s \<and> (\<exists>tr. io_trace s' = tr @ [StreamClose stream, ConnClose conn])"
proof -
  let ?s = "s\<lparr>ss := sess_add (ss s) pathID stream\<rparr>"
  let ?p = "fst (frame_pump env pol server_quiet stream r ?s)"
  have "ss ?p = ss ?s"
    using frame_pump_frame [where env = env and pol = pol and quiet = server_quiet and st = stream
        and r = r and s = ?s] by (intro ss_io) simp
  then have "sess_remove (ss ?p) stream = ss s" using sess_add_remove [OF assms(1,2)] by simp
  moreover have "s' = emit (ConnClose conn) (emit (StreamClose stream) (?p\<lparr>ss := sess_remove (ss ?p) stream\<rparr>))"
    using assms(4) by (simp add: handle_tun_quic_connection_def Let_def)
  ultimately show ?thesis
    using frame_pump_accepting [OF assms(3), where pol = pol and quiet = server_quiet and st = stream
        and r = r and s = ?s] by simp
qed

theorem tun_connection_delivers_and_cleans_up_witness:
  "ss (handle_tun_quic_connection calm_env \<lparr>allowedCIDR = None\<rparr> 0 5
     (Inr (12, \<lparr>chunks = [[0, 0, 0, 1, 5]], end_err = io_eof, eager = False\<rparr>)) two_clients) = ss two_clients"
proof -
  have "12 \<notin> sp_stream ` set (sess_paths (ss two_clients))"
    by (simp add: two_clients_def sess_add_def new_server_tun_session_def)
  moreover have "device_accepts calm_env" by (simp add: device_accepts_def calm_env_def)
  ultimately show ?thesis using tun_connection_delivers_and_cleans_up [OF two_clients_ok _ _ refl] by blast
qed

end
