(* ===== verification/Tunnel.thy ===== *)
theory Tunnel
  imports Client_System Server_Session
begin

text \<open>
  The two ends of the tunnel together: what the client writes to a stream is what the
  server's handler of that stream reads, in chunks of any size, and the other way round.
  QUIC delivers the bytes of a stream in order; that is the only link between the two
  models, stated as \<open>content r = wire st tr\<close>.
\<close>

section \<open>A path that never fails\<close>

lemma reliable_packet:
  assumes "client_ok s" "frame_ok p" "cps_paths (cs_paths s) = [q]"
    "\<And>tr bs. stream_write env tr (cp_stream q) bs = None"
  shows "cps_paths (cs_paths (send_packet env p s)) = [q]"
    "wire (cp_stream q) (io_trace (send_packet env p s)) = wire (cp_stream q) (io_trace s) @ frame_bytes p"
proof -
  let ?r = "send_packet env p s"
  note out = send_packet_outcome [OF assms(1,2), of env]
  have mem: "q \<in> set (cps_paths (cs_paths ?r))"
    using send_packet_reliable_path [OF assms(1,2,4)] assms(3) by simp
  with out assms(3) have set: "set (cps_paths (cs_paths ?r)) = {q}" by auto
  have dist: "distinct (cps_paths (cs_paths ?r))" using out distinct_paths by blast
  from set dist have "length (cps_paths (cs_paths ?r)) = 1" using distinct_card by fastforce
  with set show "cps_paths (cs_paths ?r) = [q]" by (cases "cps_paths (cs_paths ?r)") auto
  have "\<not> sent_nowhere s ?r" using mem by (auto simp: sent_nowhere_def)
  with out obtain q' where "sent_on p q' s ?r" by blast
  with set show "wire (cp_stream q) (io_trace ?r) = wire (cp_stream q) (io_trace s) @ frame_bytes p"
    by (auto simp: sent_on_def)
qed

lemma reliable_pump:
  assumes "client_ok s" "cps_paths (cs_paths s) = [q]"
    "\<And>tr bs. stream_write env tr (cp_stream q) bs = None"
    "snd (send_tun_packets env pol reads s) = Blocked"
  shows "cps_paths (cs_paths (fst (send_tun_packets env pol reads s))) = [q] \<and>
    wire (cp_stream q) (io_trace (fst (send_tun_packets env pol reads s))) =
     wire (cp_stream q) (io_trace s) @ concat (map frame_bytes (filter (allow pol) (read_packets reads)))"
proof -
  let ?Q = "\<lambda>n reads s r. cps_paths (cs_paths s) = [q] \<longrightarrow> snd r = Blocked \<longrightarrow>
    cps_paths (cs_paths (fst r)) = [q] \<and>
    wire (cp_stream q) (io_trace (fst r)) =
      wire (cp_stream q) (io_trace s) @ concat (map frame_bytes (filter (allow pol) (read_packets reads)))"
  have "?Q 0 reads s (device_pump env pol (send_packet env) 0 reads s)"
    using assms(1)
  proof (induction rule: client_sender.pump_induct [where n = 0 and reads = reads and env = env and pol = pol])
    case (forwarded n bs p reads s r)
    have "client_ok (emit DeviceRead s)" using forwarded(1) by simp
    note rp = reliable_packet [OF this forwarded(3) _ assms(3)]
    show ?case
    proof (intro impI)
      assume one: "cps_paths (cs_paths s) = [q]" and blocked: "snd r = Blocked"
      have "p \<noteq> []" using forwarded(3) by (simp add: frame_ok_def)
      with forwarded(2,4) have rd: "read_packets (ReadData bs # reads) = p # read_packets reads" by auto
      from one have "cps_paths (cs_paths (emit DeviceRead s)) = [q]" by simp
      note rp = rp [OF this]
      from forwarded(5) rp(1) blocked have
        "cps_paths (cs_paths (fst r)) = [q]"
        "wire (cp_stream q) (io_trace (fst r)) = wire (cp_stream q) (io_trace (send_packet env p (emit DeviceRead s))) @
           concat (map frame_bytes (filter (allow pol) (read_packets reads)))" by simp_all
      with rp(2) forwarded(4) show "cps_paths (cs_paths (fst r)) = [q] \<and>
          wire (cp_stream q) (io_trace (fst r)) = wire (cp_stream q) (io_trace s) @
           concat (map frame_bytes (filter (allow pol) (read_packets (ReadData bs # reads))))"
        unfolding rd by simp
    qed
  qed (auto simp: frame_ok_def)
  with assms(2,4) show ?thesis by (simp add: send_tun_packets_def)
qed

section \<open>The stream as the link\<close>

lemma handler_delivers_frames:
  assumes "device_accepts env" "content r = concat (map frame_bytes ps)" "list_all frame_ok ps"
  shows "delivered (io_trace (handle_tun_quic_connection env pol pathID conn (Inr (stream, r)) s)) =
     delivered (io_trace s) @ filter (allow pol) ps"
proof -
  have "read_frames r = (ps, FrameIO (end_err r))"
    using read_frames_exact [OF assms(3,2)] .
  then show ?thesis
    using frame_pump_accepting [OF assms(1), where pol = pol and quiet = server_quiet and st = stream
        and r = r and s = "s\<lparr>ss := sess_add (ss s) pathID stream\<rparr>"]
    by (simp add: handle_tun_quic_connection_def Let_def)
qed

lemma handler_delivers_part:
  \<comment> \<open>whatever the device answers\<close>
  "\<exists>n. delivered (io_trace (handle_tun_quic_connection env pol pathID conn (Inr (stream, r)) s)) =
     delivered (io_trace s) @ take n (allowed_frames pol r)"
  using frame_pump_general [of env pol server_quiet stream r "s\<lparr>ss := sess_add (ss s) pathID stream\<rparr>"]
  by (auto simp: handle_tun_quic_connection_def Let_def)

lemma receiver_delivers_frames:
  assumes "device_accepts env" "content r = concat (map frame_bytes ps)" "list_all frame_ok ps"
  shows "delivered (io_trace (fst (receive_path_packets env pol path r s))) =
     delivered (io_trace s) @ filter (allow pol) ps"
proof -
  have "read_frames r = (ps, FrameIO (end_err r))"
    using read_frames_exact [OF assms(3,2)] .
  then show ?thesis
    using frame_pump_accepting [OF assms(1), where pol = pol and quiet = client_quiet and st = "cp_stream path"
        and r = r and s = s] remove_and_close_facts
    by (simp add: receive_path_packets_def case_prod_beta)
qed

lemma allowed_packets_ok:
  "subseq ps (filter (allow pol) (read_packets reads)) \<Longrightarrow> list_all frame_ok ps"
proof -
  assume "subseq ps (filter (allow pol) (read_packets reads))"
  then have "set ps \<subseteq> set (filter (allow pol) (read_packets reads))" by (auto elim: list_emb_set)
  then show ?thesis using read_packets_ok unfolding list_all_iff by fastforce
qed

end
