(* ===== verification/Frame_Writer.thy ===== *)
theory Frame_Writer
  imports Transport Systems "HOL-Library.Sublist"
begin

text \<open>
  The bytes on the streams while one goroutine writes frames: \<open>WriteFrame\<close> of
  \<open>internal/quictransport/framing.go\<close> as steps, since other goroutines run between its two
  writes.  A write that fails stops early (the contract of \<open>io.Writer\<close>): any proper part
  of its bytes may be on the stream.  The locale states how a system that owns such a
  writer may use it; the interleaved client and server interpret it.
\<close>

section \<open>\<open>WriteFrame\<close> in steps\<close>

datatype write_point =
    Idle
  | Heading nat bytes            \<comment> \<open>before the header is written to the stream\<close>
  | Paying nat bytes             \<comment> \<open>between header and payload\<close>
  | Cut nat bytes                \<comment> \<open>a write failed\<close>

record frame_writer =
  fw_point :: write_point
  fw_wire :: "nat \<Rightarrow> bytes"         \<comment> \<open>what was put on each stream\<close>
  fw_sent :: "(nat \<times> bytes) list"   \<comment> \<open>the completed frames with their streams\<close>
  fw_cut :: "nat set"                \<comment> \<open>streams on which a write failed\<close>

definition idle_writer :: frame_writer where
  "idle_writer = \<lparr>fw_point = Idle, fw_wire = (\<lambda>_. []), fw_sent = [], fw_cut = {}\<rparr>"

definition put_bytes :: "frame_writer \<Rightarrow> nat \<Rightarrow> bytes \<Rightarrow> write_point \<Rightarrow> frame_writer" where
  "put_bytes w st bs pt = w\<lparr>fw_point := pt, fw_wire := (fw_wire w)(st := fw_wire w st @ bs)\<rparr>"

inductive write_step :: "frame_writer \<Rightarrow> frame_writer \<Rightarrow> bool" where
  wr_header: "fw_point w = Heading st p \<Longrightarrow>
    write_step w (put_bytes w st (be32 (of_nat (length p))) (Paying st p))"
| wr_header_fails: "fw_point w = Heading st p \<Longrightarrow> k < 4 \<Longrightarrow>
    write_step w (put_bytes (w\<lparr>fw_cut := insert st (fw_cut w)\<rparr>) st
      (take k (be32 (of_nat (length p)))) (Cut st p))"
| wr_payload: "fw_point w = Paying st p \<Longrightarrow>
    write_step w (put_bytes (w\<lparr>fw_sent := fw_sent w @ [(st, p)]\<rparr>) st p Idle)"
| wr_payload_fails: "fw_point w = Paying st p \<Longrightarrow> k < length p \<Longrightarrow>
    write_step w (put_bytes (w\<lparr>fw_cut := insert st (fw_cut w)\<rparr>) st (take k p) (Cut st p))"

inductive writer_moves :: "frame_writer \<Rightarrow> frame_writer \<Rightarrow> bool" where
  \<comment> \<open>the steps of \<open>WriteFrame\<close>, its call on an undamaged stream, its return with an error\<close>
  wm_step: "write_step w v \<Longrightarrow> writer_moves w v"
| wm_call: "fw_point w = Idle \<Longrightarrow> st \<notin> fw_cut w \<Longrightarrow> frame_ok p \<Longrightarrow>
    writer_moves w (w\<lparr>fw_point := Heading st p\<rparr>)"
| wm_return: "fw_point w = Cut st p \<Longrightarrow> writer_moves w (w\<lparr>fw_point := Idle\<rparr>)"

section \<open>The invariant\<close>

definition sent_on :: "frame_writer \<Rightarrow> nat \<Rightarrow> bytes list" where
  "sent_on w st = map snd (filter (\<lambda>x. fst x = st) (fw_sent w))"

abbreviation whole :: "frame_writer \<Rightarrow> nat \<Rightarrow> bytes" where
  "whole w st \<equiv> concat (map frame_bytes (sent_on w st))"

definition part_frame :: "bytes \<Rightarrow> bool" where
  \<comment> \<open>the beginning of a frame\<close>
  "part_frame bs \<longleftrightarrow> (\<exists>q. frame_ok q \<and> strict_prefix bs (frame_bytes q))"

fun header_out :: "write_point \<Rightarrow> nat \<Rightarrow> bytes" where
  "header_out (Paying st' p) st = (if st' = st then be32 (of_nat (length p)) else [])"
| "header_out _ st = []"

fun point_ok :: "nat set \<Rightarrow> write_point \<Rightarrow> bool" where
  "point_ok damaged Idle = True"
| "point_ok damaged (Heading st p) = (frame_ok p \<and> st \<notin> damaged)"
| "point_ok damaged (Paying st p) = (frame_ok p \<and> st \<notin> damaged)"
| "point_ok damaged (Cut st p) = (frame_ok p \<and> st \<in> damaged)"

definition writer_ok :: "frame_writer \<Rightarrow> bool" where
  "writer_ok w \<longleftrightarrow> (\<forall>x \<in> set (fw_sent w). frame_ok (snd x)) \<and> point_ok (fw_cut w) (fw_point w) \<and>
     (\<forall>st. st \<notin> fw_cut w \<longrightarrow> fw_wire w st = whole w st @ header_out (fw_point w) st) \<and>
     (\<forall>st \<in> fw_cut w. \<exists>t. part_frame t \<and> fw_wire w st = whole w st @ t)"

lemma part_frames:
  "frame_ok p \<Longrightarrow> k < 4 \<Longrightarrow> part_frame (take k (be32 (of_nat (length p))))"
  "frame_ok p \<Longrightarrow> k < length p \<Longrightarrow> part_frame (be32 (of_nat (length p)) @ take k p)"
  "frame_ok p \<Longrightarrow> part_frame (be32 (of_nat (length p)))"
  "part_frame []"
proof -
  have pre: "part_frame bs" if "frame_ok p" "frame_bytes p = bs @ cs" "cs \<noteq> []" for p bs cs
    using that unfolding part_frame_def strict_prefix_def by (intro exI [of _ p]) auto
  show "part_frame (take k (be32 (of_nat (length p))))" if "frame_ok p" "k < 4"
    using that by (intro pre [OF that(1), of _ "drop k (be32 (of_nat (length p))) @ p"])
      (simp_all add: frame_bytes_def)
  show "part_frame (be32 (of_nat (length p)) @ take k p)" if "frame_ok p" "k < length p"
    using that by (intro pre [OF that(1), of _ "drop k p"]) (simp_all add: frame_bytes_def)
  show "part_frame (be32 (of_nat (length p)))" if "frame_ok p"
    using that by (intro pre [OF that, of _ p]) (simp_all add: frame_bytes_def frame_ok_def)
  show "part_frame []"
    by (intro pre [of "[0]" _ "frame_bytes [0]"]) (simp_all add: frame_ok_def MaxFrameSize_def frame_bytes_def)
qed

lemma put_bytes_simps [simp]:
  "fw_point (put_bytes w st bs pt) = pt" "fw_sent (put_bytes w st bs pt) = fw_sent w"
  "fw_cut (put_bytes w st bs pt) = fw_cut w"
  "fw_wire (put_bytes w st bs pt) st' = (if st' = st then fw_wire w st @ bs else fw_wire w st')"
  by (simp_all add: put_bytes_def)

lemma sent_on_put [simp]: "sent_on (put_bytes w st bs pt) = sent_on w"
  by (simp add: sent_on_def fun_eq_iff)

lemma sent_on_updates [simp]:
  "sent_on (w\<lparr>fw_cut := c\<rparr>) = sent_on w" "sent_on (w\<lparr>fw_point := pt\<rparr>) = sent_on w"
  "sent_on (w\<lparr>fw_sent := fw_sent w @ [(st, p)]\<rparr>) st' =
     (if st' = st then sent_on w st @ [p] else sent_on w st')"
  by (simp_all add: sent_on_def fun_eq_iff)

lemma idle_writer_ok: "writer_ok idle_writer"
  by (simp add: writer_ok_def idle_writer_def sent_on_def)

lemma write_step_ok:
  assumes "write_step w v" "writer_ok w"
  shows "writer_ok v"
  using assms
proof cases
  case (wr_header st p)
  then show ?thesis using assms(2) by (auto simp: writer_ok_def)
next
  case (wr_header_fails st p k)
  then have "frame_ok p" "fw_wire w st = whole w st" using assms(2) by (simp_all add: writer_ok_def)
  with wr_header_fails show ?thesis using assms(2) part_frames(1) [of p k]
    by (auto simp: writer_ok_def)
next
  case (wr_payload st p)
  then show ?thesis using assms(2) by (auto simp: writer_ok_def frame_bytes_def)
next
  case (wr_payload_fails st p k)
  then have "frame_ok p" "fw_wire w st = whole w st @ be32 (of_nat (length p))"
    using assms(2) by (simp_all add: writer_ok_def)
  with wr_payload_fails show ?thesis using assms(2) part_frames(2) [of p k]
    by (auto simp: writer_ok_def)
qed

lemma writer_moves_ok:
  assumes "writer_moves w v" "writer_ok w"
  shows "writer_ok v"
  using assms
proof cases
  case wm_step
  then show ?thesis using assms(2) write_step_ok by simp
next
  case (wm_call st p)
  then show ?thesis using assms(2) by (auto simp: writer_ok_def)
next
  case (wm_return st p)
  then show ?thesis using assms(2) by (auto simp: writer_ok_def)
qed

lemma writer_moves_grow:
  assumes "writer_moves w v"
  shows "prefix (fw_sent w) (fw_sent v)" "prefix (fw_wire w st) (fw_wire v st)" "fw_cut w \<subseteq> fw_cut v"
proof -
  have "prefix (fw_sent w) (fw_sent v) \<and> prefix (fw_wire w st) (fw_wire v st) \<and> fw_cut w \<subseteq> fw_cut v"
    using assms by cases (auto elim!: write_step.cases)
  then show "prefix (fw_sent w) (fw_sent v)" "prefix (fw_wire w st) (fw_wire v st)" "fw_cut w \<subseteq> fw_cut v"
    by simp_all
qed

lemma cut_stays:
  \<comment> \<open>nothing is written to a stream on which a write has failed\<close>
  assumes "writer_moves w v" "writer_ok w" "st \<in> fw_cut w"
  shows "fw_wire v st = fw_wire w st"
  using assms by cases (auto simp: writer_ok_def elim!: write_step.cases)

lemma subseq_appendD:
  "subseq (xs @ ys) zs \<Longrightarrow> subseq xs zs" "subseq (xs @ ys) zs \<Longrightarrow> subseq ys zs"
proof -
  have "subseq xs (xs @ ys)" "subseq ys (xs @ ys)" by auto
  then show "subseq (xs @ ys) zs \<Longrightarrow> subseq xs zs" "subseq (xs @ ys) zs \<Longrightarrow> subseq ys zs"
    using subseq_order.order_trans by blast+
qed

section \<open>The sequential \<open>WriteFrame\<close> refines its steps\<close>

lemma write_frame_steps:
  assumes "frame_ok p" "write_frame_to env st p s = (s', err)" "fw_point w = Heading st p"
    "\<forall>st'. wire st' (io_trace s) = fw_wire w st'"
  obtains v where "write_step\<^sup>*\<^sup>* w v" "\<forall>st'. wire st' (io_trace s') = fw_wire v st'"
    "fw_point v = (if err = None then Idle else Cut st p)"
proof -
  let ?h = "be32 (of_nat (length p))"
  define w1 where "w1 = put_bytes w st ?h (Paying st p)"
  have header: "write_step w w1" unfolding w1_def by (rule wr_header [OF assms(3)])
  have nonempty: "0 < length p" using assms(1) by (simp add: frame_ok_def)
  obtain e1 e2 where out: "write_frame_to env st p s =
     (case e1 of
        Some err \<Rightarrow> (emit (StreamWrite st ?h e1) s, Some (FrameIO err))
      | None \<Rightarrow> (emit (StreamWrite st p e2) (emit (StreamWrite st ?h None) s), map_option FrameIO e2))"
    using write_frame_to_cases [OF assms(1)] by blast
  show ?thesis
  proof (cases e1)
    case (Some e)
    let ?v = "put_bytes (w\<lparr>fw_cut := insert st (fw_cut w)\<rparr>) st (take 0 ?h) (Cut st p)"
    have "write_step w ?v" by (intro wr_header_fails assms(3)) simp
    then have "write_step\<^sup>*\<^sup>* w ?v" by (rule r_into_rtranclp)
    from that [OF this] show ?thesis using out Some assms(2,4) by auto
  next
    case None
    show ?thesis
    proof (cases e2)
      case (Some e)
      let ?v = "put_bytes (w1\<lparr>fw_cut := insert st (fw_cut w1)\<rparr>) st (take 0 p) (Cut st p)"
      have "write_step w1 ?v" using nonempty by (intro wr_payload_fails) (simp_all add: w1_def)
      with header have "write_step\<^sup>*\<^sup>* w ?v" by (blast intro: rtranclp.rtrancl_into_rtrancl)
      from that [OF this] show ?thesis using out Some \<open>e1 = None\<close> assms(2,4) by (auto simp: w1_def)
    next
      case None
      let ?v = "put_bytes (w1\<lparr>fw_sent := fw_sent w1 @ [(st, p)]\<rparr>) st p Idle"
      have "write_step w1 ?v" by (intro wr_payload) (simp add: w1_def)
      with header have "write_step\<^sup>*\<^sup>* w ?v" by (blast intro: rtranclp.rtrancl_into_rtrancl)
      from that [OF this] show ?thesis using out None \<open>e1 = None\<close> assms(2,4) by (auto simp: w1_def)
    qed
  qed
qed

section \<open>Reading such a stream\<close>

lemma frame_prefix_cases:
  \<comment> \<open>a frame at the start of whole frames and a part of one is the first of them\<close>
  assumes "prefix (frame_bytes p @ xs) (concat (map frame_bytes ps) @ t)" "part_frame t" "frame_ok p"
    "list_all frame_ok ps"
  obtains qs where "ps = p # qs" "prefix xs (concat (map frame_bytes qs) @ t)"
proof (cases ps)
  case Nil
  obtain q where q: "frame_ok q" "strict_prefix t (frame_bytes q)" using assms(2) by (auto simp: part_frame_def)
  with assms(1) Nil have "prefix (frame_bytes p) (frame_bytes q)" "strict_prefix (frame_bytes p) (frame_bytes q)"
    by (auto dest: append_prefixD intro: prefix_order.less_imp_le prefix_order.le_less_trans)
  then obtain rest where rest: "frame_bytes q = frame_bytes p @ rest" by (auto simp: prefix_def)
  have "p = q" using frame_result_frame_bytes [OF assms(3), of rest io_eof]
      frame_result_frame_bytes [OF q(1), of "[]" io_eof] rest by simp
  with \<open>strict_prefix (frame_bytes p) (frame_bytes q)\<close> show ?thesis by simp
next
  case (Cons q qs)
  obtain rest where rest: "frame_bytes q @ concat (map frame_bytes qs) @ t = frame_bytes p @ xs @ rest"
    using assms(1) Cons by (auto simp: prefix_def)
  have "p = q" using frame_result_frame_bytes [OF assms(3), of "xs @ rest" io_eof]
      frame_result_frame_bytes [of q "concat (map frame_bytes qs) @ t" io_eof] rest assms(4) Cons by simp
  with that [of qs] Cons rest show ?thesis by (auto simp: prefix_def)
qed

lemma prefix_of_frames:
  assumes "prefix (concat (map frame_bytes ps) @ xs) (concat (map frame_bytes qs) @ t)" "part_frame t"
    "list_all frame_ok ps" "list_all frame_ok qs"
  shows "prefix ps qs"
  using assms
proof (induction ps arbitrary: qs)
  case (Cons p ps)
  then have "prefix (frame_bytes p @ concat (map frame_bytes ps) @ xs) (concat (map frame_bytes qs) @ t)"
    "frame_ok p" by simp_all
  then obtain rs where "qs = p # rs" "prefix (concat (map frame_bytes ps) @ xs) (concat (map frame_bytes rs) @ t)"
    using Cons.prems by (auto elim: frame_prefix_cases)
  with Cons show ?case by simp
qed simp

lemma read_part_of_stream:
  \<comment> \<open>whoever has received a part of the bytes reads a part of the completed frames\<close>
  assumes "writer_ok w" "prefix (content r) (fw_wire w st)"
  shows "prefix (fst (read_frames r)) (sent_on w st)"
proof -
  obtain t where t: "fw_wire w st = whole w st @ t" "part_frame t"
  proof (cases "st \<in> fw_cut w")
    case False
    have "part_frame (header_out (fw_point w) st)"
      using assms(1) part_frames(3,4) by (cases "fw_point w") (auto simp: writer_ok_def)
    with False that [of "header_out (fw_point w) st"] assms(1) show ?thesis by (simp add: writer_ok_def)
  qed (use assms(1) in \<open>auto simp: writer_ok_def\<close>)
  obtain xs where "content r = concat (map frame_bytes (fst (read_frames r))) @ xs"
    using read_frames_split [of r] by blast
  moreover have "list_all frame_ok (sent_on w st)"
    using assms(1) by (auto simp: writer_ok_def sent_on_def list_all_iff)
  ultimately show ?thesis
    using prefix_of_frames [OF _ t(2) read_frames_ok] assms(2) t(1) by simp
qed

lemma read_part_of_frames:
  assumes "prefix (content r) (concat (map frame_bytes ps))" "list_all frame_ok ps"
  shows "prefix (fst (read_frames r)) ps"
proof -
  obtain xs where "content r = concat (map frame_bytes (fst (read_frames r))) @ xs"
    using read_frames_split [of r] by blast
  then show ?thesis
    using prefix_of_frames [of _ xs ps "[]", OF _ part_frames(4) read_frames_ok assms(2)] assms(1) by simp
qed

lemma read_whole_stream:
  assumes "writer_ok w" "content r = fw_wire w st" "st \<notin> fw_cut w" "fw_point w = Idle"
  shows "fst (read_frames r) = sent_on w st"
proof -
  have "list_all frame_ok (sent_on w st)" using assms(1) by (auto simp: writer_ok_def sent_on_def list_all_iff)
  moreover have "content r = whole w st" using assms by (simp add: writer_ok_def)
  ultimately show ?thesis using read_frames_exact by simp
qed

section \<open>Systems with a frame writer\<close>

text \<open>
  A system uses its writer properly when every step leaves the writer alone or is one of
  its moves.  Then every stream holds whole frames and at most a part of one more, streams
  only grow, and nothing follows a failed write.
\<close>

locale frame_sender = step_invariant step inv
  for step :: "'y \<Rightarrow> 'y \<Rightarrow> bool" and inv :: "'y \<Rightarrow> bool" +
  fixes writer :: "'y \<Rightarrow> frame_writer"
  assumes step_writer: "inv y \<Longrightarrow> step y z \<Longrightarrow> writer z = writer y \<or> writer_moves (writer y) (writer z)"
    and inv_writer: "inv y \<Longrightarrow> writer_ok (writer y)"
begin

lemma steps_grow:
  assumes "step\<^sup>*\<^sup>* y z" "inv y"
  shows "prefix (fw_wire (writer y) st) (fw_wire (writer z) st) \<and>
    prefix (fw_sent (writer y)) (fw_sent (writer z)) \<and> fw_cut (writer y) \<subseteq> fw_cut (writer z)"
proof -
  let ?R = "\<lambda>y z. prefix (fw_wire (writer y) st) (fw_wire (writer z) st) \<and>
    prefix (fw_sent (writer y)) (fw_sent (writer z)) \<and> fw_cut (writer y) \<subseteq> fw_cut (writer z)"
  have one: "?R y z" if "inv y" "step y z" for y z
    using step_writer [OF that] writer_moves_grow [of "writer y" "writer z"] by auto
  have trans: "transp ?R"
  proof (rule transpI)
    show "?R x z" if "?R x y" "?R y z" for x y z
      using that prefix_order.order_trans subset_trans by meson
  qed
  have "reflp ?R" by (rule reflpI) simp
  from steps_relate [of ?R, OF one this trans assms] show ?thesis .
qed

lemma cut_for_good:
  assumes "step\<^sup>*\<^sup>* y z" "inv y" "st \<in> fw_cut (writer y)"
  shows "fw_wire (writer z) st = fw_wire (writer y) st"
proof -
  let ?R = "\<lambda>y z. st \<in> fw_cut (writer y) \<longrightarrow> st \<in> fw_cut (writer z) \<and> fw_wire (writer z) st = fw_wire (writer y) st"
  have one: "?R y z" if "inv y" "step y z" for y z
    using step_writer [OF that] cut_stays [OF _ inv_writer [OF that(1)], of "writer z" st]
      writer_moves_grow [of "writer y" "writer z"] by auto
  have trans: "transp ?R" by (rule transpI) simp
  have "reflp ?R" by (rule reflpI) simp
  from steps_relate [of ?R, OF one this trans assms(1,2)] assms(3) show ?thesis by simp
qed

lemma reader_gets_prefix:
  assumes "inv y" "prefix (content r) (fw_wire (writer y) st)"
  shows "prefix (fst (read_frames r)) (sent_on (writer y) st)"
  using read_part_of_stream [OF inv_writer] assms by blast

end

end
