(* ===== verification/Client_Wire.thy ===== *)
theory Client_Wire
  imports Client_System Frame_Writer
begin

text \<open>
  The packets of the TUN client in \<open>internal/quictransport/client.go\<close> while its goroutines are
  interleaved: \<open>sendTUNPackets\<close> takes a packet from the device, tries the paths that
  \<open>nextPath\<close> gives until \<open>WriteFrame\<close> succeeds on one, and the bytes appear on the streams
  write by write.  The state extends the one of Client_System, whose steps the sender, the
  receivers, the redial loops and the return of \<open>pumpTUN\<close> make here too.
\<close>

section \<open>States and steps\<close>

record client_wire =
  cw_sys :: client_system
  cw_writer :: frame_writer
  cw_packet :: "bytes option"       \<comment> \<open>what the sender is trying to send\<close>
  cw_taken :: "bytes list"          \<comment> \<open>the allowed packets read from the device\<close>

definition start_wire :: "client_path list \<Rightarrow> client_wire" where
  "start_wire ps = \<lparr>cw_sys = start_system ps, cw_writer = idle_writer, cw_packet = None, cw_taken = []\<rparr>"

inductive sending_step :: "packet_policy \<Rightarrow> client_wire \<Rightarrow> client_wire \<Rightarrow> bool" for pol :: packet_policy where
  \<comment> \<open>\<open>sendTUNPackets\<close>\<close>
  cw_takes: "cy_sender (cw_sys y) = Waiting \<Longrightarrow> cw_packet y = None \<Longrightarrow> packet = take MaxFrameSize bs \<Longrightarrow>
    packet \<noteq> [] \<Longrightarrow> allow pol packet \<Longrightarrow>
    sending_step pol y (y\<lparr>cw_packet := Some packet, cw_taken := cw_taken y @ [packet]\<rparr>)"
| cw_no_path: "cy_sender (cw_sys y) = Waiting \<Longrightarrow> cw_packet y = Some packet \<Longrightarrow>
    fst (cps_next_path (cy_set (cw_sys y)) now) = None \<Longrightarrow>
    sending_step pol y (y\<lparr>cw_packet := None\<rparr>)"
| cw_picks: "cy_sender (cw_sys y) = Waiting \<Longrightarrow> cw_packet y = Some packet \<Longrightarrow>
    sender_step (cw_sys y) s \<Longrightarrow> cy_sender s = Writing q \<Longrightarrow>
    sending_step pol y (y\<lparr>cw_sys := s, cw_writer := (cw_writer y)\<lparr>fw_point := Heading (cp_stream q) packet\<rparr>\<rparr>)"
| cw_writes: "cy_sender (cw_sys y) = Writing q \<Longrightarrow> write_step (cw_writer y) w \<Longrightarrow>
    sending_step pol y (y\<lparr>cw_writer := w\<rparr>)"
| cw_sent: "cy_sender (cw_sys y) = Writing q \<Longrightarrow> fw_point (cw_writer y) = Idle \<Longrightarrow>
    sender_step (cw_sys y) s \<Longrightarrow> cy_sender s = Waiting \<Longrightarrow>
    sending_step pol y (y\<lparr>cw_sys := s, cw_packet := None\<rparr>)"
| cw_fails: "cy_sender (cw_sys y) = Writing q \<Longrightarrow> fw_point (cw_writer y) = Cut st p \<Longrightarrow>
    sender_step (cw_sys y) s \<Longrightarrow> cy_sender s = Failed_Write q \<Longrightarrow>
    sending_step pol y (y\<lparr>cw_sys := s, cw_writer := (cw_writer y)\<lparr>fw_point := Idle\<rparr>\<rparr>)"
| cw_cleans: "cy_sender (cw_sys y) \<in> {Failed_Write q, Marked q, Closing q} \<Longrightarrow>
    sender_step (cw_sys y) s \<Longrightarrow> sending_step pol y (y\<lparr>cw_sys := s\<rparr>)"

inductive wire_step :: "packet_policy \<Rightarrow> int set \<Rightarrow> client_wire \<Rightarrow> client_wire \<Rightarrow> bool"
  for pol :: packet_policy and specs :: "int set" where
  wire_sends: "sending_step pol y z \<Longrightarrow> wire_step pol specs y z"
| wire_receives: "receiver_step (cw_sys y) s \<Longrightarrow> wire_step pol specs y (y\<lparr>cw_sys := s\<rparr>)"
| wire_redials: "redial_step specs (cw_sys y) s \<Longrightarrow> wire_step pol specs y (y\<lparr>cw_sys := s\<rparr>)"
| wire_returns: "pump_returns (cw_sys y) s \<Longrightarrow> wire_step pol specs y (y\<lparr>cw_sys := s\<rparr>)"

definition wire_reachable :: "packet_policy \<Rightarrow> int set \<Rightarrow> client_path list \<Rightarrow> client_wire \<Rightarrow> bool" where
  "wire_reachable pol specs ps y \<longleftrightarrow> (wire_step pol specs)\<^sup>*\<^sup>* (start_wire ps) y"

lemma wire_step_system:
  \<comment> \<open>the packets change nothing for the paths\<close>
  assumes "wire_step pol specs y z"
  shows "cw_sys z = cw_sys y \<or> sys_step specs (cw_sys y) (cw_sys z)"
  using assms
proof cases
  case wire_sends
  then show ?thesis by cases (auto intro: sender_moves)
qed (auto intro: sys_step.intros)

interpretation wire_part: system_part "wire_step pol specs" "sys_step specs" cw_sys for pol specs
  by unfold_locales (rule wire_step_system)

interpretation wire_running: invariant_part "wire_step pol specs" "sys_step specs" cw_sys "running_inv specs"
  for pol specs ..

lemma wire_reachable_system: "wire_reachable pol specs ps y \<Longrightarrow> reachable specs ps (cw_sys y)"
  using wire_part.part_steps by (fastforce simp: wire_reachable_def reachable_iff start_wire_def)

lemma wire_keeps_paths:
  \<comment> \<open>what Client_System shows of the paths holds while packets are sent\<close>
  "(wire_step pol specs)\<^sup>*\<^sup>* y z \<Longrightarrow> running_inv specs (cw_sys y) \<Longrightarrow> \<not> cy_stopped (cw_sys z) \<Longrightarrow> sys_inv specs (cw_sys z)"
  using wire_running.outer.steps_inv by (auto simp: running_inv_def)

section \<open>Streams that were damaged\<close>

fun sender_streams :: "sender_point \<Rightarrow> nat set" where
  "sender_streams (Writing q) = {cp_stream q}"
| "sender_streams (Failed_Write q) = {cp_stream q}"
| "sender_streams (Marked q) = {cp_stream q}"
| "sender_streams _ = {}"

definition fresh_dials :: "(int \<Rightarrow> redial_point) \<Rightarrow> nat set \<Rightarrow> bool" where
  \<comment> \<open>the redial loops hold different streams, all from this set\<close>
  "fresh_dials r A \<longleftrightarrow> (\<forall>i p. r i = Dialled p \<longrightarrow> cp_stream p \<in> A) \<and>
     (\<forall>i j p q. r i = Dialled p \<longrightarrow> r j = Dialled q \<longrightarrow> cp_stream p = cp_stream q \<longrightarrow> i = j)"

definition occupied :: "nat set \<Rightarrow> client_system \<Rightarrow> nat set" where
  "occupied D s = cp_stream ` active s \<union> D \<union> sender_streams (cy_sender s)"

definition stream_inv :: "nat set \<Rightarrow> nat set \<Rightarrow> client_system \<Rightarrow> bool" where
  \<comment> \<open>of the damaged streams only those in \<open>F\<close> are active, and none of them is dialled anew\<close>
  "stream_inv D F s \<longleftrightarrow> path_set_ok (cy_set s) \<and> occupied D s \<subseteq> cy_used s \<and>
     fresh_dials (cy_redial s) (cy_used s - occupied D s) \<and> cp_stream ` active s \<inter> D \<subseteq> F"

lemma fresh_dialsD:
  assumes "fresh_dials r A"
  shows "r i = Dialled p \<Longrightarrow> cp_stream p \<in> A"
    "r i = Dialled p \<Longrightarrow> r j = Dialled q \<Longrightarrow> cp_stream p = cp_stream q \<Longrightarrow> i = j"
  using assms by (simp_all add: fresh_dials_def)

lemma fresh_dialsI:
  assumes "\<And>i p. r i = Dialled p \<Longrightarrow> cp_stream p \<in> A"
    "\<And>i j p q. r i = Dialled p \<Longrightarrow> r j = Dialled q \<Longrightarrow> cp_stream p = cp_stream q \<Longrightarrow> i = j"
  shows "fresh_dials r A"
  using assms by (simp add: fresh_dials_def)

lemma fresh_dials_mono: "fresh_dials r A \<Longrightarrow> A \<subseteq> B \<Longrightarrow> fresh_dials r B"
  by (auto simp: fresh_dials_def)

lemma fresh_dials_sub:
  assumes "fresh_dials r A" "\<And>j q. r' j = Dialled q \<Longrightarrow> r j = Dialled q"
  shows "fresh_dials r' A"
proof (rule fresh_dialsI)
  show "cp_stream p \<in> A" if "r' i = Dialled p" for i p
    using fresh_dialsD(1) [OF assms(1) assms(2) [OF that]] .
  show "i = j" if "r' i = Dialled p" "r' j = Dialled q" "cp_stream p = cp_stream q" for i j p q
    using fresh_dialsD(2) [OF assms(1) assms(2) [OF that(1)] assms(2) [OF that(2)] that(3)] .
qed

lemma fresh_dials_drop:
  assumes "fresh_dials r A" "\<And>p. x \<noteq> Dialled p"
  shows "fresh_dials (r(i := x)) A"
proof (rule fresh_dials_sub [OF assms(1)])
  show "r j = Dialled q" if "(r(i := x)) j = Dialled q" for j q
    using that assms(2) [of q] by (cases "j = i") simp_all
qed

lemma fresh_dials_start:
  assumes "fresh_dials r A" "r i = Dialled p"
  shows "fresh_dials (r(i := Starting p)) (A - {cp_stream p})"
proof (rule fresh_dialsI)
  fix j q assume j: "(r(i := Starting p)) j = Dialled q"
  then have r: "r j = Dialled q" "j \<noteq> i" by (simp_all split: if_splits)
  then have "cp_stream q \<noteq> cp_stream p" using fresh_dialsD(2) [OF assms(1) r(1) assms(2)] by metis
  with fresh_dialsD(1) [OF assms(1) r(1)] show "cp_stream q \<in> A - {cp_stream p}" by simp
next
  fix j k q q' assume "(r(i := Starting p)) j = Dialled q" "(r(i := Starting p)) k = Dialled q'"
    "cp_stream q = cp_stream q'"
  with fresh_dialsD(2) [OF assms(1), of j q k q'] show "j = k" by (simp split: if_splits)
qed

lemma fresh_dials_dial:
  assumes "fresh_dials r A" "cp_stream p \<notin> A"
  shows "fresh_dials (r(i := Dialled p)) (insert (cp_stream p) A)"
proof (rule fresh_dialsI)
  fix j q assume "(r(i := Dialled p)) j = Dialled q"
  with fresh_dialsD(1) [OF assms(1), of j q] show "cp_stream q \<in> insert (cp_stream p) A"
    by (simp split: if_splits)
next
  fix j k q q'
  assume dialled: "(r(i := Dialled p)) j = Dialled q" "(r(i := Dialled p)) k = Dialled q'"
    and same: "cp_stream q = cp_stream q'"
  have old: "l \<noteq> i \<Longrightarrow> (r(i := Dialled p)) l = Dialled q \<Longrightarrow> cp_stream q \<in> A" for l q
    using fresh_dialsD(1) [OF assms(1), of l q] by simp
  have new: "l = i \<Longrightarrow> (r(i := Dialled p)) l = Dialled q \<Longrightarrow> cp_stream q \<notin> A" for l q
    using assms(2) by simp
  show "j = k"
  proof (cases "j = i")
    case True
    with new [OF True dialled(1)] old [OF _ dialled(2)] same show ?thesis by metis
  next
    case False
    moreover have "k \<noteq> i" using old [OF False dialled(1)] new [OF _ dialled(2)] same by metis
    ultimately show ?thesis
      using fresh_dialsD(2) [OF assms(1), of j q k q'] dialled same by simp
  qed
qed

lemma stream_inv_shrinks:
  assumes "stream_inv D F s" "path_set_ok (cy_set t)" "active t \<subseteq> active s"
    "cy_redial t = cy_redial s" "cy_used t = cy_used s"
    "sender_streams (cy_sender t) \<subseteq> sender_streams (cy_sender s) \<union> cp_stream ` active s"
  shows "stream_inv D F t"
proof -
  have act: "cp_stream ` active t \<subseteq> cp_stream ` active s" using assms(3) by (rule image_mono)
  then have "occupied D t \<subseteq> occupied D s" using assms(6) unfolding occupied_def by blast
  then have "cy_used s - occupied D s \<subseteq> cy_used s - occupied D t" "occupied D t \<subseteq> cy_used s"
    using assms(1) by (auto simp: stream_inv_def)
  moreover have "fresh_dials (cy_redial s) (cy_used s - occupied D s)" "cp_stream ` active s \<inter> D \<subseteq> F"
    using assms(1) by (simp_all add: stream_inv_def)
  then have "fresh_dials (cy_redial s) (cy_used s - occupied D t)" "cp_stream ` active t \<inter> D \<subseteq> F"
    using fresh_dials_mono [OF _ calculation(1)] act by (simp, blast)
  ultimately show ?thesis using assms(2) by (simp add: stream_inv_def assms(4,5))
qed

lemma removed:
  assumes "path_set_ok s" "cps_remove s st = (r, s')"
  shows "path_set_ok s'" "set (cps_paths s') \<subseteq> set (cps_paths s)" "st \<notin> cp_stream ` set (cps_paths s')"
proof -
  have "path_set_ok s' \<and> set (cps_paths s') \<subseteq> set (cps_paths s) \<and> st \<notin> cp_stream ` set (cps_paths s')"
  proof (cases r)
    case None
    with assms show ?thesis using remove_missed [of s st s'] by auto
  next
    case (Some q)
    with assms(2) have rm: "cps_remove s st = (Some q, s')" by simp
    show ?thesis using remove_found [OF assms(1) rm] stream_of_active [OF assms(1)] by auto
  qed
  then show "path_set_ok s'" "set (cps_paths s') \<subseteq> set (cps_paths s)" "st \<notin> cp_stream ` set (cps_paths s')"
    by simp_all
qed

lemma added:
  assumes "cps_add s p = (r, s')"
  shows "set (cps_paths s') \<subseteq> insert p (set (cps_paths s))"
proof -
  have "set (cps_paths s') \<subseteq> insert p (set (cps_paths s))" if "s' = snd (cps_add s p)"
    using that set_update_subset_insert by (fastforce simp: cps_add_def split: option.splits)
  with assms show ?thesis by simp
qed

lemma sender_streams_step:
  assumes "sender_step s t" "stream_inv D F s"
  shows "stream_inv D F t"
proof -
  note d = assms(2) [unfolded stream_inv_def]
  show ?thesis
    using assms(1)
  proof cases
    case (snd_pick now p ps)
    have "fst (cps_next_path (cy_set s) now) = Some p" "snd (cps_next_path (cy_set s) now) = ps"
      using snd_pick(3) by simp_all
    then have "p \<in> active s" "cps_paths ps = cps_paths (cy_set s)" "path_set_ok ps"
      using next_path_member next_path_paths next_path_ok d by (auto simp: active_def)
    with snd_pick d show ?thesis
      by (intro stream_inv_shrinks [OF assms(2)]) (auto simp: active_def)
  next
    case (snd_sender_removes p q ps)
    with removed [OF _ snd_sender_removes(3)] d show ?thesis
      by (intro stream_inv_shrinks [OF assms(2)]) (auto simp: active_def)
  next
    case (snd_sender_too_late p ps)
    with removed [OF _ snd_sender_too_late(3)] d show ?thesis
      by (intro stream_inv_shrinks [OF assms(2)]) (auto simp: active_def)
  qed (use d in \<open>auto intro!: stream_inv_shrinks [OF assms(2)] simp: active_def\<close>)
qed

lemma sender_removes_stream:
  assumes "sender_step s t" "stream_inv D F s" "cy_sender s = Marked p"
  shows "stream_inv D (F - {cp_stream p}) t"
proof -
  have "cp_stream p \<notin> cp_stream ` active t"
    using assms(1,3)
  proof cases
    case (snd_sender_removes p' q ps)
    with removed(3) [OF _ snd_sender_removes(3)] assms(2,3) show ?thesis
      by (auto simp: active_def stream_inv_def)
  next
    case (snd_sender_too_late p' ps)
    with removed(3) [OF _ snd_sender_too_late(3)] assms(2,3) show ?thesis
      by (auto simp: active_def stream_inv_def)
  qed simp_all
  with sender_streams_step [OF assms(1,2)] show ?thesis unfolding stream_inv_def by blast
qed

lemma receiver_streams_step:
  assumes "receiver_step s t" "stream_inv D F s"
  shows "stream_inv D F t"
  using assms(1)
proof cases
  case (rcv_receiver_removes rs p rs' q ps)
  with removed [OF _ rcv_receiver_removes(3)] assms(2) show ?thesis
    by (intro stream_inv_shrinks [OF assms(2)]) (auto simp: active_def stream_inv_def)
next
  case (rcv_receiver_too_late rs p rs' ps)
  with removed [OF _ rcv_receiver_too_late(3)] assms(2) show ?thesis
    by (intro stream_inv_shrinks [OF assms(2)]) (auto simp: active_def stream_inv_def)
qed (use assms(2) in \<open>simp add: stream_inv_def active_def occupied_def\<close>)

lemma added_streams:
  assumes "stream_inv D F s" "cy_redial s i = Dialled p" "cps_add (cy_set s) p = (r, ps)"
    "cy_set t = ps" "cy_redial t = (cy_redial s)(i := Starting p)" "cy_sender t = cy_sender s"
    "cy_used t = cy_used s"
  shows "stream_inv D F t"
proof -
  note d = assms(1) [unfolded stream_inv_def]
  have p: "cp_stream p \<in> cy_used s" "cp_stream p \<notin> occupied D s"
    using d fresh_dialsD(1) [of "cy_redial s" _ i p] assms(2) by blast+
  have "active t \<subseteq> insert p (active s)" using added [OF assms(3)] assms(4) by (simp add: active_def)
  then have act: "cp_stream ` active t \<subseteq> insert (cp_stream p) (cp_stream ` active s)" by auto
  then have occ: "occupied D t \<subseteq> insert (cp_stream p) (occupied D s)"
    using act unfolding occupied_def assms(6) by blast
  have "path_set_ok (cy_set t)"
    using add_ok [of "cy_set s" p] d p(2) assms(3,4) by (simp add: active_def occupied_def)
  moreover have "occupied D t \<subseteq> cy_used t" using occ d p(1) assms(7) by auto
  moreover have "fresh_dials (cy_redial t) (cy_used t - occupied D t)"
  proof (rule fresh_dials_mono)
    show "fresh_dials (cy_redial t) (cy_used s - occupied D s - {cp_stream p})"
      unfolding assms(5) using d assms(2) by (intro fresh_dials_start) simp_all
  qed (use occ assms(7) in auto)
  moreover have "cp_stream ` active t \<inter> D \<subseteq> F"
  proof -
    have sub: "B \<inter> D \<subseteq> F" if "B \<subseteq> insert a A" "a \<notin> D" "A \<inter> D \<subseteq> F" for A B and a :: nat
      using that by blast
    show ?thesis by (rule sub [OF act]) (use d p(2) in \<open>simp_all add: occupied_def\<close>)
  qed
  ultimately show ?thesis by (simp add: stream_inv_def)
qed

lemma polled_streams:
  assumes "stream_inv D F s" "t = s\<lparr>cy_redial := (cy_redial s)(i := x)\<rparr>" "\<And>p. x \<noteq> Dialled p"
  shows "stream_inv D F t"
  using assms fresh_dials_drop [of "cy_redial s" _ x]
  by (simp add: stream_inv_def occupied_def active_def)

lemma redial_streams_step:
  assumes "redial_step specs s t" "stream_inv D F s"
  shows "stream_inv D F t"
  using assms(1)
proof cases
  case (red_adds i p ps)
  then show ?thesis by (intro added_streams [OF assms(2) red_adds(2,3)]) simp_all
next
  case (red_replaces i p old ps)
  then show ?thesis by (intro added_streams [OF assms(2) red_replaces(2,3)]) simp_all
next
  case (red_dials i p)
  have occ: "occupied D t = occupied D s" using red_dials(1) by (simp add: occupied_def active_def)
  have fresh: "cp_stream p \<notin> occupied D s" using red_dials(4) assms(2) by (auto simp: stream_inv_def)
  have "fresh_dials (cy_redial t) (insert (cp_stream p) (cy_used s - occupied D s))"
    using red_dials(1,4) assms(2) fresh_dials_dial [of "cy_redial s" _ p i] by (simp add: stream_inv_def)
  then have "fresh_dials (cy_redial t) (cy_used t - occupied D t)"
    by (rule fresh_dials_mono) (use occ fresh red_dials(1) in auto)
  with assms(2) occ red_dials(1) show ?thesis by (auto simp: stream_inv_def active_def)
next
  case (red_finds_missing i)
  then show ?thesis by (intro polled_streams [OF assms(2)]) auto
next
  case (red_dial_fails i)
  then show ?thesis by (intro polled_streams [OF assms(2)]) auto
next
  case (red_starts i p)
  then have "stream_inv D F (s\<lparr>cy_redial := (cy_redial s)(i := Polling)\<rparr>)"
    by (intro polled_streams [OF assms(2)]) auto
  with red_starts show ?thesis by (simp add: stream_inv_def occupied_def active_def)
qed

lemma return_streams_step:
  assumes "pump_returns s t" "stream_inv D F s"
  shows "stream_inv D F t"
  using assms(1) by cases (use assms(2) in \<open>simp add: stream_inv_def occupied_def active_def\<close>)

lemma system_streams_step:
  assumes "sys_step specs s t" "stream_inv D F s"
  shows "stream_inv D F t"
  using assms sender_streams_step receiver_streams_step redial_streams_step return_streams_step
  by cases blast+

section \<open>The invariant\<close>

fun unsent :: "sender_point \<Rightarrow> write_point \<Rightarrow> bytes option \<Rightarrow> bytes list" where
  \<comment> \<open>the packet that no stream has got whole yet\<close>
  "unsent s pt None = []"
| "unsent (Writing q) Idle (Some p) = []"
| "unsent s pt (Some p) = [p]"

fun writes_agree :: "sender_point \<Rightarrow> write_point \<Rightarrow> bytes option \<Rightarrow> bool" where
  "writes_agree (Writing q) pt pkt = (\<exists>p. pkt = Some p \<and>
     pt \<in> {Heading (cp_stream q) p, Paying (cp_stream q) p, Cut (cp_stream q) p, Idle})"
| "writes_agree s pt pkt = (pt = Idle)"

fun cut_streams :: "sender_point \<Rightarrow> write_point \<Rightarrow> nat set" where
  \<comment> \<open>the damaged stream that the sender is about to give up\<close>
  "cut_streams (Writing q) (Cut st p) = {cp_stream q}"
| "cut_streams (Failed_Write q) pt = {cp_stream q}"
| "cut_streams (Marked q) pt = {cp_stream q}"
| "cut_streams s pt = {}"

definition wire_inv :: "packet_policy \<Rightarrow> client_wire \<Rightarrow> bool" where
  "wire_inv pol y \<longleftrightarrow> writer_ok (cw_writer y) \<and>
     writes_agree (cy_sender (cw_sys y)) (fw_point (cw_writer y)) (cw_packet y) \<and>
     stream_inv (fw_cut (cw_writer y)) (cut_streams (cy_sender (cw_sys y)) (fw_point (cw_writer y))) (cw_sys y) \<and>
     subseq (map snd (fw_sent (cw_writer y)) @
       unsent (cy_sender (cw_sys y)) (fw_point (cw_writer y)) (cw_packet y)) (cw_taken y) \<and>
     (\<forall>p \<in> set (cw_taken y). frame_ok p \<and> allow pol p)"

lemma unsent_frame_ok:
  assumes "wire_inv pol y" "p \<in> set (unsent (cy_sender (cw_sys y)) (fw_point (cw_writer y)) (cw_packet y))"
  shows "frame_ok p"
proof -
  have "subseq (unsent (cy_sender (cw_sys y)) (fw_point (cw_writer y)) (cw_packet y)) (cw_taken y)"
    using assms(1) subseq_appendD(2) unfolding wire_inv_def by blast
  then have "p \<in> set (cw_taken y)" using list_emb_set [OF _ assms(2)] by blast
  with assms(1) show ?thesis by (simp add: wire_inv_def)
qed

lemma start_wire_inv:
  assumes "distinct (map cp_id ps)" "distinct (map cp_stream ps)"
  shows "wire_inv pol (start_wire ps)"
proof -
  have "stream_inv {} {} (start_system ps)"
    using path_set_ok_new [OF assms]
    by (auto simp: stream_inv_def occupied_def active_def start_system_def fresh_dials_def new_client_path_set_def)
  then show ?thesis using idle_writer_ok
    by (simp add: wire_inv_def start_wire_def) (simp add: start_system_def idle_writer_def)
qed

lemma damaged_streams:
  \<comment> \<open>the stream the sender is writing to becomes damaged\<close>
  assumes "stream_inv D {} s" "st \<in> sender_streams (cy_sender s)"
  shows "stream_inv (insert st D) {st} s"
proof -
  have "occupied (insert st D) s = occupied D s" using assms(2) by (auto simp: occupied_def)
  with assms(1) show ?thesis by (auto simp: stream_inv_def)
qed

lemma others_keep_sender:
  "receiver_step s t \<Longrightarrow> cy_sender t = cy_sender s"
  "redial_step specs s t \<Longrightarrow> cy_sender t = cy_sender s"
  "pump_returns s t \<Longrightarrow> cy_sender t = cy_sender s"
  by (auto elim: receiver_step.cases redial_step.cases pump_returns.cases)

lemma others_wire_inv:
  assumes "wire_inv pol y" "sys_step specs (cw_sys y) s" "cy_sender s = cy_sender (cw_sys y)"
  shows "wire_inv pol (y\<lparr>cw_sys := s\<rparr>)"
  using assms system_streams_step [OF assms(2)] by (simp add: wire_inv_def)

lemma pick_wire_inv:
  assumes "wire_inv pol y" "cy_sender (cw_sys y) = Waiting" "cw_packet y = Some packet"
    "sender_step (cw_sys y) s" "cy_sender s = Writing q"
    "z = y\<lparr>cw_sys := s, cw_writer := (cw_writer y)\<lparr>fw_point := Heading (cp_stream q) packet\<rparr>\<rparr>"
  shows "wire_inv pol z \<and> writer_moves (cw_writer y) (cw_writer z)"
proof -
  note wi = assms(1) [unfolded wire_inv_def]
  have idle: "fw_point (cw_writer y) = Idle" using wi assms(2) by simp
  have "q \<in> active (cw_sys y)"
    using assms(4)
  proof cases
    case (snd_pick now p ps)
    with assms(5) next_path_member [of "cy_set (cw_sys y)" now q] show ?thesis by (simp add: active_def)
  qed (use assms(2,5) in simp_all)
  then have undamaged: "cp_stream q \<notin> fw_cut (cw_writer y)"
    using wi assms(2) idle by (auto simp: stream_inv_def)
  have "frame_ok packet" using unsent_frame_ok [OF assms(1), of packet] assms(2,3) idle by simp
  then have call: "writer_moves (cw_writer y) ((cw_writer y)\<lparr>fw_point := Heading (cp_stream q) packet\<rparr>)"
    using idle undamaged by (intro wm_call)
  then have "writer_ok ((cw_writer y)\<lparr>fw_point := Heading (cp_stream q) packet\<rparr>)"
    using wi by (intro writer_moves_ok [OF call]) simp
  with assms wi idle call sender_streams_step [OF assms(4)] show ?thesis
    by (auto simp: wire_inv_def)
qed

lemma clean_wire_inv:
  assumes "wire_inv pol y" "cy_sender (cw_sys y) \<in> {Failed_Write q, Marked q, Closing q}"
    "sender_step (cw_sys y) s"
  shows "wire_inv pol (y\<lparr>cw_sys := s\<rparr>)"
proof -
  note wi = assms(1) [unfolded wire_inv_def]
  note keep = sender_streams_step [OF assms(3)] and removes = sender_removes_stream [OF assms(3)]
  from assms(3) show ?thesis
  proof cases
    case (snd_mark_failure p now)
    with assms(2) wi keep show ?thesis by (cases "cw_packet y") (auto simp: wire_inv_def)
  next
    case (snd_sender_removes p r ps)
    with assms(2) wi removes show ?thesis by (cases "cw_packet y") (fastforce simp: wire_inv_def)+
  next
    case (snd_sender_too_late p ps)
    with assms(2) wi removes show ?thesis by (cases "cw_packet y") (fastforce simp: wire_inv_def)+
  next
    case (snd_sender_closes r)
    with assms(2) wi keep show ?thesis by (cases "cw_packet y") (auto simp: wire_inv_def)
  qed (use assms(2) in simp_all)
qed

lemma sending_wire_inv:
  assumes "sending_step pol y z" "wire_inv pol y"
  shows "wire_inv pol z \<and> (cw_writer z = cw_writer y \<or> writer_moves (cw_writer y) (cw_writer z))"
proof -
  note wi = assms(2) [unfolded wire_inv_def]
  show ?thesis
    using assms(1)
  proof cases
    case (cw_takes packet bs)
    then have "frame_ok packet" by (auto simp: frame_ok_def)
    with cw_takes wi show ?thesis by (auto simp: wire_inv_def list_emb_append_mono)
  next
    case (cw_no_path packet now)
    with wi show ?thesis by (auto simp: wire_inv_def dest: subseq_appendD(1))
  next
    case (cw_picks packet s q)
    show ?thesis using pick_wire_inv [OF assms(2) cw_picks(2-5,1)] by blast
  next
    case (cw_writes q w)
    then have w: "writer_ok w" using wi write_step_ok by simp
    have moves: "writer_moves (cw_writer y) w" using cw_writes(3) by (rule wm_step)
    note damage = damaged_streams [of "fw_cut (cw_writer y)" "cw_sys y" "cp_stream q"]
    from cw_writes(3) show ?thesis
      by cases (use cw_writes(1,2) w moves wi damage in \<open>auto simp: wire_inv_def\<close>)
  next
    case (cw_sent q s)
    with wi sender_streams_step [OF cw_sent(4)] show ?thesis by (auto simp: wire_inv_def)
  next
    case (cw_fails q st p s)
    then have ret: "writer_moves (cw_writer y) ((cw_writer y)\<lparr>fw_point := Idle\<rparr>)" by (intro wm_return)
    then have "writer_ok ((cw_writer y)\<lparr>fw_point := Idle\<rparr>)" using wi by (intro writer_moves_ok [OF ret]) simp
    with cw_fails wi ret sender_streams_step [OF cw_fails(4)] show ?thesis
      by (auto simp: wire_inv_def)
  next
    case (cw_cleans q s)
    then show ?thesis using clean_wire_inv [OF assms(2)] by simp
  qed
qed

lemma wire_step_inv:
  assumes "wire_step pol specs y z" "wire_inv pol y"
  shows "wire_inv pol z \<and> (cw_writer z = cw_writer y \<or> writer_moves (cw_writer y) (cw_writer z))"
  using assms(1)
proof cases
  case wire_sends
  then show ?thesis using sending_wire_inv assms(2) by blast
next
  case (wire_receives s)
  with others_wire_inv [OF assms(2) receiver_moves] others_keep_sender(1) show ?thesis by simp
next
  case (wire_redials s)
  with others_wire_inv [OF assms(2) redial_moves] others_keep_sender(2) show ?thesis by simp
next
  case (wire_returns s)
  with others_wire_inv [OF assms(2) pump_moves] others_keep_sender(3) show ?thesis by simp
qed

interpretation client_frames: frame_sender "wire_step pol specs" "wire_inv pol" cw_writer for pol specs
proof (unfold_locales, goal_cases)
  case (1 y z)
  then show ?case using wire_step_inv by blast
next
  case (2 y z)
  then show ?case using wire_step_inv by blast
next
  case (3 y)
  then show ?case by (simp add: wire_inv_def)
qed

lemma wire_reachable_inv:
  "wire_reachable pol specs ps y \<Longrightarrow> distinct (map cp_id ps) \<Longrightarrow> distinct (map cp_stream ps) \<Longrightarrow> wire_inv pol y"
  unfolding wire_reachable_def using client_frames.steps_inv start_wire_inv by blast

section \<open>The sequential sender refines the interleaved one\<close>

definition wire_sim :: "client_state \<Rightarrow> client_wire \<Rightarrow> bool" where
  \<comment> \<open>the same paths and closed streams, and the same bytes on every stream\<close>
  "wire_sim s y \<longleftrightarrow> sim s (cw_sys y) \<and> (\<forall>st. wire st (io_trace s) = fw_wire (cw_writer y) st)"

lemma sending_writes:
  assumes "write_step\<^sup>*\<^sup>* (cw_writer y) w" "cy_sender (cw_sys y) = Writing q"
  shows "(wire_step pol specs)\<^sup>*\<^sup>* y (y\<lparr>cw_writer := w\<rparr>)"
proof -
  have "wire_step pol specs (y\<lparr>cw_writer := u\<rparr>) (y\<lparr>cw_writer := v\<rparr>)" if "write_step u v" for u v
    using cw_writes [of "y\<lparr>cw_writer := u\<rparr>" q v pol] that assms(2) by (simp add: wire_sends)
  from steps_embed [OF assms(1), of "wire_step pol specs" "\<lambda>v. y\<lparr>cw_writer := v\<rparr>", OF this] show ?thesis by simp
qed

lemma sending_writes_frame:
  \<comment> \<open>one attempt at a path, up to the answer of \<open>WriteFrame\<close>\<close>
  assumes "client_next_path env s = (Some q, s1)" "frame_ok p"
    "write_frame_to env (cp_stream q) p s1 = (s2, err)" "wire_sim s y" "cw_packet y = Some p"
  obtains z where "(wire_step pol specs)\<^sup>*\<^sup>* y z" "cy_sender (cw_sys z) = Writing q"
    "cy_set (cw_sys z) = cs_paths s2" "cy_closed (cw_sys z) = closed_streams (io_trace s2)"
    "\<forall>st. wire st (io_trace s2) = fw_wire (cw_writer z) st" "cw_packet z = Some p"
    "fw_point (cw_writer z) = (if err = None then Idle else Cut (cp_stream q) p)"
proof -
  obtain now where now: "fst (cps_next_path (cs_paths s) now) = Some q"
    "s1 = (emit (Now now) s)\<lparr>cs_paths := snd (cps_next_path (cs_paths s) now)\<rparr>"
    using assms(1) by (auto elim!: next_path_cases)
  let ?sys = "(cw_sys y)\<lparr>cy_set := cs_paths s1, cy_sender := Writing q\<rparr>"
  let ?y1 = "y\<lparr>cw_sys := ?sys, cw_writer := (cw_writer y)\<lparr>fw_point := Heading (cp_stream q) p\<rparr>\<rparr>"
  have sim: "cs_paths s = cy_set (cw_sys y)" "cy_sender (cw_sys y) = Waiting"
    "closed_streams (io_trace s) = cy_closed (cw_sys y)"
    "\<forall>st. wire st (io_trace s) = fw_wire (cw_writer y) st"
    using assms(4) by (simp_all add: wire_sim_def sim_def)
  then have "cps_next_path (cy_set (cw_sys y)) now = (Some q, cs_paths s1)"
    using now by (simp add: prod_eq_iff)
  with sim(2) have "sender_step (cw_sys y) ?sys" by (intro snd_pick)
  then have pick: "wire_step pol specs y ?y1"
    using assms(5) sim(2) by (intro wire_sends cw_picks) simp_all
  have "\<forall>st. wire st (io_trace s1) = fw_wire (cw_writer ?y1) st" using sim(4) now(2) by simp
  then obtain w where w: "write_step\<^sup>*\<^sup>* (cw_writer ?y1) w" "\<forall>st. wire st (io_trace s2) = fw_wire w st"
    "fw_point w = (if err = None then Idle else Cut (cp_stream q) p)"
    using write_frame_steps [OF assms(2,3), of "cw_writer ?y1"] by auto
  have "(wire_step pol specs)\<^sup>*\<^sup>* ?y1 (?y1\<lparr>cw_writer := w\<rparr>)" using w(1) by (intro sending_writes) simp_all
  with pick have reach: "(wire_step pol specs)\<^sup>*\<^sup>* y (?y1\<lparr>cw_writer := w\<rparr>)"
    by (rule converse_rtranclp_into_rtranclp)
  have "cs_paths s2 = cs_paths s1" using assms(3) by (intro cs_paths_io write_frame_to_frame(3))
  moreover have "closed_streams (io_trace s2) = closed_streams (io_trace s)"
    using write_frame_to_closes [OF assms(2,3)] now(2) by simp
  ultimately show ?thesis using that [OF reach] w(2,3) sim(3) assms(5) by simp
qed

lemma sender_success_steps:
  assumes "client_next_path env s = (Some q, s1)" "frame_ok p"
    "write_frame_to env (cp_stream q) p s1 = (s2, None)" "wire_sim s y" "cw_packet y = Some p"
  shows "\<exists>z. (wire_step pol specs)\<^sup>*\<^sup>* y z \<and> cw_packet z = None \<and>
    wire_sim (count_op f (client_mark_success (cp_id q) s2)) z"
proof -
  obtain z where z: "(wire_step pol specs)\<^sup>*\<^sup>* y z" "cy_sender (cw_sys z) = Writing q"
    "cy_set (cw_sys z) = cs_paths s2" "cy_closed (cw_sys z) = closed_streams (io_trace s2)"
    "\<forall>st. wire st (io_trace s2) = fw_wire (cw_writer z) st" "fw_point (cw_writer z) = Idle"
    by (rule sending_writes_frame [OF assms, of pol specs]) (rule that, simp_all)
  let ?sys = "(cw_sys z)\<lparr>cy_set := cps_mark_success (cy_set (cw_sys z)) (cp_id q), cy_sender := Waiting\<rparr>"
  have "wire_step pol specs z (z\<lparr>cw_sys := ?sys, cw_packet := None\<rparr>)"
    using z(2,6) snd_write_ok [OF z(2)] by (intro wire_sends cw_sent) simp_all
  with z(1) have "(wire_step pol specs)\<^sup>*\<^sup>* y (z\<lparr>cw_sys := ?sys, cw_packet := None\<rparr>)"
    by (rule rtranclp.rtrancl_into_rtrancl)
  moreover have "wire_sim (count_op f (client_mark_success (cp_id q) s2)) (z\<lparr>cw_sys := ?sys, cw_packet := None\<rparr>)"
    using z(3-5) by (simp add: wire_sim_def sim_def) (simp add: client_mark_success_def)
  ultimately show ?thesis by (intro exI [of _ "z\<lparr>cw_sys := ?sys, cw_packet := None\<rparr>"]) simp
qed

lemma sender_failure_steps:
  assumes "client_next_path env s = (Some q, s1)" "frame_ok p"
    "write_frame_to env (cp_stream q) p s1 = (s2, Some e)" "wire_sim s y" "cw_packet y = Some p"
    "client_ok s2" "q \<in> set (cps_paths (cs_paths s2))"
  shows "\<exists>z. (wire_step pol specs)\<^sup>*\<^sup>* y z \<and> cw_packet z = Some p \<and> wire_sim (drop_broken_path env q s2) z"
proof -
  obtain z where z: "(wire_step pol specs)\<^sup>*\<^sup>* y z" "cy_sender (cw_sys z) = Writing q"
    "cy_set (cw_sys z) = cs_paths s2" "cy_closed (cw_sys z) = closed_streams (io_trace s2)"
    "\<forall>st. wire st (io_trace s2) = fw_wire (cw_writer z) st" "cw_packet z = Some p"
    "fw_point (cw_writer z) = Cut (cp_stream q) p"
    by (rule sending_writes_frame [OF assms(1-5), of pol specs]) (rule that, simp_all)
  obtain now m ps where
    d: "m = snd (cps_mark_failure (cs_paths s2) now (cp_id q))" "cps_remove m (cp_stream q) = (Some q, ps)"
      "drop_broken_path env q s2 =
         close_client_path q (emit (Now now) (count_op add_error s2)\<lparr>cs_paths := ps\<rparr>)"
    by (rule drop_broken_path_eq [OF assms(6,7), of env]) (rule that)
  define s3 where "s3 = (cw_sys z)\<lparr>cy_sender := Failed_Write q\<rparr>"
  define s4 where "s4 = s3\<lparr>cy_set := m, cy_sender := Marked q\<rparr>"
  define s5 where "s5 = s4\<lparr>cy_set := ps, cy_sender := Closing q\<rparr>"
  define s6 where "s6 = s5\<lparr>cy_closed := cp_stream q # cy_closed s5, cy_sender := Waiting\<rparr>"
  define z3 where "z3 = z\<lparr>cw_sys := s3, cw_writer := (cw_writer z)\<lparr>fw_point := Idle\<rparr>\<rparr>"
  have clean: "wire_step pol specs (z3\<lparr>cw_sys := a\<rparr>) (z3\<lparr>cw_sys := b\<rparr>)"
    if "sender_step a b" "cy_sender a \<in> {Failed_Write q, Marked q, Closing q}" for a b
    using cw_cleans [of "z3\<lparr>cw_sys := a\<rparr>" q b pol] that by (simp add: wire_sends)
  have "sender_step (cw_sys z) s3" unfolding s3_def by (rule snd_write_fails [OF z(2)])
  then have "wire_step pol specs z z3"
    using z(2,7) unfolding z3_def by (intro wire_sends cw_fails) (simp_all add: s3_def)
  with z(1) have "(wire_step pol specs)\<^sup>*\<^sup>* y z3" by (rule rtranclp.rtrancl_into_rtrancl)
  also have "z3 = z3\<lparr>cw_sys := s3\<rparr>" by (simp add: z3_def)
  also have "wire_step pol specs (z3\<lparr>cw_sys := s3\<rparr>) (z3\<lparr>cw_sys := s4\<rparr>)"
    using snd_mark_failure [of s3 q now] d(1) z(3) by (intro clean) (simp_all add: s4_def s3_def)
  also have "wire_step pol specs (z3\<lparr>cw_sys := s4\<rparr>) (z3\<lparr>cw_sys := s5\<rparr>)"
    unfolding s5_def using d(2) by (intro clean snd_sender_removes [of _ q]) (simp_all add: s4_def)
  also have "wire_step pol specs (z3\<lparr>cw_sys := s5\<rparr>) (z3\<lparr>cw_sys := s6\<rparr>)"
    unfolding s6_def by (intro clean snd_sender_closes) (simp_all add: s5_def)
  finally have "(wire_step pol specs)\<^sup>*\<^sup>* y (z3\<lparr>cw_sys := s6\<rparr>)" .
  moreover have "wire_sim (drop_broken_path env q s2) (z3\<lparr>cw_sys := s6\<rparr>)"
    using z(4,5) by (cases "cp_conn q")
      (simp_all add: wire_sim_def sim_def d(3) z3_def s6_def s5_def s4_def s3_def close_client_path_def Let_def)
  ultimately show ?thesis using z(6) by (intro exI [of _ "z3\<lparr>cw_sys := s6\<rparr>"]) (simp add: z3_def)
qed

section \<open>Properties\<close>

text \<open>
  (C4) In every interleaving of the client's goroutines, whatever writes fail and whenever
  \<open>pumpTUN\<close> returns, every stream carries whole frames: whoever has received a part of its
  bytes reads the first of the packets sent whole on it.  Over all streams together these
  are, in order, some of the allowed packets read from the device: failover sends no packet
  whole twice.
\<close>
theorem client_streams_carry_whole_frames:
  assumes "wire_reachable pol specs ps y" "distinct (map cp_id ps)" "distinct (map cp_stream ps)"
    "prefix (content r) (fw_wire (cw_writer y) st)"
  shows "prefix (fst (read_frames r)) (sent_on (cw_writer y) st) \<and>
    subseq (map snd (fw_sent (cw_writer y))) (cw_taken y) \<and> list_all (allow pol) (cw_taken y)"
proof -
  note inv = wire_reachable_inv [OF assms(1-3)]
  from client_frames.reader_gets_prefix [OF inv assms(4)] inv show ?thesis
    by (auto simp: wire_inv_def list_all_iff dest: subseq_appendD(1))
qed

text \<open>
  (C9) The sequential model of sending one packet refines the interleaved one: whatever the
  failover loop does to the path set, to the streams it closes and to the bytes on every
  stream, the sender's steps reach the same path set, the same closed streams and the same
  bytes, and the packet is done with.
\<close>
theorem sender_refines_wire:
  assumes "client_ok s" "frame_ok p" "wire_sim s y" "cw_packet y = Some p"
  shows "\<exists>z. (wire_step pol specs)\<^sup>*\<^sup>* y z \<and> cw_packet z = None \<and> wire_sim (send_packet env p s) z"
proof -
  let ?goal = "\<lambda>s r. \<forall>y. wire_sim s y \<and> cw_packet y = Some p \<longrightarrow>
    (\<exists>z. (wire_step pol specs)\<^sup>*\<^sup>* y z \<and> cw_packet z = None \<and> wire_sim r z)"
  have "?goal s (send_packet env p s)"
    using assms(1)
  proof (induction rule: send_packet_induct [where env = env and p = p])
    case (empty s)
    show ?case
    proof (intro allI impI)
      fix y assume y: "wire_sim s y \<and> cw_packet y = Some p"
      then have "wire_step pol specs y (y\<lparr>cw_packet := None\<rparr>)"
        using empty(2) by (intro wire_sends cw_no_path) (simp_all add: wire_sim_def sim_def)
      moreover have "wire_sim (count_op add_drop s) (y\<lparr>cw_packet := None\<rparr>)"
        using y by (simp add: wire_sim_def sim_def)
      ultimately show "\<exists>z. (wire_step pol specs)\<^sup>*\<^sup>* y z \<and> cw_packet z = None \<and> wire_sim (count_op add_drop s) z"
        by (intro exI [of _ "y\<lparr>cw_packet := None\<rparr>"]) (simp add: r_into_rtranclp)
    qed
  next
    case (sent s q s1 s2)
    then show ?case using sender_success_steps [OF sent(2) assms(2) sent(3)] by blast
  next
    case (retry s q s1 s2 e r)
    show ?case
    proof (intro allI impI)
      fix y assume y: "wire_sim s y \<and> cw_packet y = Some p"
      then obtain z where z: "(wire_step pol specs)\<^sup>*\<^sup>* y z" "cw_packet z = Some p"
        "wire_sim (drop_broken_path env q s2) z"
        using sender_failure_steps [OF retry(2) assms(2) retry(3) _ _ retry(4,5)] by blast
      with retry(6) obtain z' where "(wire_step pol specs)\<^sup>*\<^sup>* z z'" "cw_packet z' = None" "wire_sim r z'" by blast
      with z(1) show "\<exists>z. (wire_step pol specs)\<^sup>*\<^sup>* y z \<and> cw_packet z = None \<and> wire_sim r z"
        by (blast intro: rtranclp_trans)
    qed
  qed
  with assms(3,4) show ?thesis by blast
qed

theorem sender_refines_wire_witness:
  "\<exists>z. (wire_step \<lparr>allowedCIDR = None\<rparr> {0, 1})\<^sup>*\<^sup>*
      ((start_wire [example_path 0 10, example_path 1 11])\<lparr>cw_packet := Some [1, 2, 3]\<rparr>) z \<and>
     cw_packet z = None \<and> wire_sim (send_packet (half_broken_env 10) [1, 2, 3] (two_paths [])) z"
proof -
  have "wire_sim (two_paths []) ((start_wire [example_path 0 10, example_path 1 11])\<lparr>cw_packet := Some [1, 2, 3]\<rparr>)"
    by (simp add: wire_sim_def sim_def two_paths_def start_wire_def start_system_def idle_writer_def)
  moreover have "frame_ok [1, 2, 3]" by (simp add: frame_ok_def MaxFrameSize_def)
  ultimately show ?thesis by (intro sender_refines_wire [OF two_paths_ok]) simp_all
qed

section \<open>A concrete run\<close>

definition first_pick :: client_system where
  "first_pick = (start_system [first_path])
     \<lparr>cy_set := \<lparr>cps_paths = [first_path], cps_next = 0, cps_health = (\<lambda>_. None)\<rparr>, cy_sender := Writing first_path\<rparr>"

definition wire_run :: "frame_writer \<Rightarrow> client_wire" where
  "wire_run w = \<lparr>cw_sys = first_pick, cw_writer = w, cw_packet = Some [5, 6], cw_taken = [[5, 6]]\<rparr>"

definition two_frames :: frame_writer where
  "two_frames = \<lparr>fw_point = Idle, fw_wire = (\<lambda>_. [])(8 := [0, 0, 0, 2, 5, 6]), fw_sent = [(8, [5, 6])], fw_cut = {}\<rparr>"

lemma reach_wire_step:
  "wire_reachable pol specs ps y \<Longrightarrow> wire_step pol specs y z \<Longrightarrow> wire_reachable pol specs ps z"
  unfolding wire_reachable_def by (rule rtranclp.rtrancl_into_rtrancl)

lemma first_pick_step: "sender_step (start_system [first_path]) first_pick"
proof -
  let ?s = "start_system [first_path]"
  have "cps_next_path (cy_set ?s) 1 = (Some first_path, cy_set first_pick)"
    by (simp add: cps_next_path_def choose_index_def start_system_def new_client_path_set_def first_pick_def
        health_of_def zero_health_def is_cooling_down_def Let_def)
  from snd_pick [OF _ this] show ?thesis by (simp add: start_system_def first_pick_def)
qed

lemma reach_two_frames:
  "wire_reachable \<lparr>allowedCIDR = None\<rparr> {0} [first_path] (wire_run two_frames)"
proof -
  let ?pol = "\<lparr>allowedCIDR = None\<rparr>" and ?h = "idle_writer\<lparr>fw_point := Heading 8 [5, 6]\<rparr>"
  let ?y0 = "start_wire [first_path]"
  let ?y1 = "?y0\<lparr>cw_packet := Some [5, 6], cw_taken := cw_taken ?y0 @ [[5, 6]]\<rparr>"
  let ?p = "put_bytes ?h 8 (be32 (of_nat (length [5 :: byte, 6]))) (Paying 8 [5, 6])"
  have writes: "wire_step ?pol {0} (wire_run w) (wire_run v)" if "write_step w v" for w v
    using cw_writes [of "wire_run w" first_path v ?pol] that
    by (simp add: wire_run_def) (simp add: first_pick_def wire_sends)
  have "wire_reachable ?pol {0} [first_path] ?y0" by (simp add: wire_reachable_def)
  moreover have "wire_step ?pol {0} ?y0 ?y1"
    by (rule wire_sends, rule cw_takes [where bs = "[5, 6]"])
      (simp_all add: start_wire_def start_system_def MaxFrameSize_def allow_def)
  ultimately have "wire_reachable ?pol {0} [first_path] ?y1" by (rule reach_wire_step)
  moreover have "wire_step ?pol {0} ?y1 (wire_run ?h)"
    using cw_picks [of ?y1 "[5, 6]" first_pick first_path ?pol] first_pick_step
    by (simp add: start_wire_def wire_run_def) (simp add: start_system_def first_pick_def first_path_def wire_sends)
  ultimately have "wire_reachable ?pol {0} [first_path] (wire_run ?h)" by (rule reach_wire_step)
  moreover have "write_step ?h ?p" by (intro wr_header) simp
  then have "wire_step ?pol {0} (wire_run ?h) (wire_run ?p)" by (rule writes)
  ultimately have "wire_reachable ?pol {0} [first_path] (wire_run ?p)" by (rule reach_wire_step)
  moreover have "write_step ?p two_frames"
    using wr_payload [of ?p 8 "[5, 6]"] by (simp add: put_bytes_def idle_writer_def two_frames_def be32_def)
  then have "wire_step ?pol {0} (wire_run ?p) (wire_run two_frames)" by (rule writes)
  ultimately show ?thesis by (rule reach_wire_step)
qed

lemma first_path_distinct: "distinct (map cp_id [first_path])" "distinct (map cp_stream [first_path])"
  by simp_all

theorem client_streams_carry_whole_frames_witness:
  "prefix (fst (read_frames \<lparr>chunks = [[0, 0], [0, 2, 5]], end_err = io_eof, eager = False\<rparr>)) [[5, 6]] \<and>
   subseq [[5, 6]] (cw_taken (wire_run two_frames))"
proof -
  have "prefix (content \<lparr>chunks = [[0, 0], [0, 2, 5]], end_err = io_eof, eager = False\<rparr>)
      (fw_wire (cw_writer (wire_run two_frames)) 8)"
    by (simp add: content_def wire_run_def two_frames_def)
  from client_streams_carry_whole_frames [OF reach_two_frames first_path_distinct this] show ?thesis
    by (simp add: wire_run_def two_frames_def sent_on_def)
qed

end
