(* ===== verification/Server_System.thy ===== *)
theory Server_System
  imports Server_Session Frame_Writer "HOL-Library.Option_ord"
begin

text \<open>
  The goroutines of the TUN server in \<open>internal/quictransport/server.go\<close> interleaved:
  \<open>forwardDevicePackets\<close> and one \<open>handleTUNQUICConnection\<close> per accepted stream share the
  session, under \<open>pathsMu\<close>, and the device, under \<open>deviceWriteMu\<close>.  The critical sections
  and the single writes are the steps.  A stream that quic-go hands out is a new one; what
  it will deliver is \<open>sy_readers\<close>.  Counters and log lines are left out.
\<close>

section \<open>States and steps\<close>

datatype forward_point =
    Fetching                     \<comment> \<open>in \<open>device.Read\<close>\<close>
  | Picking bytes                \<comment> \<open>before \<open>pathsMu.Lock\<close> in \<open>writeNextPath\<close>\<close>
  | Sending server_path bytes    \<comment> \<open>in \<open>WriteFrame\<close> or before \<open>removePath\<close>\<close>

datatype handler_point =
    Joining int                  \<comment> \<open>before \<open>addPath\<close>\<close>
  | Reading int                  \<comment> \<open>in the loop over \<open>ReadFrame\<close>\<close>
  | Leaving int                  \<comment> \<open>before the deferred \<open>removePath\<close>\<close>
  | Closing_Stream int           \<comment> \<open>before the deferred \<open>stream.Close\<close>\<close>
  | Ended int

record server_system =
  sy_session :: server_session
  sy_forward :: forward_point
  sy_handlers :: "nat \<Rightarrow> handler_point option"  \<comment> \<open>by stream\<close>
  sy_readers :: "nat \<Rightarrow> reader"
  sy_writer :: frame_writer
  sy_taken :: "bytes list"               \<comment> \<open>the allowed packets read from the device\<close>
  sy_device :: "(nat \<times> bytes) list"     \<comment> \<open>the packets written to it, with their streams\<close>

definition start_server :: "(nat \<Rightarrow> reader) \<Rightarrow> server_system" where
  "start_server R = \<lparr>sy_session = new_server_tun_session, sy_forward = Fetching,
     sy_handlers = (\<lambda>_. None), sy_readers = R, sy_writer = idle_writer, sy_taken = [], sy_device = []\<rparr>"

inductive forward_step :: "packet_policy \<Rightarrow> server_system \<Rightarrow> server_system \<Rightarrow> bool"
  for pol :: packet_policy where
  \<comment> \<open>\<open>forwardDevicePackets\<close> and \<open>writeNextPath\<close>; a denied or empty read changes nothing\<close>
  fwd_reads: "sy_forward y = Fetching \<Longrightarrow> packet = take MaxFrameSize bs \<Longrightarrow> packet \<noteq> [] \<Longrightarrow>
    allow pol packet \<Longrightarrow>
    forward_step pol y (y\<lparr>sy_forward := Picking packet, sy_taken := sy_taken y @ [packet]\<rparr>)"
| fwd_no_path: "sy_forward y = Picking packet \<Longrightarrow> sess_pick (sy_session y) = (None, s) \<Longrightarrow>
    forward_step pol y (y\<lparr>sy_session := s, sy_forward := Fetching\<rparr>)"
| fwd_picks: "sy_forward y = Picking packet \<Longrightarrow> sess_pick (sy_session y) = (Some path, s) \<Longrightarrow>
    forward_step pol y (y\<lparr>sy_session := s, sy_forward := Sending path packet,
      sy_writer := (sy_writer y)\<lparr>fw_point := Heading (sp_stream path) packet\<rparr>\<rparr>)"
| fwd_writes: "sy_forward y = Sending path packet \<Longrightarrow> write_step (sy_writer y) w \<Longrightarrow>
    forward_step pol y (y\<lparr>sy_writer := w\<rparr>)"
| fwd_sent: "sy_forward y = Sending path packet \<Longrightarrow> fw_point (sy_writer y) = Idle \<Longrightarrow>
    forward_step pol y (y\<lparr>sy_forward := Fetching\<rparr>)"
| fwd_removes: "sy_forward y = Sending path packet \<Longrightarrow> fw_point (sy_writer y) = Cut st p \<Longrightarrow>
    forward_step pol y (y\<lparr>sy_session := sess_remove (sy_session y) (sp_stream path),
      sy_forward := Fetching, sy_writer := (sy_writer y)\<lparr>fw_point := Idle\<rparr>\<rparr>)"

inductive handler_step :: "packet_policy \<Rightarrow> server_system \<Rightarrow> server_system \<Rightarrow> bool"
  for pol :: packet_policy where
  \<comment> \<open>\<open>handleTUNQUICConnection\<close>\<close>
  hdl_accepts: "sy_handlers y st = None \<Longrightarrow>
    handler_step pol y (y\<lparr>sy_handlers := (sy_handlers y)(st \<mapsto> Joining i)\<rparr>)"
| hdl_joins: "sy_handlers y st = Some (Joining i) \<Longrightarrow>
    handler_step pol y (y\<lparr>sy_session := sess_add (sy_session y) i st,
      sy_handlers := (sy_handlers y)(st \<mapsto> Reading i)\<rparr>)"
| hdl_denies: "sy_handlers y st = Some (Reading i) \<Longrightarrow>
    read_frame (sy_readers y st) = (Inr packet, r) \<Longrightarrow> \<not> allow pol packet \<Longrightarrow>
    handler_step pol y (y\<lparr>sy_readers := (sy_readers y)(st := r)\<rparr>)"
| hdl_delivers: "sy_handlers y st = Some (Reading i) \<Longrightarrow>
    read_frame (sy_readers y st) = (Inr packet, r) \<Longrightarrow> allow pol packet \<Longrightarrow>
    handler_step pol y (y\<lparr>sy_readers := (sy_readers y)(st := r), sy_device := sy_device y @ [(st, packet)]\<rparr>)"
| hdl_device_fails: "sy_handlers y st = Some (Reading i) \<Longrightarrow>
    read_frame (sy_readers y st) = (Inr packet, r) \<Longrightarrow> allow pol packet \<Longrightarrow>
    handler_step pol y (y\<lparr>sy_readers := (sy_readers y)(st := r),
      sy_handlers := (sy_handlers y)(st \<mapsto> Leaving i)\<rparr>)"
| hdl_stream_ends: "sy_handlers y st = Some (Reading i) \<Longrightarrow>
    read_frame (sy_readers y st) = (Inl err, r) \<Longrightarrow>
    handler_step pol y (y\<lparr>sy_readers := (sy_readers y)(st := r),
      sy_handlers := (sy_handlers y)(st \<mapsto> Leaving i)\<rparr>)"
| hdl_leaves: "sy_handlers y st = Some (Leaving i) \<Longrightarrow>
    handler_step pol y (y\<lparr>sy_session := sess_remove (sy_session y) st,
      sy_handlers := (sy_handlers y)(st \<mapsto> Closing_Stream i)\<rparr>)"
| hdl_closes: "sy_handlers y st = Some (Closing_Stream i) \<Longrightarrow>
    handler_step pol y (y\<lparr>sy_handlers := (sy_handlers y)(st \<mapsto> Ended i)\<rparr>)"

inductive srv_step :: "packet_policy \<Rightarrow> server_system \<Rightarrow> server_system \<Rightarrow> bool" for pol :: packet_policy where
  forward_moves: "forward_step pol y z \<Longrightarrow> srv_step pol y z"
| handler_moves: "handler_step pol y z \<Longrightarrow> srv_step pol y z"

definition srv_reachable :: "packet_policy \<Rightarrow> (nat \<Rightarrow> reader) \<Rightarrow> server_system \<Rightarrow> bool" where
  "srv_reachable pol R y \<longleftrightarrow> (srv_step pol)\<^sup>*\<^sup>* (start_server R) y"

inductive_cases forward_stepE: "forward_step pol y z"
inductive_cases handler_stepE: "handler_step pol y z"
inductive_simps srv_step_iff: "srv_step pol y z"

section \<open>Handlers only advance\<close>

fun handler_rank :: "handler_point \<Rightarrow> nat" where
  "handler_rank (Joining i) = 0"
| "handler_rank (Reading i) = 1"
| "handler_rank (Leaving i) = 2"
| "handler_rank (Closing_Stream i) = 3"
| "handler_rank (Ended i) = 4"

fun handler_path :: "handler_point \<Rightarrow> int" where
  "handler_path (Joining i) = i"
| "handler_path (Reading i) = i"
| "handler_path (Leaving i) = i"
| "handler_path (Closing_Stream i) = i"
| "handler_path (Ended i) = i"

lemma handler_point_eqI: "handler_rank a = handler_rank b \<Longrightarrow> handler_path a = handler_path b \<Longrightarrow> a = b"
  by (cases a; cases b) simp_all

instantiation handler_point :: linorder
begin

definition less_eq_handler_point :: "handler_point \<Rightarrow> handler_point \<Rightarrow> bool" where
  "less_eq_handler_point a b \<longleftrightarrow> handler_rank a < handler_rank b \<or>
     handler_rank a = handler_rank b \<and> handler_path a \<le> handler_path b"

definition less_handler_point :: "handler_point \<Rightarrow> handler_point \<Rightarrow> bool" where
  "less_handler_point a b \<longleftrightarrow> a \<le> b \<and> \<not> b \<le> a"

instance
  by standard (auto simp: less_eq_handler_point_def less_handler_point_def intro: handler_point_eqI)

end

lemma handlers_advance: "srv_step pol y z \<Longrightarrow> sy_handlers y \<le> sy_handlers z"
  by (auto simp: srv_step_iff le_fun_def less_eq_handler_point_def elim!: forward_stepE handler_stepE)

section \<open>The invariant\<close>

definition session_streams :: "server_system \<Rightarrow> nat set" where
  "session_streams y = sp_stream ` set (sess_paths (sy_session y))"

definition live_inv :: "server_system \<Rightarrow> bool" where
  \<comment> \<open>every path of the session belongs to a handler that has joined and not left\<close>
  "live_inv y \<longleftrightarrow> session_ok (sy_session y) \<and>
     (\<forall>path \<in> set (sess_paths (sy_session y)).
        sy_handlers y (sp_stream path) \<in> {Some (Reading (sp_id path)), Some (Leaving (sp_id path))})"

definition joined :: "server_system \<Rightarrow> nat set" where
  "joined y = {st. \<exists>pt. sy_handlers y st = Some pt \<and> (\<forall>i. pt \<noteq> Joining i)}"

fun in_flight :: "forward_point \<Rightarrow> write_point \<Rightarrow> bytes list" where
  "in_flight Fetching pt = []"
| "in_flight (Picking p) pt = [p]"
| "in_flight (Sending path p) pt = (if pt = Idle then [] else [p])"

fun points_agree :: "forward_point \<Rightarrow> write_point \<Rightarrow> bool" where
  "points_agree (Sending path p) pt = (pt \<in> {Heading (sp_stream path) p, Paying (sp_stream path) p,
     Cut (sp_stream path) p, Idle})"
| "points_agree f pt = (pt = Idle)"

fun being_cut :: "write_point \<Rightarrow> nat set" where
  "being_cut (Cut st p) = {st}"
| "being_cut _ = {}"

definition forward_inv :: "packet_policy \<Rightarrow> server_system \<Rightarrow> bool" where
  \<comment> \<open>a damaged stream leaves the session before the next pick and never comes back\<close>
  "forward_inv pol y \<longleftrightarrow> writer_ok (sy_writer y) \<and>
     points_agree (sy_forward y) (fw_point (sy_writer y)) \<and>
     fw_cut (sy_writer y) \<inter> session_streams y \<subseteq> being_cut (fw_point (sy_writer y)) \<and>
     fw_cut (sy_writer y) \<subseteq> joined y \<and>
     (case sy_forward y of Sending path p \<Rightarrow> sp_stream path \<in> joined y | _ \<Rightarrow> True) \<and>
     subseq (map snd (fw_sent (sy_writer y)) @ in_flight (sy_forward y) (fw_point (sy_writer y))) (sy_taken y) \<and>
     (\<forall>p \<in> set (sy_taken y). frame_ok p \<and> allow pol p)"

definition srv_inv :: "packet_policy \<Rightarrow> server_system \<Rightarrow> bool" where
  "srv_inv pol y \<longleftrightarrow> live_inv y \<and> forward_inv pol y"

lemma joined_iff: "st \<in> joined y \<longleftrightarrow> (\<exists>pt. sy_handlers y st = Some pt \<and> 0 < handler_rank pt)"
proof -
  have "(\<forall>i. pt \<noteq> Joining i) \<longleftrightarrow> 0 < handler_rank pt" for pt by (cases pt) simp_all
  then show ?thesis by (simp add: joined_def)
qed

lemma joined_mono:
  assumes "sy_handlers y \<le> sy_handlers z"
  shows "joined y \<subseteq> joined z"
proof
  fix st assume "st \<in> joined y"
  then obtain pt where pt: "sy_handlers y st = Some pt" "0 < handler_rank pt"
    by (auto simp: joined_iff)
  moreover have "sy_handlers y st \<le> sy_handlers z st" using assms by (rule le_funD)
  ultimately obtain pt' where "sy_handlers z st = Some pt'" "pt \<le> pt'"
    by (cases "sy_handlers z st") auto
  with pt(2) show "st \<in> joined z" by (auto simp: joined_iff less_eq_handler_point_def)
qed

lemma session_streams_joined: "live_inv y \<Longrightarrow> session_streams y \<subseteq> joined y"
  by (fastforce simp: live_inv_def session_streams_def joined_def)

lemma start_server_inv: "srv_inv pol (start_server R)"
  using session_ok_new idle_writer_ok
  by (simp add: srv_inv_def live_inv_def forward_inv_def start_server_def session_streams_def)
    (simp add: new_server_tun_session_def idle_writer_def)

lemma handler_live:
  assumes "handler_step pol y z" "live_inv y"
  shows "live_inv z"
  using assms
proof cases
  case (hdl_joins st i)
  have "sy_handlers y st \<noteq> None" "\<forall>path \<in> set (sess_paths (sy_session y)). sp_stream path \<noteq> st"
    using hdl_joins(2) assms(2) by (fastforce simp: live_inv_def)+
  with hdl_joins assms(2) show ?thesis
    using sess_add_ok [of "sy_session y" st i] by (auto simp: live_inv_def sess_add_def)
next
  case (hdl_leaves st i)
  with assms(2) show ?thesis
    using sess_remove_ok [of "sy_session y" st] sess_remove_set [of "sy_session y" st]
    by (auto simp: live_inv_def)
qed (use assms(2) in \<open>fastforce simp: live_inv_def\<close>)+

lemma forward_live:
  assumes "forward_step pol y z" "live_inv y"
  shows "live_inv z"
  using assms
proof cases
  case (fwd_no_path p s)
  then show ?thesis using assms(2) sess_pick_facts(1,2) [of "sy_session y"] by (simp add: live_inv_def)
next
  case (fwd_picks p path s)
  then show ?thesis using assms(2) sess_pick_facts(1,2) [of "sy_session y"] by (simp add: live_inv_def)
next
  case (fwd_removes path p st q)
  with assms(2) show ?thesis
    using sess_remove_ok [of "sy_session y" "sp_stream path"] sess_remove_set [of "sy_session y" "sp_stream path"]
    by (auto simp: live_inv_def)
qed (use assms(2) in \<open>simp_all add: live_inv_def\<close>)

lemma session_after:
  "session_ok s \<Longrightarrow> sess_pick s = (q, s') \<Longrightarrow> sess_paths s' = sess_paths s"
  "session_ok s \<Longrightarrow> sess_pick s = (Some p, s') \<Longrightarrow> p \<in> set (sess_paths s)"
  using sess_pick_facts [of s] by auto

lemma forward_invI:
  assumes "writer_ok (sy_writer z)" "points_agree (sy_forward z) (fw_point (sy_writer z))"
    "fw_cut (sy_writer z) \<inter> session_streams z \<subseteq> being_cut (fw_point (sy_writer z))"
    "fw_cut (sy_writer z) \<subseteq> joined z" "\<And>path p. sy_forward z = Sending path p \<Longrightarrow> sp_stream path \<in> joined z"
    "subseq (map snd (fw_sent (sy_writer z)) @ in_flight (sy_forward z) (fw_point (sy_writer z))) (sy_taken z)"
    "\<forall>p \<in> set (sy_taken z). frame_ok p \<and> allow pol p"
  shows "forward_inv pol z"
  using assms by (auto simp: forward_inv_def split: forward_point.splits)

lemma forward_picks_inv:
  assumes "srv_inv pol y" "sy_forward y = Picking packet" "sess_pick (sy_session y) = (Some path, s)"
  shows "forward_inv pol (y\<lparr>sy_session := s, sy_forward := Sending path packet,
    sy_writer := (sy_writer y)\<lparr>fw_point := Heading (sp_stream path) packet\<rparr>\<rparr>)"
proof -
  have live: "live_inv y" and ok: "session_ok (sy_session y)" and fwd: "forward_inv pol y"
    using assms(1) by (simp_all add: srv_inv_def live_inv_def)
  note fi = fwd [unfolded forward_inv_def]
  have mem: "sp_stream path \<in> session_streams y"
    using session_after(2) [OF ok assms(3)] by (simp add: session_streams_def)
  have idle: "fw_point (sy_writer y) = Idle" using fi assms(2) by simp
  then have undamaged: "sp_stream path \<notin> fw_cut (sy_writer y)" using mem fi by auto
  have "frame_ok packet"
    using fi assms(2) by (auto simp: subseq_singleton_left dest: subseq_appendD(2))
  with idle undamaged have "writer_ok ((sy_writer y)\<lparr>fw_point := Heading (sp_stream path) packet\<rparr>)"
    using fi by (intro writer_moves_ok [OF wm_call]) simp_all
  with assms(2) fi idle session_after(1) [OF ok assms(3)] mem session_streams_joined [OF live]
  show ?thesis by (auto simp: forward_inv_def session_streams_def joined_def)
qed

lemma forward_removes_inv:
  assumes "srv_inv pol y" "sy_forward y = Sending path packet" "fw_point (sy_writer y) = Cut st p"
    "z = y\<lparr>sy_session := sess_remove (sy_session y) (sp_stream path), sy_forward := Fetching,
      sy_writer := (sy_writer y)\<lparr>fw_point := Idle\<rparr>\<rparr>"
  shows "forward_inv pol z"
proof (rule forward_invI)
  have ok: "session_ok (sy_session y)" and fwd: "forward_inv pol y"
    using assms(1) by (simp_all add: srv_inv_def live_inv_def)
  note fi = fwd [unfolded forward_inv_def]
  show "writer_ok (sy_writer z)"
    using fi assms(3) writer_moves_ok [OF wm_return [OF assms(3)]] by (simp add: assms(4))
  have "session_streams z = session_streams y - {sp_stream path}"
    unfolding assms(4) session_streams_def by (auto simp: sess_remove_set [OF ok])
  moreover have "fw_cut (sy_writer z) \<inter> session_streams y \<subseteq> {sp_stream path}"
  proof -
    have "st = sp_stream path" using fi assms(2,3) by simp
    moreover have "fw_cut (sy_writer y) \<inter> session_streams y \<subseteq> being_cut (fw_point (sy_writer y))" using fi by simp
    ultimately show ?thesis by (simp add: assms(3,4))
  qed
  ultimately show "fw_cut (sy_writer z) \<inter> session_streams z \<subseteq> being_cut (fw_point (sy_writer z))" by blast
  show "subseq (map snd (fw_sent (sy_writer z)) @ in_flight (sy_forward z) (fw_point (sy_writer z))) (sy_taken z)"
    using fi by (auto simp: assms(4) dest: subseq_appendD(1))
  show "fw_cut (sy_writer z) \<subseteq> joined z" "\<forall>p \<in> set (sy_taken z). frame_ok p \<and> allow pol p"
    using fi by (simp_all add: assms(4) joined_def)
qed (simp_all add: assms(4))

lemma forward_forward:
  assumes "forward_step pol y z" "srv_inv pol y"
  shows "forward_inv pol z"
proof -
  have ok: "session_ok (sy_session y)" and fwd: "forward_inv pol y"
    using assms(2) by (simp_all add: srv_inv_def live_inv_def)
  note fi = fwd [unfolded forward_inv_def]
  show ?thesis
    using assms(1)
  proof cases
    case (fwd_reads packet bs)
    then have "frame_ok packet" by (auto simp: frame_ok_def)
    with fwd_reads fi show ?thesis
      by (auto simp: forward_inv_def session_streams_def joined_def list_emb_append_mono)
  next
    case (fwd_no_path packet s)
    with fi session_after(1) [OF ok fwd_no_path(3)] show ?thesis
      by (auto simp: forward_inv_def session_streams_def joined_def dest: subseq_appendD(1))
  next
    case (fwd_picks packet path s)
    then show ?thesis using forward_picks_inv [OF assms(2)] by simp
  next
    case (fwd_writes path packet w)
    have w: "writer_ok w" using fi fwd_writes(3) write_step_ok by simp
    from fwd_writes(3) show ?thesis
      by cases (use fwd_writes(1,2) w fi in \<open>auto simp: forward_inv_def session_streams_def joined_def\<close>)
  next
    case (fwd_sent path packet)
    with fi show ?thesis by (auto simp: forward_inv_def session_streams_def joined_def)
  next
    case (fwd_removes path packet st p)
    show ?thesis by (rule forward_removes_inv [OF assms(2) fwd_removes(2,3,1)])
  qed
qed

lemma handler_forward:
  assumes "handler_step pol y z" "srv_inv pol y"
  shows "forward_inv pol z"
proof -
  have live: "live_inv y" and ok: "session_ok (sy_session y)" and fwd: "forward_inv pol y"
    using assms(2) by (simp_all add: srv_inv_def live_inv_def)
  note fi = fwd [unfolded forward_inv_def]
  have same: "sy_forward z = sy_forward y" "sy_writer z = sy_writer y" "sy_taken z = sy_taken y"
    using assms(1) by (auto elim: handler_step.cases)
  have "joined y \<subseteq> joined z" using joined_mono handlers_advance assms(1) handler_moves by blast
  moreover have "session_streams z \<inter> fw_cut (sy_writer y) \<subseteq> session_streams y"
    using assms(1)
  proof cases
    case (hdl_joins st i)
    then have "st \<notin> fw_cut (sy_writer y)" using fi by (auto simp: joined_def)
    with hdl_joins show ?thesis by (auto simp: session_streams_def sess_add_def)
  qed (auto simp: session_streams_def sess_remove_set ok)
  ultimately show ?thesis
    using fi unfolding forward_inv_def same by (auto split: forward_point.splits)
qed

lemma srv_step_inv:
  assumes "srv_step pol y z" "srv_inv pol y"
  shows "srv_inv pol z"
proof -
  have "live_inv y" using assms(2) by (simp add: srv_inv_def)
  from assms(1) show ?thesis
  proof cases
    case forward_moves
    then show ?thesis
      using forward_live [OF _ \<open>live_inv y\<close>] forward_forward [OF _ assms(2)] by (simp add: srv_inv_def)
  next
    case handler_moves
    then show ?thesis
      using handler_live [OF _ \<open>live_inv y\<close>] handler_forward [OF _ assms(2)] by (simp add: srv_inv_def)
  qed
qed

lemma srv_step_writer:
  assumes "srv_step pol y z" "srv_inv pol y"
  shows "sy_writer z = sy_writer y \<or> writer_moves (sy_writer y) (sy_writer z)"
  using assms(1)
proof cases
  case handler_moves
  then show ?thesis by cases simp_all
next
  case forward_moves
  note z_ok = forward_forward [OF this assms(2), unfolded forward_inv_def]
  from forward_moves show ?thesis
  proof cases
    case (fwd_picks packet path s)
    moreover have "fw_point (sy_writer y) = Idle"
      using assms(2) fwd_picks(2) by (simp add: srv_inv_def forward_inv_def)
    moreover have "sp_stream path \<notin> fw_cut (sy_writer y)" "frame_ok packet"
      using z_ok fwd_picks(1) by (simp_all add: writer_ok_def)
    ultimately show ?thesis by (simp add: wm_call)
  next
    case (fwd_writes path packet w)
    then show ?thesis by (simp add: wm_step)
  next
    case (fwd_removes path packet st p)
    then show ?thesis by (simp add: wm_return)
  qed simp_all
qed

interpretation server_frames: frame_sender "srv_step pol" "srv_inv pol" sy_writer for pol
proof (unfold_locales, goal_cases)
  case (1 y z)
  then show ?case by (rule srv_step_inv [rotated])
next
  case (2 y z)
  then show ?case by (rule srv_step_writer [rotated])
next
  case (3 y)
  then show ?case by (simp add: srv_inv_def forward_inv_def)
qed

lemma srv_reachable_inv: "srv_reachable pol R y \<Longrightarrow> srv_inv pol y"
  unfolding srv_reachable_def using server_frames.steps_inv start_server_inv by blast

section \<open>What the handlers deliver\<close>

definition from_stream :: "server_system \<Rightarrow> nat \<Rightarrow> bytes list" where
  "from_stream y st = map snd (filter (\<lambda>x. fst x = st) (sy_device y))"

definition unfinished :: "handler_point option \<Rightarrow> bool" where
  "unfinished h \<longleftrightarrow> h = None \<or> (\<exists>i. h = Some (Joining i) \<or> h = Some (Reading i))"

definition device_inv :: "packet_policy \<Rightarrow> (nat \<Rightarrow> reader) \<Rightarrow> server_system \<Rightarrow> bool" where
  "device_inv pol R y \<longleftrightarrow> (\<forall>st. prefix (from_stream y st) (allowed_frames pol (R st)) \<and>
     (unfinished (sy_handlers y st) \<longrightarrow>
        allowed_frames pol (R st) = from_stream y st @ allowed_frames pol (sy_readers y st)))"

lemma device_inv_step:
  assumes "srv_step pol y z" "device_inv pol R y"
  shows "device_inv pol R z"
  using assms(1)
proof cases
  case forward_moves
  then show ?thesis using assms(2) by cases (simp_all add: device_inv_def from_stream_def)
next
  case handler_moves
  then show ?thesis
  proof cases
    case (hdl_denies st i packet r)
    with assms(2) show ?thesis
      by (auto simp: device_inv_def from_stream_def unfinished_def read_frames_step)
  next
    case (hdl_delivers st i packet r)
    then have "allowed_frames pol (R st) = from_stream y st @ packet # allowed_frames pol r"
      using assms(2) by (auto simp: device_inv_def unfinished_def read_frames_step)
    with hdl_delivers assms(2) show ?thesis
      by (auto simp: device_inv_def from_stream_def)
  qed (use assms(2) in \<open>auto simp: device_inv_def from_stream_def unfinished_def\<close>)
qed

interpretation deliveries: step_invariant "srv_step pol" "device_inv pol R" for pol R
  by unfold_locales (rule device_inv_step)

lemma reachable_device_inv: "srv_reachable pol R y \<Longrightarrow> device_inv pol R y"
  unfolding srv_reachable_def
  by (erule deliveries.steps_inv) (simp add: device_inv_def start_server_def from_stream_def)

section \<open>Streams that left\<close>

lemma session_streams_step:
  assumes "srv_step pol y z" "srv_inv pol y"
  shows "session_streams z \<inter> joined y \<subseteq> session_streams y"
proof -
  have ok: "session_ok (sy_session y)" using assms(2) by (simp add: srv_inv_def live_inv_def)
  from assms(1) show ?thesis
  proof cases
    case forward_moves
    then show ?thesis
    proof cases
      case (fwd_no_path packet s)
      then show ?thesis using session_after(1) [OF ok fwd_no_path(3)] by (auto simp: session_streams_def)
    next
      case (fwd_picks packet path s)
      then show ?thesis using session_after(1) [OF ok fwd_picks(3)] by (auto simp: session_streams_def)
    qed (auto simp: session_streams_def sess_remove_set ok)
  next
    case handler_moves
    then show ?thesis
      by cases (auto simp: session_streams_def sess_remove_set ok sess_add_def joined_def)
  qed
qed

lemma stream_never_returns:
  assumes "(srv_step pol)\<^sup>*\<^sup>* y z" "srv_inv pol y"
  shows "joined y \<subseteq> joined z \<and> session_streams z \<inter> joined y \<subseteq> session_streams y"
proof -
  let ?R = "\<lambda>y z. joined y \<subseteq> joined z \<and> session_streams z \<inter> joined y \<subseteq> session_streams y"
  have one: "?R y z" if "srv_inv pol y" "srv_step pol y z" for y z
    using joined_mono [OF handlers_advance [OF that(2)]] session_streams_step [OF that(2,1)] by simp
  have sets: "C \<inter> A \<subseteq> B" if "C \<inter> A' \<subseteq> B'" "B' \<inter> A \<subseteq> B" "A \<subseteq> A'" for A A' B B' C :: "nat set"
    using that by blast
  have trans: "transp ?R"
  proof (rule transpI)
    show "?R x z" if "?R x w" "?R w z" for x w z
      using that sets [of "session_streams z" "joined w" "session_streams w" "joined x" "session_streams x"]
        subset_trans [of "joined x" "joined w" "joined z"] by simp
  qed
  have "reflp ?R" by (rule reflpI) simp
  from server_frames.steps_relate [of pol ?R, OF one this trans assms] show ?thesis .
qed

section \<open>The sequential forwarder refines the interleaved one\<close>

definition srv_sim :: "server_state \<Rightarrow> server_system \<Rightarrow> bool" where
  \<comment> \<open>the same session and the same bytes on every stream\<close>
  "srv_sim s y \<longleftrightarrow> ss s = sy_session y \<and> (\<forall>st. wire st (io_trace s) = fw_wire (sy_writer y) st)"

lemma srv_sim_io:
  "srv_sim (count_op f s) y = srv_sim s y" "srv_sim s (y\<lparr>sy_forward := f'\<rparr>) = srv_sim s y"
  by (simp_all add: srv_sim_def)

lemma picks_session:
  assumes "sess_pick (ss s) = (Some path, sess)" "srv_sim s y" "sy_forward y = Picking p"
  obtains y1 where "srv_step pol y y1" "sy_forward y1 = Sending path p" "sy_session y1 = sess"
    "fw_point (sy_writer y1) = Heading (sp_stream path) p" "fw_wire (sy_writer y1) = fw_wire (sy_writer y)"
proof -
  let ?y1 = "y\<lparr>sy_session := sess, sy_forward := Sending path p,
      sy_writer := (sy_writer y)\<lparr>fw_point := Heading (sp_stream path) p\<rparr>\<rparr>"
  have "srv_step pol y ?y1"
    using assms by (intro forward_moves fwd_picks) (simp_all add: srv_sim_def)
  from that [OF this] show ?thesis by simp
qed

lemma forward_writes:
  assumes "write_step\<^sup>*\<^sup>* (sy_writer y) w" "sy_forward y = Sending path p"
  shows "(srv_step pol)\<^sup>*\<^sup>* y (y\<lparr>sy_writer := w\<rparr>)"
proof -
  have "srv_step pol (y\<lparr>sy_writer := u\<rparr>) (y\<lparr>sy_writer := v\<rparr>)" if "write_step u v" for u v
    using fwd_writes [of "y\<lparr>sy_writer := u\<rparr>" path p v pol] that assms(2) by (simp add: forward_moves)
  from steps_embed [OF assms(1), of "srv_step pol" "\<lambda>v. y\<lparr>sy_writer := v\<rparr>", OF this] show ?thesis by simp
qed

lemma forward_writes_frame:
  \<comment> \<open>from the pick to the answer of \<open>WriteFrame\<close>\<close>
  assumes "frame_ok p" "srv_sim s y" "sy_forward y = Picking p" "sess_pick (ss s) = (Some path, sess)"
    "write_frame_to env (sp_stream path) p (s\<lparr>ss := sess\<rparr>) = (s2, err)"
  obtains z where "(srv_step pol)\<^sup>*\<^sup>* y z" "sy_forward z = Sending path p" "srv_sim s2 z"
    "fw_point (sy_writer z) = (if err = None then Idle else Cut (sp_stream path) p)"
proof -
  obtain y1 where y1: "srv_step pol y y1" "sy_forward y1 = Sending path p" "sy_session y1 = sess"
    "fw_point (sy_writer y1) = Heading (sp_stream path) p" "fw_wire (sy_writer y1) = fw_wire (sy_writer y)"
    by (rule picks_session [OF assms(4,2,3), of pol]) (rule that)
  have wires: "\<forall>st. wire st (io_trace (s\<lparr>ss := sess\<rparr>)) = fw_wire (sy_writer y1) st"
    using assms(2) y1(5) by (simp add: srv_sim_def)
  obtain v where v: "write_step\<^sup>*\<^sup>* (sy_writer y1) v" "\<forall>st. wire st (io_trace s2) = fw_wire v st"
    "fw_point v = (if err = None then Idle else Cut (sp_stream path) p)"
    by (rule write_frame_steps [OF assms(1,5) y1(4) wires]) (rule that)
  have "ss s2 = sess" using ss_io [OF write_frame_to_frame(3) [OF assms(5)]] by simp
  with v y1 have "srv_sim s2 (y1\<lparr>sy_writer := v\<rparr>)" by (simp add: srv_sim_def)
  moreover have "(srv_step pol)\<^sup>*\<^sup>* y (y1\<lparr>sy_writer := v\<rparr>)"
    using y1(1) forward_writes [OF v(1) y1(2), of pol] by (rule converse_rtranclp_into_rtranclp)
  ultimately show ?thesis using that [of "y1\<lparr>sy_writer := v\<rparr>"] v(3) y1(2) by simp
qed

section \<open>Properties\<close>

text \<open>
  (C12) In every interleaving of the server's goroutines the session is sound: its streams are
  distinct, its cursor is in range, and each of its paths belongs to the handler that added
  it, which has not yet removed it or closed its stream.  A stream that has joined the
  session and left it never comes back.
\<close>
theorem session_paths_are_live:
  assumes "srv_reachable pol R y"
  shows "session_ok (sy_session y) \<and>
    (\<forall>path \<in> set (sess_paths (sy_session y)).
       sy_handlers y (sp_stream path) \<in> {Some (Reading (sp_id path)), Some (Leaving (sp_id path))}) \<and>
    (\<forall>z. (srv_step pol)\<^sup>*\<^sup>* y z \<longrightarrow> session_streams z \<inter> joined y \<subseteq> session_streams y)"
proof -
  have inv: "srv_inv pol y" using srv_reachable_inv [OF assms] .
  then show ?thesis using stream_never_returns [OF _ inv] by (simp add: srv_inv_def live_inv_def)
qed

text \<open>
  (C5) In every interleaving, and whatever writes fail, every stream of the server carries
  whole frames: whoever has received a part of its bytes reads the first of the packets sent
  whole on it.  These are allowed by the policy, and over all streams together they are, in
  order, some of those read from the device: none is sent whole twice.
\<close>
theorem server_streams_carry_whole_frames:
  assumes "srv_reachable pol R y" "prefix (content r) (fw_wire (sy_writer y) st)"
  shows "prefix (fst (read_frames r)) (sent_on (sy_writer y) st) \<and>
    subseq (map snd (fw_sent (sy_writer y))) (sy_taken y) \<and> list_all (allow pol) (sy_taken y)"
  using server_frames.reader_gets_prefix [OF srv_reachable_inv [OF assms(1)] assms(2)]
    srv_reachable_inv [OF assms(1)]
  by (auto simp: srv_inv_def forward_inv_def list_all_iff dest: subseq_appendD(1))

text \<open>
  A stream on which a write has failed is never written again, although its handler may
  go on reading from it: after the failure the client of that stream gets nothing more.
\<close>
theorem failed_stream_is_mute:
  assumes "srv_reachable pol R y" "st \<in> fw_cut (sy_writer y)" "(srv_step pol)\<^sup>*\<^sup>* y z"
  shows "fw_wire (sy_writer z) st = fw_wire (sy_writer y) st"
  using server_frames.cut_for_good [OF assms(3) srv_reachable_inv [OF assms(1)] assms(2)] .

text \<open>
  (C13) Several handlers write to one device.  In every interleaving the packets that come
  from one stream reach the device in the order of the stream: they are the first of its
  frames that the policy allows.
\<close>
theorem device_keeps_stream_order:
  assumes "srv_reachable pol R y"
  shows "prefix (map snd (filter (\<lambda>x. fst x = st) (sy_device y))) (filter (allow pol) (fst (read_frames (R st))))"
  using reachable_device_inv [OF assms] by (simp add: device_inv_def from_stream_def)

text \<open>
  (C10) The sequential model of forwarding one packet refines the interleaved one: whatever
  \<open>writeNextPath\<close> does to the session and to the streams, the steps of the forwarder reach
  the same session and the same bytes on every stream, and it goes back to the device.
\<close>
theorem forwarder_refines_steps:
  assumes "frame_ok p" "srv_sim s y" "sy_forward y = Picking p"
  shows "\<exists>z. (srv_step pol)\<^sup>*\<^sup>* y z \<and> sy_forward z = Fetching \<and> srv_sim (forward_packet env p s) z"
proof (cases "sess_pick (ss s)")
  case (Pair picked sess)
  show ?thesis
  proof (cases picked)
    case None
    then have "sess = sy_session y" using Pair assms(2) by (auto simp: sess_pick_def srv_sim_def split: if_splits)
    then have "srv_step pol y (y\<lparr>sy_session := sess, sy_forward := Fetching\<rparr>)"
      using None Pair assms(2,3) by (intro forward_moves fwd_no_path) (simp_all add: srv_sim_def)
    moreover have "forward_packet env p s = count_op add_drop s"
      using None Pair by (simp add: forward_packet_def write_next_path_def)
    ultimately show ?thesis using \<open>sess = _\<close> assms(2)
      by (intro exI [of _ "y\<lparr>sy_session := sess, sy_forward := Fetching\<rparr>"]) (simp add: srv_sim_def r_into_rtranclp)
  next
    case (Some path)
    with Pair have pick: "sess_pick (ss s) = (Some path, sess)" by simp
    obtain s2 err where w: "write_frame_to env (sp_stream path) p (s\<lparr>ss := sess\<rparr>) = (s2, err)" by fastforce
    obtain z where z: "(srv_step pol)\<^sup>*\<^sup>* y z" "sy_forward z = Sending path p" "srv_sim s2 z"
      "fw_point (sy_writer z) = (if err = None then Idle else Cut (sp_stream path) p)"
      by (rule forward_writes_frame [OF assms pick w, of pol]) (rule that)
    define z' where "z' = (if err = None then z\<lparr>sy_forward := Fetching\<rparr> else
      z\<lparr>sy_session := sess_remove (sy_session z) (sp_stream path), sy_forward := Fetching,
        sy_writer := (sy_writer z)\<lparr>fw_point := Idle\<rparr>\<rparr>)"
    have "srv_step pol z z'"
      unfolding z'_def using z(2,4) fwd_sent fwd_removes by (auto intro: forward_moves)
    with z(1) have "(srv_step pol)\<^sup>*\<^sup>* y z'" by (rule rtranclp.rtrancl_into_rtrancl)
    moreover have "srv_sim (forward_packet env p s) z'" "sy_forward z' = Fetching"
      using pick w z(3) by (cases err; simp add: z'_def forward_packet_def write_next_path_def srv_sim_def)+
    ultimately show ?thesis by (intro exI [of _ z']) simp
  qed
qed

section \<open>A concrete run\<close>

definition open_policy :: packet_policy where
  "open_policy = \<lparr>allowedCIDR = None\<rparr>"

definition one_reader :: "nat \<Rightarrow> reader" where
  "one_reader = (\<lambda>_. \<lparr>chunks = [[0, 0], [0, 1, 9]], end_err = io_eof, eager = False\<rparr>)"

definition one_client :: "(nat \<Rightarrow> reader) \<Rightarrow> nat \<Rightarrow> server_system" where
  \<comment> \<open>one client has joined on a stream\<close>
  "one_client R st = (start_server R)
     \<lparr>sy_session := \<lparr>sess_paths = [\<lparr>sp_id = 0, sp_stream = st\<rparr>], sess_next = 0\<rparr>,
      sy_handlers := [st \<mapsto> Reading 0]\<rparr>"

definition serving :: server_system where
  "serving = one_client one_reader 7"

definition writing :: "bytes \<Rightarrow> frame_writer \<Rightarrow> server_system" where
  \<comment> \<open>a packet is being forwarded to it\<close>
  "writing p w = serving\<lparr>sy_taken := [p], sy_forward := Sending \<lparr>sp_id = 0, sp_stream = 7\<rparr> p, sy_writer := w\<rparr>"

lemma reach_step_srv: "srv_reachable pol R y \<Longrightarrow> srv_step pol y z \<Longrightarrow> srv_reachable pol R z"
  unfolding srv_reachable_def by (rule rtranclp.rtrancl_into_rtrancl)

lemma open_allows [simp]: "allow open_policy p"
  by (simp add: open_policy_def allow_def)

lemma reach_one_client: "srv_reachable pol R (one_client R st)"
proof -
  let ?y0 = "start_server R"
  let ?y1 = "?y0\<lparr>sy_handlers := (sy_handlers ?y0)(st \<mapsto> Joining 0)\<rparr>"
  have "srv_reachable pol R ?y0" by (simp add: srv_reachable_def)
  moreover have "srv_step pol ?y0 ?y1"
    by (intro handler_moves hdl_accepts) (simp add: start_server_def)
  moreover have "srv_step pol ?y1 (one_client R st)"
    using hdl_joins [of ?y1 st 0 pol]
    by (simp add: one_client_def start_server_def sess_add_def new_server_tun_session_def handler_moves)
  ultimately show ?thesis using reach_step_srv by blast
qed

lemma reach_serving: "srv_reachable open_policy one_reader serving"
  unfolding serving_def by (rule reach_one_client)

lemma deliver_first:
  \<comment> \<open>the handler takes the first packet of its stream to the device\<close>
  assumes "frame_ok p" "content (R st) = frame_bytes p @ rest" "allow pol p"
  shows "\<exists>z. srv_reachable pol R z \<and> sy_device z = [(st, p)]"
proof -
  have "frame_result (content (R st)) (end_err (R st)) = Inr p"
    using frame_result_frame_bytes [OF assms(1)] assms(2) by simp
  then obtain r where r: "read_frame (R st) = (Inr p, r)" using read_frame_cases [of "R st"] by auto
  let ?y = "one_client R st"
  let ?z = "?y\<lparr>sy_readers := (sy_readers ?y)(st := r), sy_device := sy_device ?y @ [(st, p)]\<rparr>"
  have "srv_step pol ?y ?z"
    using r assms(3) by (intro handler_moves hdl_delivers) (simp_all add: one_client_def start_server_def)
  with reach_one_client have "srv_reachable pol R ?z" by (rule reach_step_srv)
  then show ?thesis by (intro exI [of _ ?z]) (simp add: one_client_def start_server_def)
qed

lemma reach_writing:
  "srv_reachable open_policy one_reader (writing [5, 6] (idle_writer\<lparr>fw_point := Heading 7 [5, 6]\<rparr>))"
proof -
  let ?y = "serving\<lparr>sy_forward := Picking [5, 6], sy_taken := [[5, 6]]\<rparr>"
  have "srv_step open_policy serving ?y"
    using fwd_reads [of serving "[5, 6]" "[5, 6]" open_policy]
    by (simp add: serving_def one_client_def start_server_def MaxFrameSize_def forward_moves)
  moreover have "sess_pick (sy_session ?y) = (Some \<lparr>sp_id = 0, sp_stream = 7\<rparr>, sy_session ?y)"
    by (simp add: serving_def one_client_def sess_pick_def)
  then have "srv_step open_policy ?y (writing [5, 6] (idle_writer\<lparr>fw_point := Heading 7 [5, 6]\<rparr>))"
    using fwd_picks [of ?y "[5, 6]" _ _ open_policy]
    by (simp add: writing_def serving_def one_client_def start_server_def forward_moves)
  ultimately show ?thesis using reach_serving reach_step_srv by blast
qed

definition sent_writer :: frame_writer where
  "sent_writer = \<lparr>fw_point = Idle, fw_wire = (\<lambda>_. [])(7 := [0, 0, 0, 2, 5, 6]), fw_sent = [(7, [5, 6])], fw_cut = {}\<rparr>"

definition cut_writer :: frame_writer where
  "cut_writer = \<lparr>fw_point = Cut 7 [5, 6], fw_wire = (\<lambda>_. [])(7 := [0, 0, 0, 2, 5]), fw_sent = [], fw_cut = {7}\<rparr>"

lemma example_writes:
  "srv_reachable open_policy one_reader (writing [5, 6] sent_writer)"
  "srv_reachable open_policy one_reader (writing [5, 6] cut_writer)"
proof -
  let ?h = "idle_writer\<lparr>fw_point := Heading 7 [5, 6]\<rparr>"
  let ?p = "put_bytes ?h 7 (be32 (of_nat (length [5 :: byte, 6]))) (Paying 7 [5, 6])"
  have step: "srv_step open_policy (writing [5, 6] w) (writing [5, 6] v)" if "write_step w v" for w v
    using fwd_writes [of "writing [5, 6] w" _ "[5, 6]" v open_policy] that by (simp add: writing_def forward_moves)
  have "write_step ?h ?p" by (intro wr_header) simp
  then have reach: "srv_reachable open_policy one_reader (writing [5, 6] ?p)"
    using reach_writing step reach_step_srv by blast
  have "write_step ?p sent_writer"
    using wr_payload [of ?p 7 "[5, 6]"]
    by (simp add: put_bytes_def idle_writer_def sent_writer_def be32_def)
  with reach show "srv_reachable open_policy one_reader (writing [5, 6] sent_writer)"
    using step reach_step_srv by blast
  have "write_step ?p cut_writer"
    using wr_payload_fails [of ?p 7 "[5, 6]" 1]
    by (simp add: put_bytes_def idle_writer_def cut_writer_def be32_def)
  with reach show "srv_reachable open_policy one_reader (writing [5, 6] cut_writer)"
    using step reach_step_srv by blast
qed

theorem session_paths_are_live_witness:
  "sess_paths (sy_session serving) = [\<lparr>sp_id = 0, sp_stream = 7\<rparr>] \<and> session_ok (sy_session serving)"
  using session_paths_are_live [OF reach_serving] by (simp add: serving_def one_client_def)

theorem server_streams_carry_whole_frames_witness:
  "prefix (fst (read_frames \<lparr>chunks = [[0, 0, 0], [2, 5, 6]], end_err = io_eof, eager = False\<rparr>)) [[5, 6]]"
proof -
  have "prefix (content \<lparr>chunks = [[0, 0, 0], [2, 5, 6]], end_err = io_eof, eager = False\<rparr>)
      (fw_wire (sy_writer (writing [5, 6] sent_writer)) 7)"
    by (simp add: content_def writing_def sent_writer_def)
  from server_streams_carry_whole_frames [OF example_writes(1) this] show ?thesis
    by (simp add: writing_def sent_writer_def sent_on_def)
qed

theorem failed_stream_is_mute_witness:
  "\<exists>z. srv_step open_policy (writing [5, 6] cut_writer) z \<and> fw_wire (sy_writer z) 7 = [0, 0, 0, 2, 5]"
proof -
  let ?y = "writing [5, 6] cut_writer"
  let ?z = "?y\<lparr>sy_session := sess_remove (sy_session ?y) 7, sy_forward := Fetching,
      sy_writer := (sy_writer ?y)\<lparr>fw_point := Idle\<rparr>\<rparr>"
  have step: "srv_step open_policy ?y ?z"
    using fwd_removes [of ?y "\<lparr>sp_id = 0, sp_stream = 7\<rparr>" "[5, 6]" 7 "[5, 6]" open_policy]
    by (simp add: writing_def cut_writer_def forward_moves)
  moreover have "7 \<in> fw_cut (sy_writer ?y)" by (simp add: writing_def cut_writer_def)
  ultimately have "fw_wire (sy_writer ?z) 7 = fw_wire (sy_writer ?y) 7"
    by (intro failed_stream_is_mute [OF example_writes(2)] r_into_rtranclp)
  with step show ?thesis by (intro exI [of _ ?z]) (simp add: writing_def cut_writer_def)
qed

theorem device_keeps_stream_order_witness:
  "\<exists>y. srv_reachable open_policy one_reader y \<and> sy_device y = [(7, [9])] \<and>
     prefix [[9]] (filter (allow open_policy) (fst (read_frames (one_reader 7))))"
proof -
  have "content (one_reader 7) = frame_bytes [9] @ []"
    by (simp add: one_reader_def content_def frame_bytes_def be32_def)
  then obtain y where y: "srv_reachable open_policy one_reader y" "sy_device y = [(7, [9])]"
    using deliver_first [of "[9]" one_reader 7 "[]" open_policy] by (auto simp: frame_ok_def MaxFrameSize_def)
  from device_keeps_stream_order [OF y(1), of 7] y show ?thesis by (intro exI [of _ y]) simp
qed

theorem forwarder_refines_steps_witness:
  "\<exists>z. (srv_step open_policy)\<^sup>*\<^sup>* (serving\<lparr>sy_forward := Picking [5, 6]\<rparr>) z \<and> sy_forward z = Fetching \<and>
     srv_sim (forward_packet calm_env [5, 6] \<lparr>io_trace = [], io_ctrs = zero_counters, ss = sy_session serving\<rparr>) z"
proof -
  have "frame_ok [5, 6]" by (simp add: frame_ok_def MaxFrameSize_def)
  moreover have "srv_sim \<lparr>io_trace = [], io_ctrs = zero_counters, ss = sy_session serving\<rparr>
      (serving\<lparr>sy_forward := Picking [5, 6]\<rparr>)"
    by (simp add: srv_sim_def serving_def one_client_def start_server_def idle_writer_def)
  ultimately show ?thesis by (intro forwarder_refines_steps) simp_all
qed

end
