(* ===== verification/Tunnel_System.thy ===== *)
theory Tunnel_System
  imports Client_Wire Server_System "HOL-Library.Multiset"
begin

text \<open>
  The interleaved client and the interleaved server joined by QUIC streams, which deliver in
  order some of the bytes put on them: what a handler or a receiver reads from a stream is a
  beginning of what the other side wrote to it.
\<close>

section \<open>Streams and packets\<close>

lemma subseq_mset: "subseq xs ys \<Longrightarrow> mset xs \<subseteq># mset ys"
proof (induction xs ys rule: list_emb.induct)
  case (list_emb_Cons xs ys y)
  then show ?case by (simp add: subset_mset.order_trans)
qed auto

lemma mset_by_key:
  \<comment> \<open>a list of pairs is compared key by key\<close>
  assumes "\<And>k. mset (filter (\<lambda>x. fst x = k) xs) \<subseteq># mset (filter (\<lambda>x. fst x = k) ys)"
  shows "mset xs \<subseteq># mset ys"
proof (rule mset_subset_eqI)
  fix x :: "'a \<times> 'b"
  have "count (mset (filter (\<lambda>y. fst y = fst x) zs)) x = count (mset zs) x" for zs by simp
  then show "count (mset xs) x \<le> count (mset ys) x"
    using mset_subset_eq_count [OF assms [of "fst x"], of x] by simp
qed

lemma subseq_by_key:
  assumes "subseq (map snd (filter (\<lambda>x. fst x = k) xs)) (map snd (filter (\<lambda>x. fst x = k) ys))"
  shows "mset (filter (\<lambda>x. fst x = k) xs) \<subseteq># mset (filter (\<lambda>x. fst x = k) ys)"
proof -
  have pairs: "map (Pair k) (map snd (filter (\<lambda>x. fst x = k) zs)) = filter (\<lambda>x. fst x = k) zs" for zs
    by (induction zs) auto
  show ?thesis using subseq_mset [OF subseq_map [OF assms, of "Pair k"]] unfolding pairs .
qed

lemma sent_on_taken: "subseq (map snd (fw_sent w)) taken \<Longrightarrow> subseq (sent_on w st) taken"
  unfolding sent_on_def by (meson subseq_filter_left subseq_map subseq_order.order_trans)

section \<open>Properties\<close>

text \<open>
  (C1) The tunnel delivers at most once.  Whatever the interleaving on both sides, whichever
  writes fail and however far the streams have been delivered: the packets that the server
  has written to its device, over all streams together, are among the packets the client
  took from its own, each no more often than it was taken; those of one stream are in the
  order of the client's device; and both policies allow them.
\<close>
theorem tunnel_delivers_at_most_once:
  assumes "wire_reachable pol specs ps y" "distinct (map cp_id ps)" "distinct (map cp_stream ps)"
    "srv_reachable spol R z" "\<forall>st. prefix (content (R st)) (fw_wire (cw_writer y) st)"
  shows "mset (map snd (sy_device z)) \<subseteq># mset (cw_taken y) \<and>
    (\<forall>st. subseq (map snd (filter (\<lambda>x. fst x = st) (sy_device z)))
       (filter (\<lambda>p. allow pol p \<and> allow spol p) (cw_taken y)))"
proof -
  have inv: "wire_inv pol y" using wire_reachable_inv assms(1-3) by blast
  have taken: "subseq (map snd (fw_sent (cw_writer y))) (cw_taken y)" "list_all (allow pol) (cw_taken y)"
    using inv subseq_appendD(1) by (auto simp: wire_inv_def list_all_iff)
  have dev: "prefix (from_stream z st) (allowed_frames spol (R st))" for st
    using reachable_device_inv [OF assms(4)] by (simp add: device_inv_def)
  have got: "prefix (fst (read_frames (R st))) (sent_on (cw_writer y) st)" for st
    using client_frames.reader_gets_prefix [OF inv] assms(5) by blast
  have sent: "subseq (from_stream z st) (filter (allow spol) (sent_on (cw_writer y) st))" for st
    using dev got by (meson prefix_imp_subseq subseq_filter subseq_order.order_trans)
  have part: "subseq (from_stream z st) (sent_on (cw_writer y) st)" for st
    using sent subseq_filter_left subseq_order.order_trans by blast
  have "mset (sy_device z) \<subseteq># mset (fw_sent (cw_writer y))"
    by (rule mset_by_key, rule subseq_by_key) (rule part [unfolded from_stream_def sent_on_def])
  then have "mset (map snd (sy_device z)) \<subseteq># mset (map snd (fw_sent (cw_writer y)))"
    by (simp add: image_mset_subseteq_mono)
  moreover have "filter (\<lambda>p. allow pol p \<and> allow spol p) (cw_taken y) = filter (allow spol) (cw_taken y)"
    using taken(2) by (intro filter_cong) (auto simp: list_all_iff)
  moreover have "subseq (from_stream z st) (filter (allow spol) (cw_taken y))" for st
    using sent [of st] subseq_filter [OF sent_on_taken [OF taken(1)]] subseq_order.order_trans by blast
  ultimately show ?thesis
    using subseq_mset [OF taken(1)] by (auto simp: from_stream_def intro: subset_mset.order_trans)
qed

theorem tunnel_delivers_at_most_once_witness:
  "\<exists>R z. srv_reachable open_policy R z \<and> sy_device z = [(8, [5, 6])] \<and>
     mset (map snd (sy_device z)) \<subseteq># mset (cw_taken (wire_run two_frames))"
proof -
  let ?R = "\<lambda>st. \<lparr>chunks = [fw_wire two_frames st], end_err = io_eof, eager = False\<rparr>"
  have "content (?R 8) = frame_bytes [5, 6] @ []"
    by (simp add: content_def two_frames_def frame_bytes_def be32_def)
  then obtain z where z: "srv_reachable open_policy ?R z" "sy_device z = [(8, [5, 6])]"
    using deliver_first [of "[5, 6]" ?R 8 "[]" open_policy] by (auto simp: frame_ok_def MaxFrameSize_def)
  have "\<forall>st. prefix (content (?R st)) (fw_wire (cw_writer (wire_run two_frames)) st)"
    by (simp add: content_def wire_run_def)
  from tunnel_delivers_at_most_once [OF reach_two_frames first_path_distinct z(1) this] z
  show ?thesis by blast
qed

text \<open>
  (C8) The way back.  Whatever the interleaving on the server, whichever writes fail and
  however far the stream has been delivered: what the receiver of a path writes to the
  client's device are, in order, some of the packets the server took from its own, all of
  them allowed by both policies.
\<close>
theorem replies_keep_their_order:
  assumes "srv_reachable spol R z" "prefix (content r) (fw_wire (sy_writer z) (cp_stream q))"
  shows "\<exists>ps. subseq ps (filter (\<lambda>p. allow spol p \<and> allow pol p) (sy_taken z)) \<and>
    delivered (io_trace (fst (receive_path_packets env pol q r s))) = delivered (io_trace s) @ ps"
proof -
  have inv: "srv_inv spol z" using srv_reachable_inv assms(1) by blast
  have taken: "subseq (map snd (fw_sent (sy_writer z))) (sy_taken z)" "list_all (allow spol) (sy_taken z)"
    using inv subseq_appendD(1) by (auto simp: srv_inv_def forward_inv_def list_all_iff)
  have "prefix (fst (read_frames r)) (sent_on (sy_writer z) (cp_stream q))"
    using server_frames.reader_gets_prefix [OF inv assms(2)] .
  then have "subseq (fst (read_frames r)) (sy_taken z)"
    using sent_on_taken [OF taken(1)] by (meson prefix_imp_subseq subseq_order.order_trans)
  then have sub: "subseq (allowed_frames pol r) (filter (allow pol) (sy_taken z))" by (rule subseq_filter)
  obtain n where n: "delivered (io_trace (fst (frame_pump env pol client_quiet (cp_stream q) r s))) =
      delivered (io_trace s) @ take n (allowed_frames pol r)"
    using frame_pump_general by blast
  have "subseq (take n (allowed_frames pol r)) (filter (allow pol) (sy_taken z))"
    using sub by (meson prefix_imp_subseq subseq_order.order_trans take_is_prefix)
  moreover have "filter (\<lambda>p. allow spol p \<and> allow pol p) (sy_taken z) = filter (allow pol) (sy_taken z)"
    using taken(2) by (intro filter_cong) (auto simp: list_all_iff)
  ultimately show ?thesis
    using n remove_and_close_facts by (auto simp: receive_path_packets_def case_prod_beta)
qed

theorem replies_keep_their_order_witness:
  "\<exists>ps. subseq ps [[5, 6]] \<and>
    delivered (io_trace (fst (receive_path_packets calm_env open_policy (example_path 0 7)
      \<lparr>chunks = [[0, 0, 0], [2, 5, 6]], end_err = io_eof, eager = False\<rparr> (two_paths [])))) = ps"
proof -
  let ?r = "\<lparr>chunks = [[0, 0, 0], [2, 5, 6]], end_err = io_eof, eager = False\<rparr>"
  have "prefix (content ?r) (fw_wire (sy_writer (writing [5, 6] sent_writer)) (cp_stream (example_path 0 7)))"
    by (simp add: content_def writing_def sent_writer_def example_path_def)
  from replies_keep_their_order [OF example_writes(1) this, of open_policy calm_env "two_paths []"]
  show ?thesis by (simp add: writing_def two_paths_def)
qed

end
