(* ===== verification/Path_Map.thy ===== *)
theory Path_Map
  imports Client_Paths
begin

text \<open>
  What \<open>clientPathSet\<close> of \<open>internal/quictransport/client.go\<close> promises, abstractly: a map from
  path identifiers to paths.  Adding a path overwrites its identifier, removing a stream
  removes the identifier whose path has it, every other operation leaves the map alone, and
  the answers of the set are answers about the map.
\<close>

section \<open>The abstraction\<close>

definition path_map :: "client_path_set \<Rightarrow> int \<Rightarrow> client_path option" where
  "path_map s = map_of (map (\<lambda>p. (cp_id p, p)) (cps_paths s))"

definition forget_stream :: "nat \<Rightarrow> (int \<Rightarrow> client_path option) \<Rightarrow> int \<Rightarrow> client_path option" where
  "forget_stream stream m = (\<lambda>i. case m i of
     None \<Rightarrow> None | Some p \<Rightarrow> if cp_stream p = stream then None else Some p)"

fun map_apply :: "cps_op \<Rightarrow> (int \<Rightarrow> client_path option) \<Rightarrow> int \<Rightarrow> client_path option" where
  "map_apply (OpAdd p) m = m(cp_id p \<mapsto> p)"
| "map_apply (OpRemove stream) m = forget_stream stream m"
| "map_apply _ m = m"

lemma forget_stream_Some: "forget_stream st m i = Some p \<longleftrightarrow> m i = Some p \<and> cp_stream p \<noteq> st"
  by (auto simp: forget_stream_def split: option.splits)

lemma path_map_iff:
  assumes "path_set_ok s"
  shows "path_map s i = Some p \<longleftrightarrow> p \<in> set (cps_paths s) \<and> cp_id p = i"
proof -
  have "distinct (map fst (map (\<lambda>p. (cp_id p, p)) (cps_paths s)))"
    using assms by (simp add: path_set_ok_def comp_def)
  from map_of_eq_Some_iff [OF this] show ?thesis by (auto simp: path_map_def)
qed

lemma map_eqI: "(\<And>i p. m i = Some p \<longleftrightarrow> m' i = Some p) \<Longrightarrow> m = m'"
  by (metis ext option.exhaust)

lemma path_map_dom: "dom (path_map s) = cp_id ` set (cps_paths s)"
  by (simp add: path_map_def dom_map_of_conv_image_fst image_image)

section \<open>Each operation\<close>

lemma add_members:
  assumes "path_set_ok s"
  shows "set (cps_paths (snd (cps_add s p))) = insert p {q \<in> set (cps_paths s). cp_id q \<noteq> cp_id p}"
proof (cases "first_index (\<lambda>c. cp_id c = cp_id p) (cps_paths s)")
  case None
  then have "cps_paths (snd (cps_add s p)) = cps_paths s @ [p]" by (simp add: cps_add_def)
  moreover have "\<forall>q \<in> set (cps_paths s). cp_id q \<noteq> cp_id p" using None by (simp add: first_index_None)
  ultimately show ?thesis by auto
next
  case (Some i)
  then have i: "i < length (cps_paths s)" "cp_id (cps_paths s ! i) = cp_id p"
    by (auto dest: first_index_Some)
  have "q = cps_paths s ! i" if "q \<in> set (cps_paths s)" "cp_id q = cp_id p" for q
    using id_of_active [OF assms that(1) nth_mem [OF i(1)]] that(2) i(2) by simp
  moreover have "set ((cps_paths s)[i := p]) = insert p (set (cps_paths s) - {cps_paths s ! i})"
    using set_update_distinct [OF distinct_paths [OF assms] i(1)] .
  ultimately show ?thesis using Some i by (auto simp: cps_add_def)
qed

lemma remove_members:
  assumes "path_set_ok s"
  shows "set (cps_paths (snd (cps_remove s st))) = {q \<in> set (cps_paths s). cp_stream q \<noteq> st}"
proof (cases "fst (cps_remove s st)")
  case None
  with remove_None [of s st] remove_unchanged [OF None] show ?thesis by auto
next
  case (Some p)
  note p = remove_Some(1,2) [OF Some]
  have same: "q = p \<longleftrightarrow> cp_stream q = st" if "q \<in> set (cps_paths s)" for q
    using stream_of_active [OF assms that p(1)] p(2) by auto
  have "set (cps_paths (snd (cps_remove s st))) = set (cps_paths s) - {p}"
    using remove_member(2) [OF assms p(1)] p(2) by simp
  with same show ?thesis by blast
qed

lemma apply_refines:
  assumes "path_set_ok s" "op_fresh x s"
  shows "path_map (cps_apply x s) = map_apply x (path_map s)"
proof (rule map_eqI)
  fix i p
  note ok = assms(1) and ok' = cps_apply_ok [OF assms]
  show "path_map (cps_apply x s) i = Some p \<longleftrightarrow> map_apply x (path_map s) i = Some p"
    unfolding path_map_iff [OF ok']
  proof (cases x)
    case (OpAdd q)
    then show "(p \<in> set (cps_paths (cps_apply x s)) \<and> cp_id p = i) = (map_apply x (path_map s) i = Some p)"
      using path_map_iff [OF ok, of i p] add_members [OF ok, of q] by (auto simp: fun_upd_def)
  next
    case (OpRemove st)
    then show "(p \<in> set (cps_paths (cps_apply x s)) \<and> cp_id p = i) = (map_apply x (path_map s) i = Some p)"
      using path_map_iff [OF ok, of i p] remove_members [OF ok, of st] by (auto simp: forget_stream_Some)
  qed (simp_all add: path_map_iff [OF ok])
qed

lemma run_refines:
  "path_set_ok s \<Longrightarrow> ops_fresh xs s \<Longrightarrow> path_map (cps_run xs s) = fold map_apply xs (path_map s)"
  by (induction xs arbitrary: s) (simp_all add: cps_apply_ok apply_refines)

section \<open>Properties\<close>

text \<open>
  (C14) The client's path set refines a map from path identifiers to paths: after any sequence
  of operations on both, \<open>hasPathID\<close> is membership in its domain, \<open>len\<close> its size, \<open>add\<close> answers
  the path it overwrites, \<open>remove\<close> the path it removes, and \<open>nextPath\<close> one of its paths,
  unless it is empty.
\<close>
theorem path_set_refines_map:
  assumes "path_set_ok s" "ops_fresh xs s" "s' = cps_run xs s" "m = fold map_apply xs (path_map s)"
  shows "path_map s' = m \<and>
    (\<forall>i. cps_has_path_id s' i \<longleftrightarrow> i \<in> dom m) \<and> cps_len s' = card (dom m) \<and>
    (\<forall>p. fst (cps_add s' p) = m (cp_id p)) \<and>
    (\<forall>st p. fst (cps_remove s' st) = Some p \<longleftrightarrow> p \<in> ran m \<and> cp_stream p = st) \<and>
    (\<forall>now. fst (cps_next_path s' now) \<in> (if m = Map.empty then {None} else Some ` ran m))"
proof -
  have ok: "path_set_ok s'" using cps_run_ok assms(1-3) by simp
  have m: "path_map s' = m" using run_refines assms by simp
  note pm = path_map_iff [OF ok, unfolded m]
  have ran: "ran m = set (cps_paths s')" using pm by (auto simp: ran_def)
  have dom: "dom m = cp_id ` set (cps_paths s')" using path_map_dom [of s'] m by simp
  have empty: "m = Map.empty \<longleftrightarrow> cps_paths s' = []" using dom by auto
  have "cps_has_path_id s' i \<longleftrightarrow> i \<in> dom m" for i
    by (auto simp: dom cps_has_path_id_def list_ex_iff)
  moreover have "cps_len s' = card (dom m)"
    using ok distinct_card [of "map cp_id (cps_paths s')"] by (simp add: dom cps_len_def path_set_ok_def)
  moreover have "fst (cps_add s' p) = m (cp_id p)" for p
  proof (cases "first_index (\<lambda>c. cp_id c = cp_id p) (cps_paths s')")
    case None
    then have "cp_id p \<notin> dom m" using first_index_None [of _ "cps_paths s'"] dom by auto
    then have "m (cp_id p) = None" by (simp add: domIff)
    with None show ?thesis by (simp add: cps_add_def)
  next
    case (Some i)
    then have "m (cp_id p) = Some (cps_paths s' ! i)" using pm by (auto dest: first_index_Some)
    with Some show ?thesis by (simp add: cps_add_def)
  qed
  moreover have "fst (cps_remove s' st) = Some p \<longleftrightarrow> p \<in> ran m \<and> cp_stream p = st" for st p
    using remove_Some(1,2) [of s' st p] remove_member(1) [OF ok, of p] ran by auto
  moreover have "fst (cps_next_path s' now) \<in> (if m = Map.empty then {None} else Some ` ran m)" for now
    using next_path_member [of s' now] by (cases "cps_paths s' = []") (auto simp: empty ran next_path_eq choose_index_less)
  ultimately show ?thesis using m by blast
qed

theorem path_set_refines_map_witness:
  "\<exists>s'. cps_has_path_id s' 1 \<and> \<not> cps_has_path_id s' 0 \<and> cps_len s' = 1 \<and>
     s' = cps_run [OpAdd (example_path 1 11), OpRemove 10] (new_client_path_set [example_path 0 10])"
proof -
  let ?s = "new_client_path_set [example_path 0 10]"
  let ?xs = "[OpAdd (example_path 1 11), OpRemove 10]"
  let ?m = "fold map_apply ?xs (path_map ?s)"
  have "path_set_ok ?s" by (rule path_set_ok_new) simp_all
  moreover have "ops_fresh ?xs ?s" by (simp add: new_client_path_set_def example_path_def)
  moreover have "?m = [1 \<mapsto> example_path 1 11]"
    by (auto simp: path_map_def new_client_path_set_def forget_stream_def example_path_def fun_eq_iff)
  ultimately show ?thesis using path_set_refines_map [OF _ _ refl refl, of ?s ?xs] by auto
qed

end
