(* ===== verification/Go_Strconv.thy ===== *)
theory Go_Strconv
  imports Go_Net Backoff "HOL-Library.Log_Nat"
begin

text \<open>
  The parsers of Go's \<open>strconv\<close> and \<open>time\<close> that the configuration uses: \<open>ParseBool\<close>,
  \<open>Atoi\<close>, \<open>ParseInt\<close> and \<open>ParseUint\<close> with base 0, \<open>time.ParseDuration\<close>.  An int and a
  uint have 64 bits.  A Go string is the list of its bytes.
\<close>

section \<open>Booleans and integers\<close>

datatype num_error = SyntaxError | RangeError

definition parse_bool :: "string \<Rightarrow> bool option" where
  "parse_bool s =
     (if s \<in> set [''1'', ''t'', ''T'', ''TRUE'', ''true'', ''True''] then Some True
      else if s \<in> set [''0'', ''f'', ''F'', ''FALSE'', ''false'', ''False''] then Some False
      else None)"

definition lower :: "char \<Rightarrow> nat" where
  \<comment> \<open>\<open>c | ('x' - 'X')\<close>\<close>
  "lower c = (if bit (char_val c) 5 then char_val c else char_val c + 32)"

definition digit_of :: "char \<Rightarrow> nat option" where
  "digit_of c =
     (if is_digit c then Some (digit_val c)
      else if 97 \<le> lower c \<and> lower c \<le> 122 then Some (lower c - 97 + 10)
      else None)"

fun parse_digits :: "nat \<Rightarrow> bool \<Rightarrow> string \<Rightarrow> nat \<Rightarrow> num_error + nat" where
  \<comment> \<open>the loop of \<open>ParseUint\<close>; the two overflow tests together say \<open>n * base + d \<ge> 2^64\<close>\<close>
  "parse_digits base base0 [] n = Inr n"
| "parse_digits base base0 (c # cs) n =
     (if c = CHR ''_'' \<and> base0 then parse_digits base base0 cs n
      else case digit_of c of
        None \<Rightarrow> Inl SyntaxError
      | Some d \<Rightarrow>
          if base \<le> d then Inl SyntaxError
          else if 2 ^ 64 \<le> n * base + d then Inl RangeError
          else parse_digits base base0 cs (n * base + d))"

fun underscores_ok :: "bool \<Rightarrow> char \<Rightarrow> string \<Rightarrow> bool" where
  \<comment> \<open>the second argument is the kind of the last character seen\<close>
  "underscores_ok hex saw [] = (saw \<noteq> CHR ''_'')"
| "underscores_ok hex saw (c # cs) =
     (if is_digit c \<or> hex \<and> 97 \<le> lower c \<and> lower c \<le> 102 then underscores_ok hex CHR ''0'' cs
      else if c = CHR ''_'' then saw = CHR ''0'' \<and> underscores_ok hex CHR ''_'' cs
      else saw \<noteq> CHR ''_'' \<and> underscores_ok hex CHR ''!'' cs)"

definition has_base_prefix :: "string \<Rightarrow> bool" where
  "has_base_prefix s \<longleftrightarrow> 2 \<le> length s \<and> s ! 0 = CHR ''0'' \<and> lower (s ! 1) \<in> {98, 111, 120}"

definition underscore_ok :: "string \<Rightarrow> bool" where
  "underscore_ok s =
     (let s = (if s \<noteq> [] \<and> (s ! 0 = CHR ''-'' \<or> s ! 0 = CHR ''+'') then drop 1 s else s)
      in if has_base_prefix s then underscores_ok (lower (s ! 1) = 120) CHR ''0'' (drop 2 s)
         else underscores_ok False CHR ''^'' s)"

definition split_base :: "string \<Rightarrow> nat \<times> string" where
  \<comment> \<open>the base that a prefix selects, and the rest\<close>
  "split_base s =
     (if s ! 0 = CHR ''0'' then
        if 3 \<le> length s \<and> lower (s ! 1) = 98 then (2, drop 2 s)
        else if 3 \<le> length s \<and> lower (s ! 1) = 111 then (8, drop 2 s)
        else if 3 \<le> length s \<and> lower (s ! 1) = 120 then (16, drop 2 s)
        else (8, drop 1 s)
      else (10, s))"

definition parse_uint_nat :: "bool \<Rightarrow> string \<Rightarrow> num_error + nat" where
  \<comment> \<open>\<open>ParseUint(s, base, 64)\<close> with base 0, or 10 when the flag is not set\<close>
  "parse_uint_nat base0 s =
     (if s = [] then Inl SyntaxError
      else let (base, digits) = (if base0 then split_base s else (10, s))
      in case parse_digits base base0 digits 0 of
           Inl err \<Rightarrow> Inl err
         | Inr n \<Rightarrow>
             if base0 \<and> CHR ''_'' \<in> set digits \<and> \<not> underscore_ok s then Inl SyntaxError else Inr n)"

definition parse_uint :: "string \<Rightarrow> num_error + 64 word" where
  \<comment> \<open>\<open>ParseUint(s, 0, 0)\<close>\<close>
  "parse_uint s = (case parse_uint_nat True s of Inl err \<Rightarrow> Inl err | Inr n \<Rightarrow> Inr (of_nat n))"

definition parse_int :: "bool \<Rightarrow> string \<Rightarrow> num_error + int" where
  \<comment> \<open>\<open>ParseInt(s, base, 64)\<close>; with base 10 also \<open>Atoi\<close>\<close>
  "parse_int base0 s =
     (if s = [] then Inl SyntaxError
      else let neg = (s ! 0 = CHR ''-'');
               digits = (if s ! 0 = CHR ''+'' \<or> s ! 0 = CHR ''-'' then drop 1 s else s)
      in case parse_uint_nat base0 digits of
           Inl err \<Rightarrow> Inl err
         | Inr n \<Rightarrow>
             if \<not> neg \<and> 2 ^ 63 \<le> n then Inl RangeError
             else if neg \<and> 2 ^ 63 < n then Inl RangeError
             else Inr (if neg then - int n else int n))"

definition atoi :: "string \<Rightarrow> num_error + int" where
  "atoi s = parse_int False s"

section \<open>\<open>float64\<close>\<close>

text \<open>
  A positive \<open>float64\<close> is a pair of mantissa and exponent, \<open>(m, e)\<close> for \<open>m * 2^e\<close>.  The
  values below are all in the normal range.
\<close>

definition round_half_even :: "nat \<Rightarrow> nat \<Rightarrow> nat" where
  "round_half_even p q =
     (let d = p div q; r = p mod q in if q < 2 * r \<or> q = 2 * r \<and> odd d then d + 1 else d)"

definition f64_ratio :: "nat \<Rightarrow> nat \<Rightarrow> nat \<times> int" where
  \<comment> \<open>the ratio of two integers, rounded to 53 bits\<close>
  "f64_ratio a b =
     (if a = 0 then (0, 0)
      else let scaled = \<lambda>e. (if e \<le> 0 then (a * 2 ^ nat (- e), b) else (a, b * 2 ^ nat e));
               e = int (floorlog 2 a) - int (floorlog 2 b) - 53;
               e = (case scaled e of (p, q) \<Rightarrow> if 2 ^ 53 * q \<le> p then e + 1 else e)
           in case scaled e of (p, q) \<Rightarrow> (round_half_even p q, e))"

definition f64_mult :: "nat \<times> int \<Rightarrow> nat \<times> int \<Rightarrow> nat \<times> int" where
  "f64_mult x y = (case f64_ratio (fst x * fst y) 1 of (m, e) \<Rightarrow> (m, e + snd x + snd y))"

definition f64_trunc :: "nat \<times> int \<Rightarrow> nat" where
  "f64_trunc x = (if snd x < 0 then fst x div 2 ^ nat (- snd x) else fst x * 2 ^ nat (snd x))"

section \<open>Durations\<close>

definition unit_map :: "string \<Rightarrow> nat option" where
  "unit_map u =
     (if u = ''ns'' then Some 1
      else if u = ''us'' \<or> u = [char_of (0xC2 :: nat), char_of (0xB5 :: nat), CHR ''s'']
        \<or> u = [char_of (0xCE :: nat), char_of (0xBC :: nat), CHR ''s''] then Some 1000
      else if u = ''ms'' then Some 1000000
      else if u = ''s'' then Some 1000000000
      else if u = ''m'' then Some 60000000000
      else if u = ''h'' then Some 3600000000000
      else None)"

fun leading_int :: "string \<Rightarrow> nat \<Rightarrow> (nat \<times> string) option" where
  "leading_int [] x = Some (x, [])"
| "leading_int (c # cs) x =
     (if \<not> is_digit c then Some (x, c # cs)
      else if 2 ^ 63 div 10 < x then None
      else let x = x * 10 + digit_val c in if 2 ^ 63 < x then None else leading_int cs x)"

fun leading_fraction :: "string \<Rightarrow> nat \<Rightarrow> nat \<Rightarrow> bool \<Rightarrow> nat \<times> nat \<times> string" where
  "leading_fraction [] x scale overflow = (x, scale, [])"
| "leading_fraction (c # cs) x scale overflow =
     (if \<not> is_digit c then (x, scale, c # cs)
      else if overflow then leading_fraction cs x scale overflow
      else if (2 ^ 63 - 1) div 10 < x then leading_fraction cs x scale True
      else let y = x * 10 + digit_val c
           in if 2 ^ 63 < y then leading_fraction cs x scale True
              else leading_fraction cs y (scale * 10) overflow)"

lemma leading_int_length: "leading_int s x = Some (y, t) \<Longrightarrow> length t \<le> length s"
  by (induction s x rule: leading_int.induct) (auto simp: Let_def split: if_splits)

lemma leading_fraction_length: "leading_fraction s x k ov = (y, k', t) \<Longrightarrow> length t \<le> length s"
  by (induction s x k ov rule: leading_fraction.induct) (auto simp: Let_def split: if_splits)

definition unit_char :: "char \<Rightarrow> bool" where
  "unit_char c \<longleftrightarrow> c \<noteq> CHR ''.'' \<and> \<not> is_digit c"

definition duration_part :: "string \<Rightarrow> (nat \<times> string) option" where
  \<comment> \<open>one round of the loop of \<open>ParseDuration\<close>: the value of a number with its unit\<close>
  "duration_part s =
     (if \<not> (s ! 0 = CHR ''.'' \<or> is_digit (s ! 0)) then None
      else case leading_int s 0 of
        None \<Rightarrow> None
      | Some (v, s1) \<Rightarrow>
          let pre = (length s1 \<noteq> length s);
              (f, scale, s2, post) =
                (if s1 \<noteq> [] \<and> s1 ! 0 = CHR ''.''
                 then (case leading_fraction (drop 1 s1) 0 1 False of
                         (f, scale, s2) \<Rightarrow> (f, scale, s2, length s2 \<noteq> length (drop 1 s1)))
                 else (0, 1, s1, False));
              u = takeWhile unit_char s2
          in if \<not> pre \<and> \<not> post then None
             else if u = [] then None
             else case unit_map u of
               None \<Rightarrow> None
             | Some unit \<Rightarrow>
                 if 2 ^ 63 div unit < v then None
                 else let v = v * unit;
                          v = (if 0 < f then v + f64_trunc (f64_mult (f64_ratio f 1) (f64_ratio unit scale)) else v)
                      in if 2 ^ 63 < v then None else Some (v, drop (length u) s2))"

lemma duration_part_length: "duration_part s = Some (v, t) \<Longrightarrow> length t < length s"
proof -
  assume part: "duration_part s = Some (v, t)"
  then obtain w s1 where s1: "leading_int s 0 = Some (w, s1)"
    by (auto simp: duration_part_def split: if_splits option.splits)
  note l1 = leading_int_length [OF s1]
  obtain f scale s2 where s2: "leading_fraction (drop 1 s1) 0 1 False = (f, scale, s2)"
    by (cases "leading_fraction (drop 1 s1) 0 1 False") auto
  note l2 = leading_fraction_length [OF s2]
  have drop: "length (drop (length (takeWhile unit_char x)) x) < length s"
    if "takeWhile unit_char x \<noteq> []" "length x \<le> length s" for x
    using that by (cases x) (auto split: if_splits)
  show ?thesis
  proof (cases "s1 \<noteq> [] \<and> s1 ! 0 = CHR ''.''")
    case True
    with part s1 s2 have "t = drop (length (takeWhile unit_char s2)) s2" "takeWhile unit_char s2 \<noteq> []"
      by (auto simp: duration_part_def Let_def split: if_splits option.splits)
    with drop [of s2] l1 l2 show ?thesis by simp
  next
    case False
    with part s1 have "t = drop (length (takeWhile unit_char s1)) s1" "takeWhile unit_char s1 \<noteq> []"
      by (auto simp: duration_part_def Let_def split: if_splits option.splits)
    with drop [of s1] l1 show ?thesis by simp
  qed
qed

function duration_parts :: "string \<Rightarrow> nat \<Rightarrow> nat option" where
  "duration_parts s d =
     (if s = [] then Some d
      else case duration_part s of
        None \<Rightarrow> None
      | Some (v, t) \<Rightarrow>
          let d = (d + v) mod 2 ^ 64  \<comment> \<open>an unsigned 64-bit sum\<close>
          in if 2 ^ 63 < d then None else duration_parts t d)"
  by pat_completeness auto
termination
  by (relation "measure (\<lambda>(s, d). length s)") (auto simp: duration_part_length)

declare duration_parts.simps [simp del]

definition parse_duration :: "string \<Rightarrow> duration option" where
  "parse_duration s =
     (let neg = (s \<noteq> [] \<and> s ! 0 = CHR ''-'');
          s = (if s \<noteq> [] \<and> (s ! 0 = CHR ''-'' \<or> s ! 0 = CHR ''+'') then drop 1 s else s)
      in if s = ''0'' then Some 0
         else if s = [] then None
         else case duration_parts s 0 of
           None \<Rightarrow> None
         | Some d \<Rightarrow>
             if neg then Some (- of_nat d)
             else if 2 ^ 63 - 1 < d then None
             else Some (of_nat d))"

end
