(* ===== verification/Env_Config.thy ===== *)
theory Env_Config
  imports Go_Strconv
begin

text \<open>
  Configuration from environment variables, \<open>internal/envconfig\<close>, and the version text of
  \<open>internal/buildinfo\<close>.  The environment, \<open>os.LookupEnv\<close>, is a function from names to
  values; \<open>None\<close> means the variable is not set, which differs from an empty value.
\<close>

type_synonym environment = "string \<Rightarrow> string option"

datatype env_error =
    NotBoolean string | NotInteger string num_error | NotUnsigned string num_error | NotDuration string

definition env_string :: "environment \<Rightarrow> string \<Rightarrow> string \<Rightarrow> string" where
  "env_string lookup name fallback =
     (case lookup name of None \<Rightarrow> fallback | Some value \<Rightarrow> value)"

definition env_bool :: "environment \<Rightarrow> string \<Rightarrow> bool \<Rightarrow> env_error + bool" where
  "env_bool lookup name fallback =
     (case lookup name of
        None \<Rightarrow> Inr fallback
      | Some value \<Rightarrow>
          (case parse_bool value of None \<Rightarrow> Inl (NotBoolean name) | Some parsed \<Rightarrow> Inr parsed))"

definition env_int :: "environment \<Rightarrow> string \<Rightarrow> int \<Rightarrow> env_error + int" where
  "env_int lookup name fallback =
     (case lookup name of
        None \<Rightarrow> Inr fallback
      | Some value \<Rightarrow>
          (case atoi value of Inl err \<Rightarrow> Inl (NotInteger name err) | Inr parsed \<Rightarrow> Inr parsed))"

definition env_uint :: "environment \<Rightarrow> string \<Rightarrow> 64 word \<Rightarrow> env_error + 64 word" where
  "env_uint lookup name fallback =
     (case lookup name of
        None \<Rightarrow> Inr fallback
      | Some value \<Rightarrow>
          (case parse_uint value of Inl err \<Rightarrow> Inl (NotUnsigned name err) | Inr parsed \<Rightarrow> Inr parsed))"

definition env_duration :: "environment \<Rightarrow> string \<Rightarrow> duration \<Rightarrow> env_error + duration" where
  "env_duration lookup name fallback =
     (case lookup name of
        None \<Rightarrow> Inr fallback
      | Some value \<Rightarrow>
          (case parse_duration value of None \<Rightarrow> Inl (NotDuration name) | Some parsed \<Rightarrow> Inr parsed))"

definition version_string :: "string \<Rightarrow> string \<Rightarrow> string \<Rightarrow> string" where
  \<comment> \<open>\<open>Version\<close> and \<open>Commit\<close> are set by the linker\<close>
  "version_string version commit binary =
     (if commit = '''' then binary @ '' '' @ version
      else binary @ '' '' @ version @ '' ('' @ commit @ '')'')"

section \<open>Reading decimal numerals\<close>

lemma nondigits: "\<not> is_digit (CHR ''_'')" "\<not> is_digit (CHR ''-'')" "\<not> is_digit (CHR ''+'')" "\<not> is_digit (CHR ''n'')"
  by (simp_all add: is_digit_def char_val_def)

lemma digit_of_digit_char: "d < 10 \<Longrightarrow> digit_of (digit_char d) = Some d \<and> digit_char d \<noteq> CHR ''_''"
proof -
  assume d: "d < 10"
  then have "digit_char d \<noteq> CHR ''_''" using nondigits(1) is_digit_digit_char by metis
  with d show ?thesis by (simp add: digit_of_def)
qed

lemma parse_digits_show:
  "n < 2 ^ 64 \<Longrightarrow> parse_digits 10 b (show_nat n @ rest) 0 = parse_digits 10 b rest n"
proof (induction n arbitrary: rest rule: show_nat.induct)
  case (1 n)
  have step: "parse_digits 10 b (digit_char (n mod 10) # rest) (n div 10) = parse_digits 10 b rest n"
    using 1(2) digit_of_digit_char [of "n mod 10"] by (auto simp: div_mult_mod_eq)
  show ?case
  proof (cases "n < 10")
    case True
    with step show ?thesis by (simp add: show_nat.simps [of n])
  next
    case False
    then have "parse_digits 10 b (show_nat n @ rest) 0 =
        parse_digits 10 b (show_nat (n div 10) @ digit_char (n mod 10) # rest) 0"
      by (simp add: show_nat.simps [of n])
    also have "\<dots> = parse_digits 10 b (digit_char (n mod 10) # rest) (n div 10)"
      using False 1(2) by (intro 1(1)) auto
    finally show ?thesis using step by simp
  qed
qed

lemma show_nat_hd: "0 < n \<Longrightarrow> hd (show_nat n) \<noteq> CHR ''0''"
proof (induction n rule: show_nat.induct)
  case (1 n)
  show ?case
  proof (cases "n < 10")
    case True
    have "digit_val (CHR ''0'') = 0" by (simp add: digit_val_def char_val_def)
    then have "digit_char n \<noteq> CHR ''0''" using True 1(2) digit_val_digit_char by (metis less_irrefl)
    then show ?thesis using True by (simp add: show_nat.simps [of n])
  next
    case False
    with 1 show ?thesis by (simp add: show_nat.simps [of n] hd_append)
  qed
qed

lemma leading_int_show:
  "n \<le> 2 ^ 63 \<Longrightarrow> leading_int (show_nat n @ rest) 0 = leading_int rest n"
proof (induction n arbitrary: rest rule: show_nat.induct)
  case (1 n)
  have "n div 10 \<le> 2 ^ 63 div 10" using 1(2) by (rule div_le_mono)
  then have step: "leading_int (digit_char (n mod 10) # rest) (n div 10) = leading_int rest n"
    using 1(2) by (simp add: Let_def div_mult_mod_eq)
  show ?case
  proof (cases "n < 10")
    case True
    with step show ?thesis by (simp add: show_nat.simps [of n])
  next
    case False
    then have "leading_int (show_nat n @ rest) 0 =
        leading_int (show_nat (n div 10) @ digit_char (n mod 10) # rest) 0"
      by (simp add: show_nat.simps [of n])
    also have "\<dots> = leading_int (digit_char (n mod 10) # rest) (n div 10)"
      using False 1(2) by (intro 1(1)) auto
    finally show ?thesis using step by simp
  qed
qed

lemma show_nat_Cons:
  obtains c cs where "show_nat n = c # cs" "is_digit c"
  using show_nat_digits [of n] show_nat_nonempty [of n] by (cases "show_nat n") auto

lemma parse_uint_show:
  assumes "n < 2 ^ 64"
  shows "parse_uint_nat b (show_nat n) = Inr n"
proof -
  have und: "CHR ''_'' \<notin> set (show_nat n)" using show_nat_digits [of n] nondigits(1) by blast
  show ?thesis
  proof (cases "n = 0")
    case True
    then have s: "show_nat n = ''0''" by (simp add: show_nat.simps [of 0] digit_char_def char_of_def bit_0)
    show ?thesis
      unfolding s by (simp add: parse_uint_nat_def split_base_def digit_of_def is_digit_def char_val_def
          digit_val_def True)
  next
    case False
    then have "show_nat n ! 0 \<noteq> CHR ''0''" using show_nat_hd [of n] by (simp add: hd_conv_nth)
    then have "split_base (show_nat n) = (10, show_nat n)" by (simp add: split_base_def)
    moreover have "parse_digits 10 b (show_nat n) 0 = Inr n"
      using parse_digits_show [OF assms, of b "[]"] by simp
    ultimately show ?thesis using und by (cases b) (simp_all add: parse_uint_nat_def)
  qed
qed

lemma parse_digits_range:
  "2 ^ 64 \<le> n \<Longrightarrow> parse_digits 10 b (show_nat n @ rest) 0 = Inl RangeError"
proof (induction n arbitrary: rest rule: show_nat.induct)
  case (1 n)
  let ?d = "digit_char (n mod 10)"
  have "\<not> n < 10" using 1(2) by simp
  then have split: "parse_digits 10 b (show_nat n @ rest) 0 = parse_digits 10 b (show_nat (n div 10) @ ?d # rest) 0"
    by (simp add: show_nat.simps [of n])
  show ?case
  proof (cases "2 ^ 64 \<le> n div 10")
    case True
    with 1(1) [OF \<open>\<not> n < 10\<close> True] split show ?thesis by simp
  next
    case False
    then have "parse_digits 10 b (show_nat (n div 10) @ ?d # rest) 0 = parse_digits 10 b (?d # rest) (n div 10)"
      by (intro parse_digits_show) simp
    with 1(2) split digit_of_digit_char [of "n mod 10"] show ?thesis by (auto simp: div_mult_mod_eq)
  qed
qed

lemma parse_uint_range:
  assumes "2 ^ 64 \<le> n"
  shows "parse_uint_nat b (show_nat n) = Inl RangeError"
proof -
  have "0 < n" by (rule less_le_trans [OF _ assms]) simp
  then have "show_nat n ! 0 \<noteq> CHR ''0''" using show_nat_hd [of n] by (simp add: hd_conv_nth)
  then have "split_base (show_nat n) = (10, show_nat n)" by (simp add: split_base_def)
  then show ?thesis using parse_digits_range [OF assms, of b "[]"] by (cases b) (simp_all add: parse_uint_nat_def)
qed

definition show_int :: "int \<Rightarrow> string" where
  "show_int z = (if z < 0 then ''-'' @ show_nat (nat (- z)) else show_nat (nat z))"

lemma parse_int_show:
  assumes "- (2 ^ 63) \<le> z" "z < 2 ^ 63"
  shows "parse_int b (show_int z) = Inr z"
proof (cases "z < 0")
  case True
  then have "nat (- z) < 2 ^ 64" "\<not> 2 ^ 63 < nat (- z)" using assms by simp_all
  with True parse_uint_show [of "nat (- z)" b] show ?thesis by (simp add: parse_int_def show_int_def)
next
  case False
  then have n: "nat z < 2 ^ 64" "\<not> 2 ^ 63 \<le> nat z" using assms by simp_all
  obtain c cs where c: "show_nat (nat z) = c # cs" "is_digit c" by (rule show_nat_Cons)
  then have "c \<noteq> CHR ''-''" "c \<noteq> CHR ''+''" using nondigits by auto
  with False n parse_uint_show [OF n(1), of b] c(1) show ?thesis
    by (simp add: parse_int_def show_int_def)
qed

lemma duration_part_ns:
  assumes "n \<le> 2 ^ 63"
  shows "duration_part (show_nat n @ ''ns'') = Some (n, [])"
proof -
  obtain c cs where c: "show_nat n = c # cs" "is_digit c" by (rule show_nat_Cons)
  then have hd: "is_digit ((show_nat n @ ''ns'') ! 0)" by simp
  have s: "\<not> is_digit (CHR ''s'')" by (simp add: is_digit_def char_val_def)
  have "leading_int (show_nat n @ ''ns'') 0 = Some (n, ''ns'')"
    using leading_int_show [OF assms, of "''ns''"] nondigits(4) by simp
  with hd assms nondigits(4) s show ?thesis
    by (simp add: duration_part_def unit_char_def unit_map_def Let_def)
qed

definition show_duration :: "duration \<Rightarrow> string" where
  "show_duration d = show_int (sint d) @ ''ns''"

lemma parse_duration_show: "parse_duration (show_duration d) = Some d"
proof -
  let ?n = "nat \<bar>sint d\<bar>"
  have r: "- (2 ^ 63) \<le> sint d" "sint d < 2 ^ 63"
    using sint_ge [of d] sint_lt [of d] by simp_all
  then have n: "?n \<le> 2 ^ 63" by simp
  have parts: "duration_parts (show_nat ?n @ ''ns'') 0 = Some ?n"
    using n by (simp add: duration_parts.simps duration_part_ns [OF n] Let_def)
  obtain c cs where c: "show_nat ?n = c # cs" "is_digit c" by (rule show_nat_Cons)
  then have ne: "c \<noteq> CHR ''-''" "c \<noteq> CHR ''+''" "show_nat ?n @ ''ns'' \<noteq> ''0''" using nondigits by auto
  show ?thesis
  proof (cases "sint d < 0")
    case True
    then have "show_duration d = CHR ''-'' # show_nat ?n @ ''ns''"
      by (simp add: show_duration_def show_int_def)
    moreover have "- of_nat ?n = d" using True by (simp add: of_nat_nat)
    ultimately show ?thesis using parts ne(3) by (simp add: parse_duration_def)
  next
    case False
    then have "show_duration d = show_nat ?n @ ''ns''" by (simp add: show_duration_def show_int_def)
    moreover have "of_nat ?n = d" "\<not> 2 ^ 63 - 1 < ?n" using False r by (simp_all add: of_nat_nat)
    ultimately show ?thesis using parts ne c by (simp add: parse_duration_def)
  qed
qed

section \<open>Properties\<close>

text \<open>
  Configuration values round trip through the environment: a variable that holds the
  decimal text of an int or a uint, or a duration in nanoseconds, is read as exactly that
  value, over the whole 64-bit range; an unset variable gives the fallback, an empty one
  is not unset and is refused.
\<close>
theorem environment_round_trip:
  "(- (2 ^ 63) \<le> z \<longrightarrow> z < 2 ^ 63 \<longrightarrow> lookup name = Some (show_int z) \<longrightarrow> env_int lookup name i = Inr z) \<and>
   (lookup name = Some (show_nat (unat w)) \<longrightarrow> env_uint lookup name u = Inr w) \<and>
   (lookup name = Some (show_duration d) \<longrightarrow> env_duration lookup name t = Inr d) \<and>
   (lookup name = None \<longrightarrow> env_int lookup name i = Inr i \<and> env_uint lookup name u = Inr u \<and>
      env_duration lookup name t = Inr t \<and> env_bool lookup name b = Inr b \<and> env_string lookup name s = s) \<and>
   (lookup name = Some '''' \<longrightarrow> env_int lookup name i = Inl (NotInteger name SyntaxError) \<and>
      env_uint lookup name u = Inl (NotUnsigned name SyntaxError) \<and>
      env_duration lookup name t = Inl (NotDuration name) \<and> env_bool lookup name b = Inl (NotBoolean name) \<and>
      env_string lookup name s = '''')"
proof -
  have "unat w < 2 ^ 64" using unsigned_less [of w] by simp
  then have "parse_uint (show_nat (unat w)) = Inr w" by (simp add: parse_uint_def parse_uint_show)
  then show ?thesis
    by (auto simp: env_int_def env_uint_def env_duration_def env_bool_def env_string_def atoi_def
        parse_int_show parse_duration_show parse_uint_def)
      (simp_all add: parse_int_def parse_uint_nat_def parse_duration_def parse_bool_def)
qed

theorem environment_round_trip_witness:
  "env_int (\<lambda>n. Some (show_int (-5))) ''MVPVPN_CLIENT_COUNT'' 4 = Inr (-5)"
  using environment_round_trip [of "-5" "\<lambda>n. Some (show_int (-5))" "''MVPVPN_CLIENT_COUNT''" 4] by simp

end
