(* ===== verification/Go_Flag.thy ===== *)
theory Go_Flag
  imports Go_Strconv
begin

text \<open>
  Go's \<open>flag\<close> package as the two commands use it.  A flag set is a list of names with the
  way each sets its field of the record of values; \<open>True\<close> marks a boolean flag, which needs
  no argument.  Arguments after the first one that is no flag are left alone.
\<close>

type_synonym 'r flag_set = "(string \<times> bool \<times> (string \<Rightarrow> 'r \<Rightarrow> 'r option)) list"

datatype flag_error =
    BadFlagSyntax string | FlagNotDefined string | HelpRequested | FlagNeedsArgument string
  | InvalidFlagValue string string

definition string_flag :: "string \<Rightarrow> (string \<Rightarrow> 'r \<Rightarrow> 'r) \<Rightarrow> string \<times> bool \<times> (string \<Rightarrow> 'r \<Rightarrow> 'r option)" where
  "string_flag name upd = (name, False, \<lambda>v r. Some (upd v r))"

definition bool_flag :: "string \<Rightarrow> (bool \<Rightarrow> 'r \<Rightarrow> 'r) \<Rightarrow> string \<times> bool \<times> (string \<Rightarrow> 'r \<Rightarrow> 'r option)" where
  "bool_flag name upd = (name, True, \<lambda>v r. map_option (\<lambda>b. upd b r) (parse_bool v))"

definition int_flag :: "string \<Rightarrow> (int \<Rightarrow> 'r \<Rightarrow> 'r) \<Rightarrow> string \<times> bool \<times> (string \<Rightarrow> 'r \<Rightarrow> 'r option)" where
  "int_flag name upd =
     (name, False, \<lambda>v r. case parse_int True v of Inl err \<Rightarrow> None | Inr n \<Rightarrow> Some (upd n r))"

definition uint_flag :: "string \<Rightarrow> (64 word \<Rightarrow> 'r \<Rightarrow> 'r) \<Rightarrow> string \<times> bool \<times> (string \<Rightarrow> 'r \<Rightarrow> 'r option)" where
  "uint_flag name upd =
     (name, False, \<lambda>v r. case parse_uint v of Inl err \<Rightarrow> None | Inr n \<Rightarrow> Some (upd n r))"

definition duration_flag :: "string \<Rightarrow> (duration \<Rightarrow> 'r \<Rightarrow> 'r) \<Rightarrow> string \<times> bool \<times> (string \<Rightarrow> 'r \<Rightarrow> 'r option)" where
  "duration_flag name upd = (name, False, \<lambda>v r. map_option (\<lambda>d. upd d r) (parse_duration v))"

definition split_value :: "string \<Rightarrow> string \<times> string option" where
  \<comment> \<open>\<open>name=value\<close>; the name is not empty\<close>
  "split_value s =
     (let name = takeWhile (\<lambda>c. c \<noteq> CHR ''='') s
      in if length name = length s then (s, None) else (name, Some (drop (length name + 1) s)))"

definition set_flag :: "string \<Rightarrow> (string \<Rightarrow> 'r \<Rightarrow> 'r option) \<Rightarrow> string \<Rightarrow> 'r \<Rightarrow> flag_error + 'r" where
  "set_flag name setter v r =
     (case setter v r of None \<Rightarrow> Inl (InvalidFlagValue name v) | Some r \<Rightarrow> Inr r)"

function parse_flags :: "'r flag_set \<Rightarrow> string list \<Rightarrow> 'r \<Rightarrow> flag_error + 'r" where
  "parse_flags flags [] r = Inr r"
| "parse_flags flags (s # args) r =
     (if length s < 2 \<or> s ! 0 \<noteq> CHR ''-'' then Inr r
      else if s = ''--'' then Inr r
      else let name = drop (if s ! 1 = CHR ''-'' then 2 else 1) s
      in if name = [] \<or> name ! 0 = CHR ''-'' \<or> name ! 0 = CHR ''='' then Inl (BadFlagSyntax s)
      else case split_value name of (name, val) \<Rightarrow>
        (case map_of flags name of
           None \<Rightarrow> if name = ''help'' \<or> name = ''h'' then Inl HelpRequested else Inl (FlagNotDefined name)
         | Some (is_bool, setter) \<Rightarrow>
             (case (val, is_bool, args) of
                (Some v, _, _) \<Rightarrow>
                  (case set_flag name setter v r of Inl err \<Rightarrow> Inl err | Inr r \<Rightarrow> parse_flags flags args r)
              | (None, True, _) \<Rightarrow>
                  (case set_flag name setter ''true'' r of Inl err \<Rightarrow> Inl err | Inr r \<Rightarrow> parse_flags flags args r)
              | (None, False, []) \<Rightarrow> Inl (FlagNeedsArgument name)
              | (None, False, v # rest) \<Rightarrow>
                  (case set_flag name setter v r of Inl err \<Rightarrow> Inl err | Inr r \<Rightarrow> parse_flags flags rest r))))"
  by pat_completeness auto
termination
  by (relation "measure (\<lambda>(flags, args, r). length args)") auto

declare parse_flags.simps(2) [simp del]

lemma split_value_plain: "CHR ''='' \<notin> set name \<Longrightarrow> split_value (name @ CHR ''='' # v) = (name, Some v)"
proof -
  assume "CHR ''='' \<notin> set name"
  then have "takeWhile (\<lambda>c. c \<noteq> CHR ''='') (name @ CHR ''='' # v) = name"
    by (induction name) auto
  then show ?thesis by (simp add: split_value_def)
qed

lemma parse_flag_value:
  \<comment> \<open>\<open>-name=value\<close>\<close>
  assumes "map_of flags name = Some (is_bool, setter)" "name \<noteq> []" "CHR ''='' \<notin> set name"
    "name ! 0 \<noteq> CHR ''-''"
  shows "parse_flags flags ((CHR ''-'' # name @ CHR ''='' # v) # args) r =
     (case set_flag name setter v r of Inl err \<Rightarrow> Inl err | Inr r \<Rightarrow> parse_flags flags args r)"
proof -
  obtain c cs where c: "name = c # cs" using assms(2) by (cases name) auto
  with assms(3,4) have "c \<noteq> CHR ''-''" "c \<noteq> CHR ''=''" by auto
  with c assms(1) split_value_plain [OF assms(3), of v] show ?thesis
    by (simp add: parse_flags.simps(2))
qed

lemma parse_flag_next:
  \<comment> \<open>\<open>-name value\<close> for a flag that needs an argument\<close>
  assumes "map_of flags name = Some (False, setter)" "name \<noteq> []" "CHR ''='' \<notin> set name"
    "name ! 0 \<noteq> CHR ''-''"
  shows "parse_flags flags ((CHR ''-'' # name) # v # args) r =
     (case set_flag name setter v r of Inl err \<Rightarrow> Inl err | Inr r \<Rightarrow> parse_flags flags args r)"
proof -
  obtain c cs where c: "name = c # cs" using assms(2) by (cases name) auto
  with assms(3,4) have "c \<noteq> CHR ''-''" "c \<noteq> CHR ''=''" by auto
  moreover have "split_value name = (name, None)"
  proof -
    have "takeWhile (\<lambda>c. c \<noteq> CHR ''='') name = name" using assms(3) by (induction name) auto
    then show ?thesis by (simp only: split_value_def Let_def) simp
  qed
  ultimately show ?thesis using c assms(1) by (simp add: parse_flags.simps(2))
qed

end
