(* ===== verification/Client_Dial.thy ===== *)
theory Client_Dial
  imports Client_Tun
begin

text \<open>
  Dialling the paths of the client of \<open>internal/quictransport/client.go\<close> at the start,
  and redialling a missing path: \<open>clientPathSpecs\<close>, \<open>dialClientPath\<close>,
  \<open>dialClientPaths\<close>, \<open>dialAvailableClientPaths\<close> and \<open>reconnectClientPath\<close>.  What
  \<open>quic.DialAddr\<close> and \<open>OpenStreamSync\<close> answer is part of \<open>env\<close>, which
  stands for one TLS configuration.
\<close>

section \<open>Dialling\<close>

record client_path_spec =
  spec_id :: int
  spec_address :: string

datatype dial_error = DialFailed int string ext_error | OpenStreamFailed int ext_error

record quic_config =
  KeepAlivePeriod :: duration
  MaxIdleTimeout :: duration

definition defaultClientKeepAlive :: duration where "defaultClientKeepAlive = 10 * 1000000000"
definition defaultClientMaxIdleTimeout :: duration where "defaultClientMaxIdleTimeout = 30 * 1000000000"

definition client_quic_config :: quic_config where
  \<comment> \<open>passed to every dial; \<open>dial_addr\<close> stands for dialling with it\<close>
  "client_quic_config =
     \<lparr>KeepAlivePeriod = defaultClientKeepAlive, MaxIdleTimeout = defaultClientMaxIdleTimeout\<rparr>"

lemma client_keeps_alive: "2 * sint (KeepAlivePeriod client_quic_config) < sint (MaxIdleTimeout client_quic_config)"
  by (simp add: client_quic_config_def defaultClientKeepAlive_def defaultClientMaxIdleTimeout_def)

definition client_path_specs :: "string \<Rightarrow> string \<Rightarrow> client_path_spec list" where
  "client_path_specs server0 server1 =
     (let specs = [];
          specs = (if server0 \<noteq> '''' then specs @ [\<lparr>spec_id = 0, spec_address = server0\<rparr>] else specs);
          specs = (if server1 \<noteq> '''' then specs @ [\<lparr>spec_id = 1, spec_address = server1\<rparr>] else specs)
      in specs)"

definition dial_client_path ::
  "env \<Rightarrow> client_path_spec \<Rightarrow> 'z io_state_scheme \<Rightarrow> (dial_error + client_path) \<times> 'z io_state_scheme" where
  "dial_client_path env spec s =
     (let dialled = dial_addr env (io_trace s) (spec_address spec);
          s = emit (Dial (spec_id spec)) s
      in case dialled of
           Inl err \<Rightarrow> (Inl (DialFailed (spec_id spec) (spec_address spec) err), s)
         | Inr conn \<Rightarrow>
             let opened = open_stream env (io_trace s) conn;
                 s = emit (OpenStream conn) s
             in case opened of
                  Inl err \<Rightarrow> (Inl (OpenStreamFailed (spec_id spec) err), emit (ConnClose conn) s)
                | Inr stream \<Rightarrow>
                    (Inr \<lparr>cp_id = spec_id spec, cp_address = spec_address spec,
                          cp_conn = Some conn, cp_stream = stream\<rparr>, s))"

fun dial_paths_from ::
  "env \<Rightarrow> client_path list \<Rightarrow> client_path_spec list \<Rightarrow> 'z io_state_scheme \<Rightarrow>
   (dial_error + client_path list) \<times> 'z io_state_scheme" where
  "dial_paths_from env paths [] s = (Inr paths, s)"
| "dial_paths_from env paths (spec # specs) s =
     (case dial_client_path env spec s of
        (Inl err, s) \<Rightarrow> (Inl err, close_client_paths paths s)
      | (Inr path, s) \<Rightarrow> dial_paths_from env (paths @ [path]) specs s)"

definition dial_client_paths ::
  "env \<Rightarrow> string \<Rightarrow> string \<Rightarrow> 'z io_state_scheme \<Rightarrow>
   (dial_error + client_path list) \<times> 'z io_state_scheme" where
  "dial_client_paths env server0 server1 s =
     dial_paths_from env [] (client_path_specs server0 server1) s"

fun dial_available_client_paths ::
  "env \<Rightarrow> client_path list \<Rightarrow> client_path_spec list \<Rightarrow> 'z io_state_scheme \<Rightarrow>
   client_path list \<times> 'z io_state_scheme" where
  \<comment> \<open>the second argument collects the paths\<close>
  "dial_available_client_paths env paths [] s = (paths, s)"
| "dial_available_client_paths env paths (spec # specs) s =
     (case dial_client_path env spec s of
        (Inl err, s) \<Rightarrow>
          if is_done env s then (paths, s)
          else dial_available_client_paths env paths specs (count_op add_error s)
      | (Inr path, s) \<Rightarrow> dial_available_client_paths env (paths @ [path]) specs s)"

definition max_tun_client_errors :: "client_path list \<Rightarrow> client_path_spec list option \<Rightarrow> nat" where
  "max_tun_client_errors paths reconnect =
     (case reconnect of
        Some specs \<Rightarrow> if length paths < length specs then length specs else length paths
      | None \<Rightarrow> length paths)"

section \<open>Redialling\<close>

definition add_client_path :: "client_path \<Rightarrow> client_state \<Rightarrow> client_state" where
  \<comment> \<open>\<open>if old, replaced := pathSet.add(path); replaced { closeClientPath(old) }\<close>\<close>
  "add_client_path path s =
     (case cps_add (cs_paths s) path of
        (None, ps) \<Rightarrow> s\<lparr>cs_paths := ps\<rparr>
      | (Some old, ps) \<Rightarrow> close_client_path old (s\<lparr>cs_paths := ps\<rparr>))"

fun reconnect_loop ::
  "env \<Rightarrow> client_path_spec \<Rightarrow> duration \<Rightarrow> nat \<Rightarrow> reconnect_backoff \<Rightarrow> client_state \<Rightarrow>
   client_state \<times> client_path list \<times> pump_end" where
  \<comment> \<open>the loop never ends by itself: the number bounds its rounds; the result lists the
      paths for which a receiver was started\<close>
  "reconnect_loop env spec minDelay 0 backoff s = (s, [], Blocked)"
| "reconnect_loop env spec minDelay (Suc rounds) backoff s =
     (if is_done env s then (s, [], Stopped)
      else if cps_has_path_id (cs_paths s) (spec_id spec)
      then (case sleep_context env minDelay s of
              (slept, s) \<Rightarrow>
                if slept then reconnect_loop env spec minDelay rounds backoff s else (s, [], Stopped))
      else case dial_client_path env spec s of
             (Inl err, s) \<Rightarrow>
               if is_done env s then (s, [], Stopped)
               else let s = count_op add_error s;
                        (delay, backoff) = backoff_next backoff
                    in case sleep_context env delay s of
                         (slept, s) \<Rightarrow>
                           if slept then reconnect_loop env spec minDelay rounds backoff s
                           else (s, [], Stopped)
           | (Inr path, s) \<Rightarrow>
               let s = add_client_path path s
               in case reconnect_loop env spec minDelay rounds (backoff_reset backoff) s of
                    (s, started, fin) \<Rightarrow> (s, path # started, fin))"

definition reconnect_client_path ::
  "env \<Rightarrow> client_path_spec \<Rightarrow> duration \<Rightarrow> duration \<Rightarrow> nat \<Rightarrow> client_state \<Rightarrow>
   client_state \<times> client_path list \<times> pump_end" where
  "reconnect_client_path env spec minDelay maxDelay rounds s =
     reconnect_loop env spec minDelay rounds (new_reconnect_backoff minDelay maxDelay) s"

lemma dial_frame:
  assumes "dial_client_path env spec s = (r, s')"
  shows "io_ctrs s' = io_ctrs s" "io_state.more s' = io_state.more s" "extends s s'"
    "r = Inr path \<Longrightarrow> cp_id path = spec_id spec \<and> cp_address path = spec_address spec"
  using assms
  by (auto simp: dial_client_path_def Let_def extends_def split: sum.splits)

fun slept :: "io_event \<Rightarrow> duration list" where
  "slept (Slept d fired) = [d]"
| "slept _ = []"

definition sleeps :: "io_event list \<Rightarrow> duration list" where
  "sleeps tr = concat (map slept tr)"

lemma sleeps_simps [simp]:
  "sleeps [] = []" "sleeps (e # tr) = slept e @ sleeps tr" "sleeps (tr @ tr') = sleeps tr @ sleeps tr'"
  by (simp_all add: sleeps_def)

lemma dial_sleeps: "dial_client_path env spec s = (r, s') \<Longrightarrow> sleeps (io_trace s') = sleeps (io_trace s)"
  by (auto simp: dial_client_path_def Let_def split: sum.splits)

fun is_dial :: "io_event \<Rightarrow> bool" where
  "is_dial (Dial i) = True"
| "is_dial _ = False"

definition dials :: "io_event list \<Rightarrow> nat" where
  "dials tr = length (filter is_dial tr)"

lemma dials_simps [simp]:
  "dials [] = 0" "dials (e # tr) = (if is_dial e then 1 else 0) + dials tr" "dials (tr @ tr') = dials tr + dials tr'"
  by (simp_all add: dials_def)

definition patient_redial :: "env \<Rightarrow> nat \<Rightarrow> bool" where
  \<comment> \<open>the context stays alive, every timer fires, and redials fail as long as there were
      fewer than so many\<close>
  "patient_redial env failures \<longleftrightarrow>
     (\<forall>tr. \<not> ctx_done env tr) \<and> (\<forall>tr d. timer_fires env tr d) \<and>
     (\<forall>tr a. dials tr < failures \<longrightarrow> (\<exists>e. dial_addr env tr a = Inl e))"

lemma patient_redialD:
  assumes "patient_redial env failures"
  shows alive: "\<not> ctx_done env tr"
    and fires: "timer_fires env tr d"
    and failing: "dials tr < failures \<Longrightarrow> \<exists>e. dial_addr env tr a = Inl e"
  using assms by (auto simp: patient_redial_def)

lemma failing_rounds:
  assumes patient: "patient_redial env failures"
    and "\<not> cps_has_path_id (cs_paths s) (spec_id spec)" "dials (io_trace s) + k \<le> failures"
  shows "\<exists>s' b'. reconnect_loop env spec minDelay (k + n) b s = reconnect_loop env spec minDelay n b' s' \<and>
    sleeps (io_trace s') = sleeps (io_trace s) @ delays k b \<and> dials (io_trace s') = dials (io_trace s) + k \<and>
    cs_paths s' = cs_paths s \<and> io_ctrs s' = (add_error ^^ k) (io_ctrs s) \<and>
    bo_min b' = bo_min b \<and> bo_max b' = bo_max b"
  using assms(2,3)
proof (induction k arbitrary: b s)
  case 0
  then show ?case by (intro exI [of _ s] exI [of _ b]) simp
next
  case (Suc k)
  obtain e where "dial_addr env (io_trace s) (spec_address spec) = Inl e"
    using failing [OF patient, of "io_trace s"] Suc.prems(2) by auto
  then have d: "dial_client_path env spec s =
      (Inl (DialFailed (spec_id spec) (spec_address spec) e), emit (Dial (spec_id spec)) s)"
    by (simp add: dial_client_path_def)
  obtain w b' where b: "backoff_next b = (w, b')" by fastforce
  have "bo_min b' = bo_min b \<and> bo_max b' = bo_max b" using b by (auto simp: backoff_next_def Let_def)
  moreover define s1 where "s1 = emit (Slept w True) (count_op add_error (emit (Dial (spec_id spec)) s))"
  moreover have "reconnect_loop env spec minDelay (Suc k + n) b s = reconnect_loop env spec minDelay (k + n) b' s1"
    using Suc.prems(1) alive [OF patient] fires [OF patient] by (simp add: d b is_done_def sleep_context_def s1_def)
  moreover note Suc.IH [of s1 b']
  ultimately show ?case using Suc.prems b by (auto simp: funpow_swap1)
qed

lemma idle_rounds:
  assumes patient: "patient_redial env failures" and "cps_has_path_id (cs_paths s) (spec_id spec)"
  shows "\<exists>s'. reconnect_loop env spec minDelay n b s = (s', [], Blocked) \<and>
    sleeps (io_trace s') = sleeps (io_trace s) @ replicate n minDelay \<and> dials (io_trace s') = dials (io_trace s) \<and>
    cs_paths s' = cs_paths s \<and> io_ctrs s' = io_ctrs s"
  using assms(2)
proof (induction n arbitrary: s)
  case (Suc n)
  define s1 where "s1 = emit (Slept minDelay True) s"
  have "reconnect_loop env spec minDelay (Suc n) b s = reconnect_loop env spec minDelay n b s1"
    using Suc.prems alive [OF patient] fires [OF patient] by (simp add: is_done_def sleep_context_def s1_def)
  with Suc.IH [of s1] Suc.prems show ?case by (auto simp: s1_def)
qed simp

lemma connecting_round:
  assumes patient: "patient_redial env failures" and "\<not> cps_has_path_id (cs_paths s) (spec_id spec)"
    "dial_addr env (io_trace s) (spec_address spec) = Inr conn" "\<And>tr. open_stream env tr conn = Inr stream"
    "path = \<lparr>cp_id = spec_id spec, cp_address = spec_address spec, cp_conn = Some conn, cp_stream = stream\<rparr>"
  shows "\<exists>s'. reconnect_loop env spec minDelay (Suc n) b s = (s', [path], Blocked) \<and>
    sleeps (io_trace s') = sleeps (io_trace s) @ replicate n minDelay \<and>
    dials (io_trace s') = Suc (dials (io_trace s)) \<and>
    cps_paths (cs_paths s') = cps_paths (cs_paths s) @ [path] \<and> io_ctrs s' = io_ctrs s"
proof -
  define s1 where "s1 = emit (OpenStream conn) (emit (Dial (spec_id spec)) s)"
  define s2 where "s2 = s1\<lparr>cs_paths := (cs_paths s)\<lparr>cps_paths := cps_paths (cs_paths s) @ [path]\<rparr>\<rparr>"
  have d: "dial_client_path env spec s = (Inr path, s1)"
    using assms(3-5) by (simp add: dial_client_path_def s1_def)
  have "first_index (\<lambda>q. cp_id q = cp_id path) (cps_paths (cs_paths s)) = None"
    using assms(2,5) by (auto simp: first_index_None cps_has_path_id_def list_ex_iff)
  then have "add_client_path path s1 = s2" by (simp add: add_client_path_def cps_add_def s1_def s2_def)
  moreover have "cps_has_path_id (cs_paths s2) (spec_id spec)"
    using assms(5) by (simp add: s2_def cps_has_path_id_def)
  note idle_rounds [OF patient this, of minDelay n "backoff_reset b"]
  ultimately show ?thesis
    using assms(2) alive [OF patient] by (auto simp: d is_done_def s2_def s1_def)
qed

lemma close_paths_frame:
  "io_ctrs (close_client_paths ps s) = io_ctrs s \<and>
   (\<exists>tr. io_trace (close_client_paths ps s) = io_trace s @ tr \<and> list_all silent tr \<and>
      (\<forall>p \<in> set ps. StreamClose (cp_stream p) \<in> set tr \<and> (\<forall>c. cp_conn p = Some c \<longrightarrow> ConnClose c \<in> set tr)) \<and>
      (\<forall>c. OpenStream c \<notin> set tr))"
proof (induction ps arbitrary: s)
  case (Cons p ps)
  obtain tr where "io_trace (close_client_path p s) = io_trace s @ tr" "list_all silent tr"
    "StreamClose (cp_stream p) \<in> set tr" "\<forall>c. cp_conn p = Some c \<longrightarrow> ConnClose c \<in> set tr"
    "\<forall>c. OpenStream c \<notin> set tr"
    by (cases "cp_conn p") (auto simp: close_client_path_def)
  with Cons.IH [of "close_client_path p s"] show ?case by auto
qed simp

lemma dial_cases:
  assumes "dial_client_path env spec s = (r, s')"
  obtains err where "r = Inl err" "io_trace s' = io_trace s @ [Dial (spec_id spec)]"
  | err conn where "r = Inl err"
      "io_trace s' = io_trace s @ [Dial (spec_id spec), OpenStream conn, ConnClose conn]"
  | path conn where "r = Inr path" "cp_conn path = Some conn"
      "cp_id path = spec_id spec" "cp_address path = spec_address spec"
      "io_trace s' = io_trace s @ [Dial (spec_id spec), OpenStream conn]"
  using assms by (auto simp: dial_client_path_def Let_def split: sum.splits)

definition conns_of :: "client_path list \<Rightarrow> nat set" where
  "conns_of ps = {c. \<exists>p \<in> set ps. cp_conn p = Some c}"

definition no_leak :: "client_path list \<Rightarrow> io_event list \<Rightarrow> bool" where
  \<comment> \<open>every connection that was opened belongs to one of these paths, or is closed again\<close>
  "no_leak ps tr \<longleftrightarrow> (\<forall>c. OpenStream c \<in> set tr \<longrightarrow> c \<in> conns_of ps \<or> ConnClose c \<in> set tr)"

lemma conns_of_append [simp]: "conns_of (ps @ qs) = conns_of ps \<union> conns_of qs"
  by (auto simp: conns_of_def)

lemma no_leak_closed:
  assumes "no_leak ps tr0" "io_trace s1 = io_trace s @ tr1"
    "\<forall>c. OpenStream c \<in> set tr1 \<longrightarrow> ConnClose c \<in> set tr1"
  shows "\<exists>tr. io_trace (close_client_paths ps s1) = io_trace s @ tr \<and> no_leak [] (tr0 @ tr)"
proof -
  obtain tr where "io_trace (close_client_paths ps s1) = io_trace s1 @ tr"
    "\<forall>p \<in> set ps. \<forall>c. cp_conn p = Some c \<longrightarrow> ConnClose c \<in> set tr" "\<forall>c. OpenStream c \<notin> set tr"
    using close_paths_frame [of ps s1] by blast
  moreover have "no_leak [] (tr0 @ tr1 @ tr)"
    using assms(1,3) calculation(2,3) unfolding no_leak_def conns_of_def by auto
  ultimately show ?thesis using assms(2) by auto
qed

lemma dial_paths_from_spec:
  assumes "dial_paths_from env ps specs s = (r, s')" "no_leak ps tr0"
  shows "\<exists>tr. io_trace s' = io_trace s @ tr \<and>
    (case r of
       Inr qs \<Rightarrow> no_leak qs (tr0 @ tr) \<and>
         map (\<lambda>p. (cp_id p, cp_address p)) qs =
         map (\<lambda>p. (cp_id p, cp_address p)) ps @ map (\<lambda>x. (spec_id x, spec_address x)) specs
     | Inl err \<Rightarrow> no_leak [] (tr0 @ tr))"
  using assms
proof (induction env ps specs s arbitrary: tr0 rule: dial_paths_from.induct)
  case (2 env ps spec specs s)
  obtain x s1 where d: "dial_client_path env spec s = (x, s1)" by fastforce
  show ?case
  proof (cases rule: dial_cases [OF d])
    case (1 err)
    with "2.prems" d no_leak_closed [OF "2.prems"(2) 1(2)] show ?thesis by auto
  next
    case (2 err conn)
    with "2.prems" d no_leak_closed [OF "2.prems"(2) 2(2)] show ?thesis by auto
  next
    case (3 path conn)
    let ?tr = "[Dial (spec_id spec), OpenStream conn]"
    have "no_leak (ps @ [path]) (tr0 @ ?tr)"
      using "2.prems"(2) 3(2) by (auto simp: no_leak_def conns_of_def)
    moreover have "dial_paths_from env (ps @ [path]) specs s1 = (r, s')" using "2.prems"(1) d 3(1) by simp
    ultimately show ?thesis using "2.IH" [OF d [symmetric] 3(1), of "tr0 @ ?tr"] 3
      by (auto split: sum.splits)
  qed
qed (auto split: sum.splits)

lemma dial_available_spec:
  assumes "dial_available_client_paths env ps specs s = (qs, s')" "no_leak ps tr0"
  shows "\<exists>tr. io_trace s' = io_trace s @ tr \<and> no_leak qs (tr0 @ tr) \<and>
    subseq (map cp_id qs) (map cp_id ps @ map spec_id specs)"
  using assms
proof (induction env ps specs s arbitrary: tr0 rule: dial_available_client_paths.induct)
  case (2 env ps spec specs s)
  obtain x s1 where d: "dial_client_path env spec s = (x, s1)" by fastforce
  have skip: "subseq (map cp_id qs) (map cp_id ps @ map spec_id (spec # specs))"
    if "subseq (map cp_id qs) (map cp_id ps @ map spec_id specs)"
    using that by (rule subseq_order.trans) (auto intro: list_emb_append_mono)
  have fail: ?case
    if x: "x = Inl err" and tr: "io_trace s1 = io_trace s @ tr1"
      and closed: "\<forall>c. OpenStream c \<in> set tr1 \<longrightarrow> ConnClose c \<in> set tr1" for err tr1
  proof -
    have leak: "no_leak ps (tr0 @ tr1)"
      using "2.prems"(2) closed by (auto simp: no_leak_def)
    show ?thesis
    proof (cases "is_done env s1")
      case True
      with "2.prems"(1) d x tr leak show ?thesis by auto
    next
      case False
      with "2.prems"(1) d x have "dial_available_client_paths env ps specs (count_op add_error s1) = (qs, s')"
        by simp
      from "2.IH"(1) [OF d [symmetric] x False this leak] tr skip show ?thesis by auto
    qed
  qed
  show ?case
  proof (cases rule: dial_cases [OF d])
    case (1 err)
    with fail [OF 1] show ?thesis by simp
  next
    case (2 err conn)
    with fail [OF 2] show ?thesis by simp
  next
    case (3 path conn)
    let ?tr = "[Dial (spec_id spec), OpenStream conn]"
    have leak: "no_leak (ps @ [path]) (tr0 @ ?tr)"
      using "2.prems"(2) 3(2) by (auto simp: no_leak_def conns_of_def)
    have "dial_available_client_paths env (ps @ [path]) specs s1 = (qs, s')"
      using "2.prems"(1) d 3(1) by simp
    from "2.IH"(2) [OF d [symmetric] 3(1) this leak] 3 show ?thesis by auto
  qed
qed auto

section \<open>Properties\<close>

text \<open>
  (C25) Redialling a missing path: while the first \<open>k\<close> dials fail the loop waits for the
  backoff's delays in turn; the dial that succeeds puts the path at the end of the set and
  starts its receiver; from then on the loop only polls, at the minimum interval, and does
  not dial again while the path is active.
\<close>

theorem redial_until_connected:
  assumes "patient_redial env (dials (io_trace s) + k)"
    "\<forall>tr. dials tr = dials (io_trace s) + k \<longrightarrow> dial_addr env tr (spec_address spec) = Inr conn"
    "\<forall>tr. open_stream env tr conn = Inr stream"
    "\<not> cps_has_path_id (cs_paths s) (spec_id spec)"
    "path = \<lparr>cp_id = spec_id spec, cp_address = spec_address spec, cp_conn = Some conn, cp_stream = stream\<rparr>"
  shows "\<exists>s'. reconnect_client_path env spec minDelay maxDelay (k + Suc m) s = (s', [path], Blocked) \<and>
    sleeps (io_trace s') = sleeps (io_trace s) @
      delays k (new_reconnect_backoff minDelay maxDelay) @ replicate m minDelay \<and>
    dials (io_trace s') = dials (io_trace s) + k + 1 \<and>
    cps_paths (cs_paths s') = cps_paths (cs_paths s) @ [path] \<and>
    io_ctrs s' = (add_error ^^ k) (io_ctrs s)"
proof -
  let ?b = "new_reconnect_backoff minDelay maxDelay"
  obtain s1 b1 where s1:
    "reconnect_loop env spec minDelay (k + Suc m) ?b s = reconnect_loop env spec minDelay (Suc m) b1 s1"
    "sleeps (io_trace s1) = sleeps (io_trace s) @ delays k ?b" "dials (io_trace s1) = dials (io_trace s) + k"
    "cs_paths s1 = cs_paths s" "io_ctrs s1 = (add_error ^^ k) (io_ctrs s)"
    using failing_rounds [OF assms(1,4) order_refl, of minDelay "Suc m" ?b] by blast
  have "\<exists>s'. reconnect_loop env spec minDelay (Suc m) b1 s1 = (s', [path], Blocked) \<and>
    sleeps (io_trace s') = sleeps (io_trace s1) @ replicate m minDelay \<and>
    dials (io_trace s') = Suc (dials (io_trace s1)) \<and>
    cps_paths (cs_paths s') = cps_paths (cs_paths s1) @ [path] \<and> io_ctrs s' = io_ctrs s1"
    using s1(3,4) assms by (intro connecting_round [OF assms(1)]) simp_all
  with s1 show ?thesis by (auto simp: reconnect_client_path_def)
qed

definition late_env :: env where
  \<comment> \<open>the third dial succeeds\<close>
  "late_env = calm_env\<lparr>dial_addr := (\<lambda>tr a. if dials tr < 2 then Inl unexpected_eof else Inr 7)\<rparr>"

theorem redial_until_connected_witness:
  "\<exists>s'. reconnect_client_path late_env \<lparr>spec_id = 5, spec_address = ''a''\<rparr> 1 4 (2 + Suc 1) (two_paths []) =
      (s', [\<lparr>cp_id = 5, cp_address = ''a'', cp_conn = Some 7, cp_stream = 2\<rparr>], Blocked) \<and>
    sleeps (io_trace s') = delays 2 (new_reconnect_backoff 1 4) @ [1] \<and> dials (io_trace s') = 3"
proof -
  have "patient_redial late_env (dials (io_trace (two_paths [])) + 2)"
    by (simp add: patient_redial_def late_env_def calm_env_def two_paths_def)
  moreover have "\<forall>tr. dials tr = dials (io_trace (two_paths [])) + 2 \<longrightarrow>
      dial_addr late_env tr (spec_address \<lparr>spec_id = 5, spec_address = ''a''\<rparr>) = Inr 7"
    "\<forall>tr. open_stream late_env tr 7 = Inr 2"
    by (simp_all add: late_env_def calm_env_def two_paths_def)
  moreover have "\<not> cps_has_path_id (cs_paths (two_paths [])) (spec_id \<lparr>spec_id = 5, spec_address = ''a''\<rparr>)"
    by (simp add: cps_has_path_id_def two_paths_def new_client_path_set_def example_path_def)
  ultimately show ?thesis
    using redial_until_connected [where m = 1 and k = 2 and minDelay = 1 and maxDelay = 4
        and env = late_env and s = "two_paths []" and spec = "\<lparr>spec_id = 5, spec_address = ''a''\<rparr>"
        and conn = 7 and stream = 2, OF _ _ _ _ refl]
    by (fastforce simp: two_paths_def)
qed

text \<open>
  (C34) Dialling leaks no connection: \<open>dialClientPaths\<close> either returns one path per
  configured address, in order, or closes every connection it opened;
  \<open>dialAvailableClientPaths\<close> returns paths for some of the addresses, in order, and every
  other connection that was opened is closed.
\<close>

theorem dialling_leaks_no_connection:
  "(case dial_client_paths env server0 server1 s of
      (Inr ps, s') \<Rightarrow> no_leak ps (new_events s s') \<and>
        map (\<lambda>p. (cp_id p, cp_address p)) ps =
          map (\<lambda>x. (spec_id x, spec_address x)) (client_path_specs server0 server1)
    | (Inl err, s') \<Rightarrow> no_leak [] (new_events s s')) \<and>
   (case dial_available_client_paths env [] specs s of
      (ps, s') \<Rightarrow> no_leak ps (new_events s s') \<and> subseq (map cp_id ps) (map spec_id specs))"
proof -
  have nil: "no_leak [] []" by (simp add: no_leak_def)
  obtain r s1 where a: "dial_paths_from env [] (client_path_specs server0 server1) s = (r, s1)" by fastforce
  obtain ps s2 where b: "dial_available_client_paths env [] specs s = (ps, s2)" by fastforce
  have new: "new_events s s'' = tr" if "io_trace s'' = io_trace s @ tr" for s'' tr
    using that by (simp add: new_events_def)
  show ?thesis
    using dial_paths_from_spec [OF a nil] dial_available_spec [OF b nil]
    by (auto simp: dial_client_paths_def a b new split: sum.splits)
qed

end
