(* ===== verification/Tls_Config.thy ===== *)
theory Tls_Config
  imports Go_IO
begin

text \<open>
  The TLS configurations of \<open>internal/quictransport/tls.go\<close> and the ephemeral
  certificate of \<open>server.go\<close>.  Files, PEM parsing and cryptography belong to the Go
  library: they are the fields of \<open>tls_env\<close>, over the types \<open>'c\<close> of certificates
  and \<open>'p\<close> of certificate pools and \<open>'k\<close> of private keys.  Of a certificate template
  the fields that depend on the code are kept.
\<close>

section \<open>Data\<close>

datatype client_auth = NoClientCert | RequireAndVerifyClientCert

record ('c, 'p) tls_config =
  Certificates :: "'c list"
  NextProtos :: "string list"
  MinVersion :: "16 word"
  ServerName :: string
  InsecureSkipVerify :: bool
  RootCAs :: "'p option"
  ClientCAs :: "'p option"
  ClientAuth :: client_auth

record certificate_template =
  SerialNumber :: int
  CommonName :: string
  NotBefore :: int
  NotAfter :: int
  ServerAuthUsage :: bool
  DNSNames :: "string list"
  IPAddresses :: "bytes list"

record ('k, 'c, 'p) tls_env =
  read_file :: "string \<Rightarrow> ext_error + bytes"
  load_key_pair :: "string \<Rightarrow> string \<Rightarrow> ext_error + 'c"
  certs_from_pem :: "bytes \<Rightarrow> 'p option"
  generate_key :: "nat \<Rightarrow> ext_error + 'k"
  random_below :: "int \<Rightarrow> ext_error + int"
  wall_clock :: "nat \<Rightarrow> int"
  create_certificate :: "certificate_template \<Rightarrow> 'k \<Rightarrow> ext_error + bytes"
  key_pair_from_der :: "bytes \<Rightarrow> 'k \<Rightarrow> ext_error + 'c"

datatype tls_error =
    GenerateKey ext_error | GenerateSerial ext_error | CreateCertificate ext_error
  | LoadKeyPair ext_error | LoadClientKeyPair ext_error
  | CertAndKeyRequired | ClientCertAndKeyRequired
  | ReadCertificate string ext_error | NoPEMCertificates string string

definition mvpQUICALPN :: string where "mvpQUICALPN = ''mvp-vpn-lite''"
definition VersionTLS13 :: "16 word" where "VersionTLS13 = 0x0304"

definition zero_tls_config :: "('c, 'p) tls_config" where
  "zero_tls_config = \<lparr>Certificates = [], NextProtos = [], MinVersion = 0, ServerName = '''',
     InsecureSkipVerify = False, RootCAs = None, ClientCAs = None, ClientAuth = NoClientCert\<rparr>"

section \<open>Building a configuration\<close>

definition load_cert_pool :: "('k, 'c, 'p) tls_env \<Rightarrow> string \<Rightarrow> string \<Rightarrow> tls_error + 'p" where
  "load_cert_pool te path label =
     (case read_file te path of
        Inl err \<Rightarrow> Inl (ReadCertificate label err)
      | Inr pemBytes \<Rightarrow>
          (case certs_from_pem te pemBytes of
             None \<Rightarrow> Inl (NoPEMCertificates label path)
           | Some pool \<Rightarrow> Inr pool))"

definition hour :: int where "hour = 3600 * 1000000000"

definition generate_self_signed_tls_config :: "('k, 'c, 'p) tls_env \<Rightarrow> tls_error + ('c, 'p) tls_config" where
  "generate_self_signed_tls_config te =
     (case generate_key te 2048 of
        Inl err \<Rightarrow> Inl (GenerateKey err)
      | Inr key \<Rightarrow>
        (case random_below te (push_bit 128 1) of
           Inl err \<Rightarrow> Inl (GenerateSerial err)
         | Inr serialNumber \<Rightarrow>
             let template = \<lparr>SerialNumber = serialNumber, CommonName = ''mvp-vpn-lite'',
                   NotBefore = wall_clock te 0 - hour, NotAfter = wall_clock te 1 + 24 * hour,
                   ServerAuthUsage = True, DNSNames = [''localhost''],
                   IPAddresses = [replicate 10 0 @ [0xff, 0xff, 127, 0, 0, 1]]\<rparr>
             in case create_certificate te template key of
                  Inl err \<Rightarrow> Inl (CreateCertificate err)
                | Inr certDER \<Rightarrow>
                    (case key_pair_from_der te certDER key of
                       Inl err \<Rightarrow> Inl (LoadKeyPair err)
                     | Inr cert \<Rightarrow>
                         Inr (zero_tls_config\<lparr>Certificates := [cert], NextProtos := [mvpQUICALPN],
                                MinVersion := VersionTLS13\<rparr>))))"

definition server_tls_config ::
  "('k, 'c, 'p) tls_env \<Rightarrow> string \<Rightarrow> string \<Rightarrow> string \<Rightarrow> tls_error + ('c, 'p) tls_config" where
  "server_tls_config te certFile keyFile clientCAFile =
     (let base =
        (if certFile = '''' \<and> keyFile = '''' then generate_self_signed_tls_config te
         else if certFile = '''' \<or> keyFile = '''' then Inl CertAndKeyRequired
         else case load_key_pair te certFile keyFile of
                Inl err \<Rightarrow> Inl (LoadKeyPair err)
              | Inr cert \<Rightarrow>
                  Inr (zero_tls_config\<lparr>Certificates := [cert], NextProtos := [mvpQUICALPN],
                         MinVersion := VersionTLS13\<rparr>))
      in case base of
           Inl err \<Rightarrow> Inl err
         | Inr cfg \<Rightarrow>
             if clientCAFile \<noteq> '''' then
               (case load_cert_pool te clientCAFile ''client CA'' of
                  Inl err \<Rightarrow> Inl err
                | Inr clientCAs \<Rightarrow>
                    Inr (cfg\<lparr>ClientCAs := Some clientCAs, ClientAuth := RequireAndVerifyClientCert\<rparr>))
             else Inr cfg)"

definition client_tls_config ::
  "('k, 'c, 'p) tls_env \<Rightarrow> string \<Rightarrow> string \<Rightarrow> string \<Rightarrow> string \<Rightarrow> tls_error + ('c, 'p) tls_config" where
  "client_tls_config te caFile serverName certFile keyFile =
     (let cfg = zero_tls_config\<lparr>NextProtos := [mvpQUICALPN], MinVersion := VersionTLS13,
                  ServerName := serverName\<rparr>;
          verified =
            (if caFile = '''' then Inr (cfg\<lparr>InsecureSkipVerify := True\<rparr>)
             else case load_cert_pool te caFile ''CA'' of
                    Inl err \<Rightarrow> Inl err
                  | Inr rootCAs \<Rightarrow> Inr (cfg\<lparr>RootCAs := Some rootCAs\<rparr>))
      in case verified of
           Inl err \<Rightarrow> Inl err
         | Inr cfg \<Rightarrow>
             if certFile = '''' \<and> keyFile = '''' then Inr cfg
             else if certFile = '''' \<or> keyFile = '''' then Inl ClientCertAndKeyRequired
             else case load_key_pair te certFile keyFile of
                    Inl err \<Rightarrow> Inl (LoadClientKeyPair err)
                  | Inr cert \<Rightarrow> Inr (cfg\<lparr>Certificates := [cert]\<rparr>))"

section \<open>What a configuration guarantees\<close>

text \<open>
  What a client configuration guarantees: TLS 1.3 and the program's ALPN, always; the
  server certificate is verified, against the pool loaded from the CA file, exactly when a
  CA file is configured; and a client certificate is presented exactly when both its files
  are configured, one of the two alone being refused.
\<close>

lemma client_tls_guarantees:
  assumes "client_tls_config te caFile serverName certFile keyFile = Inr cfg"
  shows "MinVersion cfg = VersionTLS13 \<and> NextProtos cfg = [mvpQUICALPN] \<and> ServerName cfg = serverName \<and>
    (InsecureSkipVerify cfg \<longleftrightarrow> caFile = '''') \<and>
    (caFile \<noteq> '''' \<longrightarrow> (\<exists>pem pool. read_file te caFile = Inr pem \<and> certs_from_pem te pem = Some pool \<and>
       RootCAs cfg = Some pool)) \<and>
    (certFile = '''' \<longleftrightarrow> keyFile = '''') \<and>
    (certFile = '''' \<longrightarrow> Certificates cfg = []) \<and>
    (certFile \<noteq> '''' \<longrightarrow> (\<exists>cert. load_key_pair te certFile keyFile = Inr cert \<and> Certificates cfg = [cert]))"
  using assms
  by (auto simp: client_tls_config_def load_cert_pool_def zero_tls_config_def Let_def
      split: if_splits sum.splits option.splits)

text \<open>
  What a server configuration guarantees: TLS 1.3 and the program's ALPN with exactly
  one certificate, always; clients must present a certificate from the configured pool
  exactly when a client CA file is configured; a certificate file without its key file, or
  the reverse, is refused, and with neither the certificate is the ephemeral one.
\<close>

lemma server_tls_guarantees:
  assumes "server_tls_config te certFile keyFile clientCAFile = Inr cfg"
  shows "MinVersion cfg = VersionTLS13 \<and> NextProtos cfg = [mvpQUICALPN] \<and> length (Certificates cfg) = 1 \<and>
    (ClientAuth cfg = RequireAndVerifyClientCert \<longleftrightarrow> clientCAFile \<noteq> '''') \<and>
    (clientCAFile \<noteq> '''' \<longrightarrow> (\<exists>pem pool. read_file te clientCAFile = Inr pem \<and>
       certs_from_pem te pem = Some pool \<and> ClientCAs cfg = Some pool)) \<and>
    (certFile = '''' \<longleftrightarrow> keyFile = '''') \<and>
    (certFile \<noteq> '''' \<longrightarrow> load_key_pair te certFile keyFile = Inr (hd (Certificates cfg))) \<and>
    (certFile = '''' \<longrightarrow> (\<exists>cfg0. generate_self_signed_tls_config te = Inr cfg0 \<and>
       Certificates cfg = Certificates cfg0))"
  using assms
  by (auto simp: server_tls_config_def load_cert_pool_def zero_tls_config_def Let_def
      generate_self_signed_tls_config_def split: if_splits sum.splits option.splits)

section \<open>Properties\<close>

definition example_tls_env :: "(unit, nat, nat) tls_env" where
  \<comment> \<open>files and keys for the concrete instances\<close>
  "example_tls_env = \<lparr>read_file = (\<lambda>path. Inr [1]), load_key_pair = (\<lambda>cert key. Inr 7),
     certs_from_pem = (\<lambda>pem. Some 9), generate_key = (\<lambda>bits. Inr ()), random_below = (\<lambda>n. Inr 5),
     wall_clock = (\<lambda>i. 0), create_certificate = (\<lambda>t k. Inr [2]), key_pair_from_der = (\<lambda>der k. Inr 8)\<rparr>"

lemmas tls_examples = example_tls_env_def client_tls_config_def server_tls_config_def load_cert_pool_def
  generate_self_signed_tls_config_def zero_tls_config_def

text \<open>
  (C38) Whatever the files hold, a TLS configuration that is used has TLS 1.3 and the
  program's ALPN.  A client verifies the server exactly when a CA file is configured, against
  the pool loaded from it; a server demands a client certificate from the configured pool
  exactly when a client CA file is configured, and has exactly one certificate of its own; on
  both sides a certificate file without its key, or the reverse, is refused.
\<close>

theorem tls_configurations_guarantee:
  "(\<forall>cfg. client_tls_config te caFile serverName certFile keyFile = Inr cfg \<longrightarrow>
     MinVersion cfg = VersionTLS13 \<and> NextProtos cfg = [mvpQUICALPN] \<and> ServerName cfg = serverName \<and>
     (InsecureSkipVerify cfg \<longleftrightarrow> caFile = '''') \<and>
     (caFile \<noteq> '''' \<longrightarrow> (\<exists>pem pool. read_file te caFile = Inr pem \<and> certs_from_pem te pem = Some pool \<and>
        RootCAs cfg = Some pool)) \<and>
     (certFile = '''' \<longleftrightarrow> keyFile = '''') \<and> (certFile = '''' \<longleftrightarrow> Certificates cfg = [])) \<and>
   (\<forall>cfg. server_tls_config te certFile keyFile caFile = Inr cfg \<longrightarrow>
     MinVersion cfg = VersionTLS13 \<and> NextProtos cfg = [mvpQUICALPN] \<and> length (Certificates cfg) = 1 \<and>
     (ClientAuth cfg = RequireAndVerifyClientCert \<longleftrightarrow> caFile \<noteq> '''') \<and>
     (caFile \<noteq> '''' \<longrightarrow> (\<exists>pem pool. read_file te caFile = Inr pem \<and> certs_from_pem te pem = Some pool \<and>
        ClientCAs cfg = Some pool)) \<and>
     (certFile = '''' \<longleftrightarrow> keyFile = ''''))"
proof (intro conjI allI impI, goal_cases)
  case (7 cfg)
  note c = client_tls_guarantees [OF this]
  show ?case using c by (cases "certFile = ''''") auto
qed (use client_tls_guarantees server_tls_guarantees in blast)+

theorem tls_configurations_guarantee_witness:
  "\<exists>c s. client_tls_config example_tls_env ''ca'' ''name'' ''c'' ''k'' = Inr c \<and>
     server_tls_config example_tls_env ''c'' ''k'' ''ca'' = Inr s \<and>
     \<not> InsecureSkipVerify c \<and> RootCAs c = Some 9 \<and> ClientAuth s = RequireAndVerifyClientCert"
proof -
  obtain c where c: "client_tls_config example_tls_env ''ca'' ''name'' ''c'' ''k'' = Inr c"
    by (simp add: tls_examples)
  obtain s where s: "server_tls_config example_tls_env ''c'' ''k'' ''ca'' = Inr s"
    by (simp add: tls_examples Let_def)
  from tls_configurations_guarantee [of example_tls_env "''ca''" "''name''" "''c''" "''k''"] c s
  show ?thesis by (simp add: example_tls_env_def)
qed

end
