(* ===== verification/Client_Run.thy ===== *)
theory Client_Run
  imports Client_System Client_Dial Tls_Config Tun_Device
begin

text \<open>
  Starting and ending the TUN client: \<open>RunTUNClient\<close> and \<open>pumpTUN\<close> of
  \<open>internal/quictransport/client.go\<close>.  The goroutines that \<open>pumpTUN\<close> starts are data
  here; what they do until its \<open>select\<close> wakes up is the argument \<open>run\<close>, an arbitrary
  function of what was started (their code is in the theories on sending, receiving and
  redialling, their interleaving in the theory of the running client).  The final log line
  and the periodic statistics are left out.
\<close>

section \<open>\<open>pumpTUN\<close>\<close>

datatype goroutine =
    CloseDeviceWhenDone
  | ReceivePath client_path
  | ReconnectPath client_path_spec duration duration
  | SendTUN

record reconnect_config =
  rc_specs :: "client_path_spec list"
  rc_min :: duration
  rc_max :: duration

record pump_start =
  ps_capacity :: nat          \<comment> \<open>of the error channel\<close>
  ps_set :: client_path_set
  ps_goroutines :: "goroutine list"

definition pump_tun_start :: "client_path list \<Rightarrow> reconnect_config option \<Rightarrow> pump_start" where
  "pump_tun_start paths reconnect =
     \<lparr>ps_capacity = max_tun_client_errors paths (map_option rc_specs reconnect) + 1,
      ps_set = new_client_path_set paths,
      ps_goroutines = [CloseDeviceWhenDone] @ map ReceivePath paths @
        (case reconnect of
           None \<Rightarrow> []
         | Some rc \<Rightarrow> map (\<lambda>spec. ReconnectPath spec (rc_min rc) (rc_max rc)) (rc_specs rc)) @
        [SendTUN]\<rparr>"

datatype pump_wake = ContextEnded ext_error | ErrorReported ext_error

fun wake_error :: "pump_wake \<Rightarrow> ext_error" where
  "wake_error (ContextEnded err) = err"
| "wake_error (ErrorReported err) = err"

type_synonym pump_run = "pump_start \<Rightarrow> client_state \<Rightarrow> pump_wake \<times> client_state"

definition pump_tun ::
  "pump_run \<Rightarrow> client_path list \<Rightarrow> reconnect_config option \<Rightarrow> client_state \<Rightarrow> ext_error \<times> client_state" where
  \<comment> \<open>the deferred function closes the paths that are in the set at the end\<close>
  "pump_tun run paths reconnect s =
     (let start = pump_tun_start paths reconnect
      in case run start (s\<lparr>cs_paths := ps_set start\<rparr>) of
           (wake, s) \<Rightarrow> (wake_error wake, close_client_paths (cps_snapshot (cs_paths s)) s))"

section \<open>\<open>RunTUNClient\<close>\<close>

record tun_client_config =
  tcServer0 :: string
  tcServer1 :: string
  tcCAFile :: string
  tcServerName :: string
  tcClientCertFile :: string
  tcClientKeyFile :: string
  tcAllowedCIDR :: string
  tcDeviceName :: string
  tcStatsInterval :: duration
  tcStatsJSON :: bool
  tcReconnectMin :: duration
  tcReconnectMax :: duration

datatype tun_client_error =
    NoTunServerAddress | BadIntervals interval_error | BadPolicy policy_error
  | TunNotOpened tun_error | TunTLSFailed tls_error | PumpEnded ext_error

definition run_tun_client ::
  "env \<Rightarrow> ('k, 'c, 'p) tls_env \<Rightarrow> unix_env \<Rightarrow> (packet_policy \<Rightarrow> pump_run) \<Rightarrow> tun_client_config \<Rightarrow>
   client_state \<Rightarrow> tun_client_error \<times> client_state" where
  "run_tun_client env te ue run cfg s =
     (if tcServer0 cfg = '''' \<and> tcServer1 cfg = '''' then (NoTunServerAddress, s)
      else case normalize_tun_reconnect_intervals (tcReconnectMin cfg) (tcReconnectMax cfg) of
        Inl err \<Rightarrow> (BadIntervals err, s)
      | Inr (reconnectMin, reconnectMax) \<Rightarrow>
     (case new_packet_policy (tcAllowedCIDR cfg) of
        Inl err \<Rightarrow> (BadPolicy err, s)
      | Inr policy \<Rightarrow>
     (case open_tun ue (tcDeviceName cfg) of
        (Inl err, calls) \<Rightarrow> (TunNotOpened err, emit_fds calls s)
      | (Inr device, calls) \<Rightarrow>
     (let s = emit_fds calls s in
      case client_tls_config te (tcCAFile cfg) (tcServerName cfg) (tcClientCertFile cfg) (tcClientKeyFile cfg) of
        Inl err \<Rightarrow> (TunTLSFailed err, emit DeviceClose s)
      | Inr tlsConfig \<Rightarrow>
     (let pathSpecs = client_path_specs (tcServer0 cfg) (tcServer1 cfg);
          (paths, s) = dial_available_client_paths env [] pathSpecs s;
          reconnect = \<lparr>rc_specs = pathSpecs, rc_min = reconnectMin, rc_max = reconnectMax\<rparr>;
          (err, s) = pump_tun (run policy) paths (Some reconnect) s
      in (PumpEnded err, emit DeviceClose s))))))"

section \<open>What is started, and what is left\<close>


lemma started_system:
  assumes "pump_tun_start paths reconnect = start"
  shows "cy_set (start_system paths) = ps_set start"
    "cy_receivers (start_system paths) = concat (map (\<lambda>g. case g of ReceivePath p \<Rightarrow> [p] | _ \<Rightarrow> []) (ps_goroutines start))"
proof -
  have "concat (map (\<lambda>g. case g of ReceivePath p \<Rightarrow> [p] | _ \<Rightarrow> []) (map ReceivePath paths)) = paths"
    by (induction paths) auto
  moreover have "concat (map (\<lambda>g. case g of ReceivePath p \<Rightarrow> [p] | _ \<Rightarrow> []) (map (\<lambda>spec. ReconnectPath spec a b) specs)) = []"
    for specs a b by (induction specs) auto
  ultimately show "cy_set (start_system paths) = ps_set start"
    "cy_receivers (start_system paths) = concat (map (\<lambda>g. case g of ReceivePath p \<Rightarrow> [p] | _ \<Rightarrow> []) (ps_goroutines start))"
    using assms by (auto simp: pump_tun_start_def start_system_def split: option.split)
qed

lemma close_paths_trace:
  "\<exists>tr. io_trace (close_client_paths ps s) = io_trace s @ tr \<and>
     (\<forall>p \<in> set ps. StreamClose (cp_stream p) \<in> set tr)"
proof (induction ps arbitrary: s)
  case (Cons p ps)
  obtain tr where tr: "io_trace (close_client_paths ps (close_client_path p s)) = io_trace (close_client_path p s) @ tr"
    "\<forall>p \<in> set ps. StreamClose (cp_stream p) \<in> set tr"
    using Cons by blast
  moreover obtain tr' where "io_trace (close_client_path p s) = io_trace s @ tr'" "StreamClose (cp_stream p) \<in> set tr'"
    by (cases "cp_conn p") (auto simp: close_client_path_def Let_def)
  ultimately show ?case by (intro exI [of _ "tr' @ tr"]) auto
qed simp

definition run_only_appends :: "pump_run \<Rightarrow> bool" where
  "run_only_appends run \<longleftrightarrow> (\<forall>start s. extends s (snd (run start s)))"

lemma pump_tun_trace:
  assumes "run_only_appends run" "pump_tun run paths reconnect s = (err, s')"
  obtains wake s1 tr where "run (pump_tun_start paths reconnect) (s\<lparr>cs_paths := new_client_path_set paths\<rparr>) = (wake, s1)"
    "err = wake_error wake" "extends s s1" "io_trace s' = io_trace s1 @ tr"
    "\<forall>p \<in> set (cps_paths (cs_paths s1)). StreamClose (cp_stream p) \<in> set tr"
proof -
  obtain wake s1 where run: "run (pump_tun_start paths reconnect) (s\<lparr>cs_paths := new_client_path_set paths\<rparr>) = (wake, s1)"
    by fastforce
  then have "extends (s\<lparr>cs_paths := new_client_path_set paths\<rparr>) s1"
    using assms(1) by (metis run_only_appends_def snd_conv)
  then have ext: "extends s s1" by (simp add: extends_def)
  have res: "err = wake_error wake" "s' = close_client_paths (cps_snapshot (cs_paths s1)) s1"
    using assms(2) run by (simp_all add: pump_tun_def pump_tun_start_def Let_def)
  from close_paths_trace [of "cps_paths (cs_paths s1)" s1] obtain tr where
    "io_trace s' = io_trace s1 @ tr" "\<forall>p \<in> set (cps_paths (cs_paths s1)). StreamClose (cp_stream p) \<in> set tr"
    unfolding res cps_snapshot_def by blast
  with that [OF run res(1) ext] show ?thesis by blast
qed

lemma opened_client_closes:
  assumes "run_only_appends (run pol)" "run_tun_client env te ue run cfg s = (err, s')"
    and cfg: "\<not> (tcServer0 cfg = '''' \<and> tcServer1 cfg = '''')"
      "normalize_tun_reconnect_intervals (tcReconnectMin cfg) (tcReconnectMax cfg) = Inr iv"
      "new_packet_policy (tcAllowedCIDR cfg) = Inr pol" "open_tun ue (tcDeviceName cfg) = (Inr device, calls)"
  shows "\<exists>tr. io_trace s' = io_trace s @ DeviceFd (FdOpen (td_file device)) # tr @ [DeviceClose]"
proof -
  have calls: "calls = [FdOpen (td_file device)]"
    using cfg(4) by (auto simp: open_tun_def Let_def split: sum.splits if_splits)
  show ?thesis
proof (cases "client_tls_config te (tcCAFile cfg) (tcServerName cfg) (tcClientCertFile cfg) (tcClientKeyFile cfg)")
  case (Inl e)
  with assms(2) cfg calls have "s' = emit DeviceClose (emit_fds [FdOpen (td_file device)] s)"
    by (auto simp: run_tun_client_def Let_def split: prod.splits)
  then show ?thesis by simp
next
  case (Inr tls)
  let ?s = "emit_fds [FdOpen (td_file device)] s" and ?specs = "client_path_specs (tcServer0 cfg) (tcServer1 cfg)"
  obtain paths s1 where d: "dial_available_client_paths env [] ?specs ?s = (paths, s1)" by fastforce
  let ?rc = "\<lparr>rc_specs = ?specs, rc_min = fst iv, rc_max = snd iv\<rparr>"
  obtain e s2 where p: "pump_tun (run pol) paths (Some ?rc) s1 = (e, s2)" by fastforce
  have "s' = emit DeviceClose s2"
    using assms(2) cfg calls Inr d p by (auto simp: run_tun_client_def Let_def split: prod.splits)
  moreover have "extends ?s s1"
    using dial_available_spec [OF d, of "[]"] by (auto simp: no_leak_def extends_def)
  moreover have "extends s1 s2"
    using pump_tun_trace [OF assms(1) p] by (metis extends_def append.assoc)
  ultimately show ?thesis by (auto simp: extends_def)
qed
qed

lemma failed_open_closes:
  "fst (open_tun ue name) = Inl e \<Longrightarrow>
   snd (open_tun ue name) = [] \<or> (\<exists>fd. snd (open_tun ue name) = [FdOpen fd, FdClose fd])"
  by (auto simp: open_tun_def Let_def split: sum.splits if_splits)

section \<open>Properties\<close>

text \<open>
  (C28) \<open>RunTUNClient\<close> checks its configuration before it touches anything: a missing
  address, a bad interval or a bad policy is returned with no effect at all, in this order
  of precedence.  Then it opens the device; if this fails, nothing else happens, and a
  descriptor that was opened on the way is closed again.  In every other case opening the
  device's descriptor is the first thing done and closing the device the last, whatever
  went on in between.
\<close>
theorem tun_client_checks_then_cleans_up:
  assumes "\<forall>pol. run_only_appends (run pol)" "run_tun_client env te ue run cfg s = (err, s')"
  shows "if tcServer0 cfg = '''' \<and> tcServer1 cfg = '''' then err = NoTunServerAddress \<and> s' = s
    else case normalize_tun_reconnect_intervals (tcReconnectMin cfg) (tcReconnectMax cfg) of
      Inl e \<Rightarrow> err = BadIntervals e \<and> s' = s
    | Inr _ \<Rightarrow> (case new_packet_policy (tcAllowedCIDR cfg) of
        Inl e \<Rightarrow> err = BadPolicy e \<and> s' = s
      | Inr _ \<Rightarrow> (case fst (open_tun ue (tcDeviceName cfg)) of
          Inl e \<Rightarrow> err = TunNotOpened e \<and>
            (s' = s \<or> (\<exists>fd. s' = emit_fds [FdOpen fd, FdClose fd] s))
        | Inr d \<Rightarrow> \<exists>tr. io_trace s' = io_trace s @ DeviceFd (FdOpen (td_file d)) # tr @ [DeviceClose]))"
proof (cases "tcServer0 cfg = '''' \<and> tcServer1 cfg = ''''")
  case False
  note cfg = this
  show ?thesis
  proof (cases "normalize_tun_reconnect_intervals (tcReconnectMin cfg) (tcReconnectMax cfg)")
    case (Inr iv)
    note iv = this
    show ?thesis
    proof (cases "new_packet_policy (tcAllowedCIDR cfg)")
      case (Inr pol)
      note pol = this
      obtain r calls where o: "open_tun ue (tcDeviceName cfg) = (r, calls)" by fastforce
      show ?thesis
      proof (cases r)
        case (Inr device)
        with o have "open_tun ue (tcDeviceName cfg) = (Inr device, calls)" by simp
        from opened_client_closes [OF assms(1) [rule_format] assms(2) cfg iv pol this] cfg iv pol this
        show ?thesis by (auto split: prod.split)
      next
        case (Inl e)
        then have "s' = emit_fds calls s \<and> err = TunNotOpened e"
          using assms(2) cfg iv pol o by (auto simp: run_tun_client_def split: prod.splits)
        moreover have "calls = [] \<or> (\<exists>fd. calls = [FdOpen fd, FdClose fd])"
          using failed_open_closes [of ue "tcDeviceName cfg" e] o Inl by simp
        ultimately show ?thesis using cfg iv pol o Inl by (auto split: prod.split)
      qed
    qed (use assms(2) cfg iv in \<open>auto simp: run_tun_client_def split: prod.splits\<close>)
  qed (use assms(2) cfg in \<open>auto simp: run_tun_client_def\<close>)
qed (use assms(2) in \<open>auto simp: run_tun_client_def\<close>)

lemma error_channel_has_room:
  \<comment> \<open>for the sender and the receivers of the initial paths, which report at most once each\<close>
  "length (filter (\<lambda>g. g = SendTUN \<or> (\<exists>p. g = ReceivePath p)) (ps_goroutines (pump_tun_start paths reconnect)))
     \<le> ps_capacity (pump_tun_start paths reconnect)"
proof -
  have "length (filter (\<lambda>g. g = SendTUN \<or> (\<exists>p. g = ReceivePath p)) (map ReceivePath paths)) = length paths"
    by (induction paths) auto
  moreover have "filter (\<lambda>g. g = SendTUN \<or> (\<exists>p. g = ReceivePath p)) (map (\<lambda>spec. ReconnectPath spec a b) specs) = []"
    for specs a b by (induction specs) auto
  ultimately show ?thesis
    by (auto simp: pump_tun_start_def max_tun_client_errors_def split: option.split)
qed

definition plain_tun_config :: tun_client_config where
  "plain_tun_config = \<lparr>tcServer0 = ''a:1'', tcServer1 = '''', tcCAFile = '''', tcServerName = '''',
     tcClientCertFile = '''', tcClientKeyFile = '''', tcAllowedCIDR = '''', tcDeviceName = ''tun10'',
     tcStatsInterval = 0, tcStatsJSON = False, tcReconnectMin = 0, tcReconnectMax = 0\<rparr>"

definition tun_refused :: unix_env where
  \<comment> \<open>the interface request fails\<close>
  "tun_refused = plain_unix\<lparr>ioctl_ifreq := (\<lambda>_ _. Inl unexpected_eof)\<rparr>"

theorem tun_client_checks_then_cleans_up_witness:
  "(\<exists>tr. io_trace (snd (run_tun_client calm_env example_tls_env plain_unix
       (\<lambda>pol start s. (ContextEnded io_eof, s)) plain_tun_config (two_paths []))) =
     DeviceFd (FdOpen 3) # tr @ [DeviceClose]) \<and>
   (\<exists>e. fst (run_tun_client calm_env example_tls_env tun_refused
       (\<lambda>pol start s. (ContextEnded io_eof, s)) plain_tun_config (two_paths [])) = TunNotOpened e)"
proof -
  let ?run = "\<lambda>pol start s. (ContextEnded io_eof, s)"
  have run: "\<forall>pol. run_only_appends (?run pol)" by (simp add: run_only_appends_def)
  obtain iv where iv: "normalize_tun_reconnect_intervals 0 0 = Inr iv"
    by (simp add: normalize_tun_reconnect_intervals_def DefaultTUNReconnectMinInterval_def
        DefaultTUNReconnectMaxInterval_def)
  obtain d where d: "fst (open_tun plain_unix ''tun10'') = Inr d" "td_file d = 3"
    by (simp add: open_tun_def plain_unix_def Let_def)
  obtain e where e: "fst (open_tun tun_refused ''tun10'') = Inl e"
    by (simp add: open_tun_def plain_unix_def tun_refused_def Let_def)
  have cfg: "tcServer0 plain_tun_config \<noteq> ''''" "tcReconnectMin plain_tun_config = 0"
    "tcReconnectMax plain_tun_config = 0" "tcAllowedCIDR plain_tun_config = ''''"
    "tcDeviceName plain_tun_config = ''tun10''"
    by (simp_all add: plain_tun_config_def)
  have pol: "new_packet_policy '''' = Inr \<lparr>allowedCIDR = None\<rparr>" by (simp add: new_packet_policy_def)
  note checks = tun_client_checks_then_cleans_up [OF run surjective_pairing, where env = calm_env
      and te = example_tls_env and cfg = plain_tun_config and s = "two_paths []"]
  have "\<exists>tr. io_trace (snd (run_tun_client calm_env example_tls_env plain_unix ?run plain_tun_config (two_paths []))) =
     DeviceFd (FdOpen 3) # tr @ [DeviceClose]"
    using checks [of plain_unix] by (simp add: cfg iv pol d two_paths_def)
  moreover have "fst (run_tun_client calm_env example_tls_env tun_refused ?run plain_tun_config (two_paths [])) = TunNotOpened e"
    using checks [of tun_refused] by (simp add: cfg iv pol e)
  ultimately show ?thesis by blast
qed

end
