(* ===== verification/Echo_Server.thy ===== *)
theory Echo_Server
  imports Transport
begin

text \<open>
  The demo mode of the server, \<open>handleQUICStream\<close> and \<open>handleQUICConnection\<close> of
  \<open>internal/quictransport/server.go\<close>: every frame of a stream is answered if it is an
  echo request to the virtual address, and dropped otherwise.
\<close>

section \<open>The handlers\<close>

function handle_quic_stream ::
  "env \<Rightarrow> nat \<Rightarrow> ip \<Rightarrow> ip \<Rightarrow> reader \<Rightarrow> 'z io_state_scheme \<Rightarrow> 'z io_state_scheme" where
  "handle_quic_stream env stream virtualIP clientIP r s =
     (case read_frame r of
        (Inl err, r') \<Rightarrow>
          let s = emit (StreamRead stream) s
          in if \<not> is_graceful_stream_end err then count_op add_error s else s
      | (Inr rawPacket, r') \<Rightarrow>
          let s = emit (StreamRead stream) s;
              s = count_op (add_rx (int (length rawPacket))) s
          in case build_icmp_echo_reply rawPacket virtualIP clientIP of
               Inl err \<Rightarrow> handle_quic_stream env stream virtualIP clientIP r' (count_op add_drop s)
             | Inr reply \<Rightarrow>
                 (case write_frame_to env stream reply s of
                    (s, Some err) \<Rightarrow> count_op add_error s
                  | (s, None) \<Rightarrow>
                      handle_quic_stream env stream virtualIP clientIP r'
                        (count_op (add_tx (int (length reply))) s)))"
  by pat_completeness auto
termination
  by (relation "measure (\<lambda>(env, stream, v, c, r, s). length (content r))")
    (auto intro: frames.dec_shrinks dest: sym)

declare handle_quic_stream.simps [simp del]

definition handle_quic_connection ::
  "env \<Rightarrow> nat \<Rightarrow> ext_error + nat \<times> reader \<Rightarrow> ip \<Rightarrow> ip \<Rightarrow> 'z io_state_scheme \<Rightarrow> 'z io_state_scheme" where
  \<comment> \<open>\<open>answer\<close> is what \<open>conn.AcceptStream\<close> returns, with what the stream will deliver\<close>
  "handle_quic_connection env conn answer virtualIP clientIP s =
     (case answer of
        Inl err \<Rightarrow>
          let s = (if is_done env s then s else count_op add_error s) in emit (ConnClose conn) s
      | Inr (stream, r) \<Rightarrow>
          let s = handle_quic_stream env stream virtualIP clientIP r s;
              s = emit (StreamClose stream) s
          in emit (ConnClose conn) s)"

section \<open>What a stream is answered\<close>

definition stream_accepts :: "env \<Rightarrow> nat \<Rightarrow> bool" where
  "stream_accepts env st \<longleftrightarrow> (\<forall>tr bs. stream_write env tr st bs = None)"

lemma write_frame_to_accepting:
  assumes "stream_accepts env st" "frame_ok p"
  shows "write_frame_to env st p s =
    (emit (StreamWrite st p None) (emit (StreamWrite st (be32 (of_nat (length p))) None) s), None)"
  using assms
  by (auto simp: write_frame_to_def write_frame_eq stream_writer_def stream_accepts_def frame_ok_def
      Let_def emit_def)

fun echo_replies :: "ip \<Rightarrow> ip \<Rightarrow> bytes list \<Rightarrow> bytes list" where
  \<comment> \<open>the replies to those packets that get one\<close>
  "echo_replies v c [] = []"
| "echo_replies v c (p # ps) =
     (case build_icmp_echo_reply p v c of
        Inl err \<Rightarrow> echo_replies v c ps
      | Inr reply \<Rightarrow> reply # echo_replies v c ps)"

lemma reply_frame_ok:
  assumes "build_icmp_echo_reply p v c = Inr reply"
  shows "frame_ok reply"
proof -
  obtain v4 c4 q m where m: "to4 v = Some v4" "to4 c = Some c4" "parse_ipv4_packet p = Inr q"
    "parse_icmp_packet (Payload q) = Inr m"
    "build_ipv4_icmp_packet v4 c4 (echo_message 0 (Identifier m) (Sequence m) (Data m)) = Inr reply"
    using assms by (auto simp: build_reply_iff)
  have "length v4 = 4" "length c4 = 4" using m(1,2) by (auto dest: length_to4)
  moreover have "20 + (8 + length (Data m)) \<le> 65535" by (rule reply_fits [OF m(3,4)])
  ultimately have "reply = packet_with v4 c4 (echo_message 0 (Identifier m) (Sequence m) (Data m))"
    using build_packet_with [of v4 v4 c4 c4 "echo_message 0 (Identifier m) (Sequence m) (Data m)"] m(5)
    by simp
  then have "length reply = 28 + length (Data m)"
    using \<open>length v4 = 4\<close> \<open>length c4 = 4\<close> by (simp add: length_packet_with)
  then show ?thesis
    using \<open>20 + (8 + length (Data m)) \<le> 65535\<close> by (auto simp: frame_ok_def MaxFrameSize_def)
qed

lemma replies_frame_ok: "list_all frame_ok (echo_replies v c ps)"
  by (induction ps) (auto simp: reply_frame_ok split: sum.splits)

lemma length_replies: "length (echo_replies v c ps) \<le> length ps"
  by (induction ps) (auto split: sum.splits)

lemma handle_quic_stream_accepting:
  assumes "stream_accepts env st"
  shows "wire st (io_trace (handle_quic_stream env st v c r s)) =
      wire st (io_trace s) @ concat (map frame_bytes (echo_replies v c (fst (read_frames r)))) \<and>
    rxPackets (io_ctrs (handle_quic_stream env st v c r s)) =
      rxPackets (io_ctrs s) + of_nat (length (fst (read_frames r))) \<and>
    txPackets (io_ctrs (handle_quic_stream env st v c r s)) =
      txPackets (io_ctrs s) + of_nat (length (echo_replies v c (fst (read_frames r)))) \<and>
    handled (io_ctrs (handle_quic_stream env st v c r s)) =
      handled (io_ctrs s) + of_nat (length (fst (read_frames r))) \<and>
    errors (io_ctrs (handle_quic_stream env st v c r s)) =
      errors (io_ctrs s) + (if is_graceful_stream_end (snd (read_frames r)) then 0 else 1)"
proof (induction "length (content r)" arbitrary: r s rule: less_induct)
  case less
  obtain x r' where rd: "read_frame r = (x, r')" by fastforce
  show ?case
  proof (cases x)
    case (Inl err)
    with rd show ?thesis by (simp add: handle_quic_stream.simps [of env st v c r] read_frames_step)
  next
    case (Inr p)
    with rd have rd: "read_frame r = (Inr p, r')" by simp
    then have "length (content r') < length (content r)" by (rule frames.dec_shrinks)
    note IH = less.hyps [OF this]
    show ?thesis
    proof (cases "build_icmp_echo_reply p v c")
      case (Inl err)
      with rd IH show ?thesis
        by (simp add: handle_quic_stream.simps [of env st v c r] read_frames_step)
    next
      case (Inr reply)
      with rd IH show ?thesis
        by (simp add: handle_quic_stream.simps [of env st v c r] read_frames_step frame_bytes_def
            write_frame_to_accepting [OF assms reply_frame_ok [OF Inr]])
    qed
  qed
qed

section \<open>Properties\<close>

text \<open>
  (C24) The demo server answers a stream packet by packet: on a stream that accepts writes
  it puts exactly the frames of the replies, one for each packet that is an echo request
  to the virtual address and in the order of the requests; every packet counts as received
  and once as sent or dropped, and an error is counted only when the stream does not end
  gracefully.
\<close>

theorem echo_server_answers_in_order:
  assumes "stream_accepts env st"
  shows "wire st (io_trace (handle_quic_stream env st v c r s)) =
      wire st (io_trace s) @ concat (map frame_bytes (echo_replies v c (fst (read_frames r)))) \<and>
    rxPackets (io_ctrs (handle_quic_stream env st v c r s)) =
      rxPackets (io_ctrs s) + of_nat (length (fst (read_frames r))) \<and>
    txPackets (io_ctrs (handle_quic_stream env st v c r s)) =
      txPackets (io_ctrs s) + of_nat (length (echo_replies v c (fst (read_frames r)))) \<and>
    txPackets (io_ctrs (handle_quic_stream env st v c r s)) +
        droppedPackets (io_ctrs (handle_quic_stream env st v c r s)) =
      txPackets (io_ctrs s) + droppedPackets (io_ctrs s) + of_nat (length (fst (read_frames r))) \<and>
    errors (io_ctrs (handle_quic_stream env st v c r s)) =
      errors (io_ctrs s) + (if is_graceful_stream_end (snd (read_frames r)) then 0 else 1)"
  using handle_quic_stream_accepting [OF assms] unfolding handled_def by blast

theorem echo_server_answers_in_order_witness:
  \<comment> \<open>two packets, cut into other chunks; the first is no IPv4 packet, the second a request\<close>
  "\<exists>request reply r s'. build_icmp_echo_request [10, 8, 0, 2] [10, 8, 0, 1] 1 7 [5] = Inr request \<and>
     build_icmp_echo_reply request [10, 8, 0, 1] [10, 8, 0, 2] = Inr reply \<and>
     chunks r = [[0, 0], [0, 1, 69] @ frame_bytes request] \<and>
     s' = handle_quic_stream calm_env 3 [10, 8, 0, 1] [10, 8, 0, 2] r \<lparr>io_trace = [], io_ctrs = zero_counters\<rparr> \<and>
     wire 3 (io_trace s') = frame_bytes reply \<and> txPackets (io_ctrs s') = 1 \<and> droppedPackets (io_ctrs s') = 1"
proof -
  define request where "request = packet_with [10, 8, 0, 2] [10, 8, 0, 1] (echo_message 8 1 7 [5])"
  define reply where "reply = packet_with [10, 8, 0, 1] [10, 8, 0, 2] (echo_message 0 1 7 [5])"
  have built: "build_icmp_echo_request [10, 8, 0, 2] [10, 8, 0, 1] 1 7 [5] = Inr request"
    "build_icmp_echo_reply request [10, 8, 0, 1] [10, 8, 0, 2] = Inr reply"
    using exchange_built [of "[10, 8, 0, 2]" _ "[10, 8, 0, 1]" _ "[5]" 1 7]
    by (simp_all add: request_def reply_def)
  let ?r = "\<lparr>chunks = [[0, 0], [0, 1, 69] @ frame_bytes request], end_err = io_eof, eager = False\<rparr>"
  let ?s = "\<lparr>io_trace = [], io_ctrs = zero_counters\<rparr>"
  let ?s' = "handle_quic_stream calm_env 3 [10, 8, 0, 1] [10, 8, 0, 2] ?r ?s"
  have "length request = 29" by (simp add: request_def length_packet_with)
  then have "list_all frame_ok [[69], request]" by (auto simp: frame_ok_def MaxFrameSize_def)
  moreover have "content ?r = concat (map frame_bytes [[69], request])"
    by (simp add: content_def frame_bytes_def [of "[69]"] be32_def)
  ultimately have frames: "fst (read_frames ?r) = [[69], request]" by (simp only: read_frames_exact fst_conv)
  have replies: "echo_replies [10, 8, 0, 1] [10, 8, 0, 2] [[69], request] = [reply]"
    using built(2) by (simp add: build_icmp_echo_reply_def [of "[69]"] parse_ipv4_packet_def packet_consts)
  have accepts: "stream_accepts calm_env 3" by (simp add: stream_accepts_def calm_env_def)
  note answers = echo_server_answers_in_order [OF accepts, of "[10, 8, 0, 1]" "[10, 8, 0, 2]" ?r ?s, unfolded frames replies]
  have out: "wire 3 (io_trace ?s') = frame_bytes reply" "txPackets (io_ctrs ?s') = 1"
    using answers by (simp_all add: zero_counters_def)
  have "txPackets (io_ctrs ?s') + droppedPackets (io_ctrs ?s') = 2"
    using answers [THEN conjunct2, THEN conjunct2, THEN conjunct2, THEN conjunct1] by (simp add: zero_counters_def)
  with out(2) have "droppedPackets (io_ctrs ?s') = 2 - 1" by (metis add_diff_cancel_left')
  with built out show ?thesis
    by - (rule exI [of _ request], rule exI [of _ reply], rule exI [of _ ?r], rule exI [of _ ?s'], simp)
qed

end
