(* ===== verification/Echo_Client.thy ===== *)
theory Echo_Client
  imports Echo_Server Client_Dial Tls_Config
begin

text \<open>
  The demo client, \<open>RunClient\<close> of \<open>internal/quictransport/client.go\<close>: it sends echo
  requests over its paths in turn, waits for each reply and validates it.
\<close>

section \<open>Validation of a reply\<close>

datatype reply_error =
    ReplyTooShort | InvalidIPv4Checksum "16 word" | ReplyInvalid packet_error
  | SourceMismatch ip ip | ClientMismatch ip ip | InvalidICMPChecksum "16 word"
  | NotEchoReply byte | CodeNotZero byte | IdentifierMismatch "16 word" "16 word"
  | SequenceMismatch "16 word" "16 word" | PayloadMismatch bytes bytes

definition validate_echo_reply ::
  "bytes \<Rightarrow> ip \<Rightarrow> ip \<Rightarrow> 16 word \<Rightarrow> 16 word \<Rightarrow> bytes \<Rightarrow> reply_error option" where
  "validate_echo_reply reply virtualIP clientIP identifier sequence payload =
     (if length reply < 20 then Some ReplyTooShort
      else let got = checksum (subslice reply 0 20) in
      if got \<noteq> 0 then Some (InvalidIPv4Checksum got)
      else case parse_ipv4_packet reply of
        Inl err \<Rightarrow> Some (ReplyInvalid err)
      | Inr ipPacket \<Rightarrow>
      if \<not> ip_equal (SourceIP ipPacket) virtualIP
      then Some (SourceMismatch (SourceIP ipPacket) virtualIP)
      else if \<not> ip_equal (DestinationIP ipPacket) clientIP
      then Some (ClientMismatch (DestinationIP ipPacket) clientIP)
      else let got = checksum (Payload ipPacket) in
      if got \<noteq> 0 then Some (InvalidICMPChecksum got)
      else case parse_icmp_packet (Payload ipPacket) of
        Inl err \<Rightarrow> Some (ReplyInvalid err)
      | Inr icmpPacket \<Rightarrow>
      if Type icmpPacket \<noteq> ICMPTypeEchoReply then Some (NotEchoReply (Type icmpPacket))
      else if Code icmpPacket \<noteq> 0 then Some (CodeNotZero (Code icmpPacket))
      else if Identifier icmpPacket \<noteq> identifier
      then Some (IdentifierMismatch (Identifier icmpPacket) identifier)
      else if Sequence icmpPacket \<noteq> sequence
      then Some (SequenceMismatch (Sequence icmpPacket) sequence)
      else if Data icmpPacket \<noteq> payload then Some (PayloadMismatch (Data icmpPacket) payload)
      else None)"

section \<open>The request loop\<close>

record client_config =
  Server0 :: string
  Server1 :: string
  CAFile :: string
  TLSServerName :: string
  ClientCertFile :: string
  ClientKeyFile :: string
  VirtualIP :: ip
  ClientIP :: ip
  EchoIdentifier :: "16 word"
  EchoCount :: int
  EchoPayload :: bytes
  RequestTimeout :: duration
  EchoStatsInterval :: duration
  EchoStatsJSON :: bool
record echo_state = io_state +
  es_readers :: "nat \<Rightarrow> reader"  \<comment> \<open>what each stream will still deliver\<close>

datatype run_error =
    NoServerAddress | VirtualNotIPv4 ip | ClientIPNotIPv4 ip | CountNotPositive int
  | TLSFailed tls_error | DialFailure dial_error | SchedulerFailed scheduler_error
  | BuildFailed packet_error | SetDeadlineFailed int ext_error | WriteRequestFailed int frame_error
  | ReadReplyFailed int frame_error | ValidateFailed int reply_error | ClearDeadlineFailed int ext_error

definition defaultClientRequestTimeout :: duration where
  "defaultClientRequestTimeout = 5 * 1000000000"

definition read_stream :: "nat \<Rightarrow> echo_state \<Rightarrow> (frame_error + bytes) \<times> echo_state" where
  \<comment> \<open>\<open>ReadFrame(path.stream)\<close>\<close>
  "read_stream stream s =
     (case read_frame (es_readers s stream) of
        (res, r) \<Rightarrow> (res, emit (StreamRead stream) (s\<lparr>es_readers := (es_readers s)(stream := r)\<rparr>)))"

fun echo_rounds ::
  "env \<Rightarrow> client_config \<Rightarrow> bytes \<Rightarrow> bytes \<Rightarrow> client_path list \<Rightarrow> nat \<Rightarrow> nat \<Rightarrow> round_robin \<Rightarrow>
   echo_state \<Rightarrow> echo_state \<times> run_error option" where
  \<comment> \<open>the requests still to send, and the index \<open>i\<close> of the next\<close>
  "echo_rounds env cfg clientIPv4 virtualIPv4 paths 0 i scheduler s = (s, None)"
| "echo_rounds env cfg clientIPv4 virtualIPv4 paths (Suc todo) i scheduler s =
     (let (index, scheduler) = next_path_index scheduler;
          path = paths ! nat index;
          sequence = of_nat (i + 1)
      in case build_icmp_echo_request clientIPv4 virtualIPv4 (EchoIdentifier cfg) sequence (EchoPayload cfg) of
           Inl err \<Rightarrow> (s, Some (BuildFailed err))
         | Inr request \<Rightarrow>
        (let (now, s) = go_now env s in
         case set_stream_deadline env (cp_stream path) (Some (now + sint (RequestTimeout cfg))) s of
           (s, Some err) \<Rightarrow> (count_op add_error s, Some (SetDeadlineFailed (cp_id path) err))
         | (s, None) \<Rightarrow>
        (case write_frame_to env (cp_stream path) request s of
           (s, Some err) \<Rightarrow> (count_op add_error s, Some (WriteRequestFailed (cp_id path) err))
         | (s, None) \<Rightarrow>
        (case read_stream (cp_stream path) (count_op (add_tx (int (length request))) s) of
           (Inl err, s) \<Rightarrow> (count_op add_error s, Some (ReadReplyFailed (cp_id path) err))
         | (Inr reply, s) \<Rightarrow>
        (let s = count_op (add_rx (int (length reply))) s in
         case validate_echo_reply reply virtualIPv4 clientIPv4 (EchoIdentifier cfg) sequence (EchoPayload cfg) of
           Some err \<Rightarrow> (count_op add_error s, Some (ValidateFailed (cp_id path) err))
         | None \<Rightarrow>
        (case set_stream_deadline env (cp_stream path) None s of
           (s, Some err) \<Rightarrow> (count_op add_error s, Some (ClearDeadlineFailed (cp_id path) err))
         | (s, None) \<Rightarrow>
             echo_rounds env cfg clientIPv4 virtualIPv4 paths todo (i + 1) scheduler s))))))"

definition run_client ::
  "env \<Rightarrow> ('k, 'c, 'p) tls_env \<Rightarrow> client_config \<Rightarrow> echo_state \<Rightarrow> echo_state \<times> run_error option" where
  "run_client env te cfg s =
     (if Server0 cfg = '''' \<and> Server1 cfg = '''' then (s, Some NoServerAddress)
      else case to4 (VirtualIP cfg) of
        None \<Rightarrow> (s, Some (VirtualNotIPv4 (VirtualIP cfg)))
      | Some virtualIPv4 \<Rightarrow>
     (case to4 (ClientIP cfg) of
        None \<Rightarrow> (s, Some (ClientIPNotIPv4 (ClientIP cfg)))
      | Some clientIPv4 \<Rightarrow>
      if EchoCount cfg \<le> 0 then (s, Some (CountNotPositive (EchoCount cfg)))
      else let cfg = (if sint (RequestTimeout cfg) \<le> 0
                      then cfg\<lparr>RequestTimeout := defaultClientRequestTimeout\<rparr> else cfg) in
      case client_tls_config te (CAFile cfg) (TLSServerName cfg) (ClientCertFile cfg) (ClientKeyFile cfg) of
        Inl err \<Rightarrow> (s, Some (TLSFailed err))
      | Inr tlsConfig \<Rightarrow>
     (case dial_client_paths env (Server0 cfg) (Server1 cfg) s of
        (Inl err, s) \<Rightarrow> (s, Some (DialFailure err))
      | (Inr paths, s) \<Rightarrow>
     (case new_round_robin (int (length paths)) of
        Inl err \<Rightarrow> (close_client_paths paths s, Some (SchedulerFailed err))
      | Inr scheduler \<Rightarrow>
     (case echo_rounds env cfg clientIPv4 virtualIPv4 paths (nat (EchoCount cfg)) 0 scheduler s of
        (s, err) \<Rightarrow> (close_client_paths paths s, err))))))"

section \<open>What validation accepts\<close>

lemma validate_iff:
  assumes "to4 v = Some v4" "to4 c = Some c4"
  shows "validate_echo_reply reply v c i s payload = None \<longleftrightarrow>
    20 \<le> length reply \<and> checksum (take 20 reply) = 0 \<and>
    (\<exists>p m. parse_ipv4_packet reply = Inr p \<and> SourceIP p = v4 \<and> DestinationIP p = c4 \<and>
       checksum (Payload p) = 0 \<and> parse_icmp_packet (Payload p) = Inr m \<and>
       Type m = 0 \<and> Code m = 0 \<and> Identifier m = i \<and> Sequence m = s \<and> Data m = payload)"
proof -
  have eq: "ip_equal (SourceIP p) v \<longleftrightarrow> SourceIP p = v4" "ip_equal (DestinationIP p) c \<longleftrightarrow> DestinationIP p = c4"
    if "parse_ipv4_packet reply = Inr p" for p
    using parsed_lengths(1,2) [OF that] ip_equal_to4 [OF assms(1)] ip_equal_to4 [OF assms(2)] by simp_all
  show ?thesis
    unfolding validate_echo_reply_def packet_consts
    by (auto simp: eq Let_def subslice_def not_less split: sum.splits if_splits)
qed

lemma validate_built_reply:
  assumes "to4 v = Some v4" "to4 c = Some c4" "length payload \<le> 65507"
  shows "validate_echo_reply (packet_with v4 c4 (echo_message 0 i s payload)) v c i s payload = None"
proof -
  have l: "length v4 = 4" "length c4 = 4" using assms by (auto dest: length_to4)
  show ?thesis
    using assms l parse_packet_with [OF l, of "echo_message 0 i s payload"] parse_echo_message [of 0 i s payload]
    by (auto simp: validate_iff length_packet_with packet_with_verifies echo_message_verifies)
qed

definition demo_request :: "client_config \<Rightarrow> bytes \<Rightarrow> bytes \<Rightarrow> nat \<Rightarrow> bytes" where
  \<comment> \<open>the packet of the \<open>k\<close>-th request\<close>
  "demo_request cfg c4 v4 k =
     packet_with c4 v4 (echo_message 8 (EchoIdentifier cfg) (of_nat (k + 1)) (EchoPayload cfg))"

definition demo_reply :: "client_config \<Rightarrow> bytes \<Rightarrow> bytes \<Rightarrow> nat \<Rightarrow> bytes" where
  "demo_reply cfg c4 v4 k =
     packet_with v4 c4 (echo_message 0 (EchoIdentifier cfg) (of_nat (k + 1)) (EchoPayload cfg))"

definition demo_ok :: "client_config \<Rightarrow> bytes \<Rightarrow> bytes \<Rightarrow> bool" where
  "demo_ok cfg c4 v4 \<longleftrightarrow> length c4 = 4 \<and> length v4 = 4 \<and> length (EchoPayload cfg) \<le> 65507"

lemma demo_frames_ok:
  assumes "demo_ok cfg c4 v4"
  shows "frame_ok (demo_request cfg c4 v4 k)" "frame_ok (demo_reply cfg c4 v4 k)"
proof -
  have "length (demo_request cfg c4 v4 k) = 28 + length (EchoPayload cfg)"
    "length (demo_reply cfg c4 v4 k) = 28 + length (EchoPayload cfg)"
    using assms by (simp_all add: demo_request_def demo_reply_def demo_ok_def length_packet_with)
  then show "frame_ok (demo_request cfg c4 v4 k)" "frame_ok (demo_reply cfg c4 v4 k)"
    using assms by (auto simp: frame_ok_def demo_ok_def MaxFrameSize_def)
qed

lemma demo_exchange:
  assumes "demo_ok cfg c4 v4"
  shows "build_icmp_echo_request c4 v4 (EchoIdentifier cfg) (of_nat (k + 1)) (EchoPayload cfg) =
      Inr (demo_request cfg c4 v4 k)"
    "validate_echo_reply (demo_reply cfg c4 v4 k) v4 c4 (EchoIdentifier cfg) (of_nat (k + 1)) (EchoPayload cfg) = None"
  using assms exchange_built(1) [of c4 c4 v4 v4] validate_built_reply [of v4 v4 c4 c4]
  by (simp_all add: demo_ok_def demo_request_def demo_reply_def)

lemma server_reply:
  assumes "demo_ok cfg c4 v4" "to4 v = Some v4" "to4 c = Some c4"
  shows "build_icmp_echo_reply (demo_request cfg c4 v4 k) v c = Inr (demo_reply cfg c4 v4 k)"
  using assms exchange_built(2) [OF assms(3,2)] by (simp add: demo_ok_def demo_request_def demo_reply_def)

lemma server_replies:
  assumes "demo_ok cfg c4 v4" "to4 v = Some v4" "to4 c = Some c4"
  shows "echo_replies v c (map (demo_request cfg c4 v4) ks) = map (demo_reply cfg c4 v4) ks"
  by (induction ks) (simp_all add: server_reply [OF assms])

lemma server_answers:
  assumes "demo_ok cfg c4 v4" "to4 v = Some v4" "to4 c = Some c4" "stream_accepts env st"
    "content r = concat (map frame_bytes (map (demo_request cfg c4 v4) ks))"
  shows "wire st (io_trace (handle_quic_stream env st v c r \<lparr>io_trace = [], io_ctrs = zero_counters\<rparr>)) =
    concat (map frame_bytes (map (demo_reply cfg c4 v4) ks))"
proof -
  have "list_all frame_ok (map (demo_request cfg c4 v4) ks)"
    using demo_frames_ok(1) [OF assms(1)] by (simp add: list_all_iff)
  note frames = read_frames_exact [OF this assms(5)]
  show ?thesis
    using handle_quic_stream_accepting [OF assms(4), of v c r "\<lparr>io_trace = [], io_ctrs = zero_counters\<rparr>"]
    by (simp add: frames server_replies [OF assms(1-3)])
qed

section \<open>The loop against expected replies\<close>

definition rounds_on :: "nat \<Rightarrow> nat \<Rightarrow> nat \<Rightarrow> nat \<Rightarrow> nat list" where
  \<comment> \<open>which of the requests \<open>i..<i + todo\<close> go over path \<open>j\<close> of \<open>n\<close>\<close>
  "rounds_on n j i todo = filter (\<lambda>k. k mod n = j) [i..<i + todo]"

lemma rounds_on_Suc:
  "rounds_on n j i (Suc todo) = (if i mod n = j then [i] else []) @ rounds_on n j (Suc i) todo"
proof -
  have "[i..<i + Suc todo] = i # [Suc i..<Suc i + todo]" by (subst upt_conv_Cons) simp_all
  then show ?thesis by (simp add: rounds_on_def del: upt_Suc)
qed

definition demo_env :: "env \<Rightarrow> client_path list \<Rightarrow> bool" where
  \<comment> \<open>the streams of the paths accept writes and deadlines\<close>
  "demo_env env paths \<longleftrightarrow> distinct (map cp_stream paths) \<and>
     (\<forall>p \<in> set paths. stream_accepts env (cp_stream p)) \<and> (\<forall>tr st t. set_deadline env tr st t = None)"

definition fair_scheduler :: "nat \<Rightarrow> nat \<Rightarrow> round_robin" where
  \<comment> \<open>the scheduler of \<open>n\<close> paths after \<open>i\<close> picks\<close>
  "fair_scheduler n i = \<lparr>pathCount = int n, rr_next = int (i mod n)\<rparr>"

lemma fair_scheduler_picks: "next_path_index (fair_scheduler n i) = (int (i mod n), fair_scheduler n (Suc i))"
proof -
  have "(int (i mod n) + 1) mod int n = int ((i mod n + 1) mod n)" by (simp add: zmod_int add.commute)
  also have "(i mod n + 1) mod n = Suc i mod n" by (simp add: mod_Suc_eq)
  finally show ?thesis by (simp add: next_path_index_def fair_scheduler_def Let_def)
qed

definition after_round :: "int \<Rightarrow> duration \<Rightarrow> nat \<Rightarrow> bytes \<Rightarrow> bytes \<Rightarrow> reader \<Rightarrow> echo_state \<Rightarrow> echo_state" where
  \<comment> \<open>a request was sent over a stream, and its reply read\<close>
  "after_round now timeout st request reply r s = s\<lparr>es_readers := (es_readers s)(st := r),
    io_ctrs := add_rx (int (length reply)) (add_tx (int (length request)) (io_ctrs s)),
    io_trace := io_trace s @ [Now now, StreamDeadline st (Some (now + sint timeout)) None,
      StreamWrite st (be32 (of_nat (length request))) None,
      StreamWrite st request None, StreamRead st, StreamDeadline st None None]\<rparr>"

lemma echo_round_succeeds:
  assumes "demo_ok cfg c4 v4" "demo_env env paths" "paths \<noteq> []" "k = i mod length paths"
    "content (es_readers s (cp_stream (paths ! k))) = frame_bytes (demo_reply cfg c4 v4 i) @ left"
  obtains r where "content r = left"
    "echo_rounds env cfg c4 v4 paths (Suc todo) i (fair_scheduler (length paths) i) s =
     echo_rounds env cfg c4 v4 paths todo (Suc i) (fair_scheduler (length paths) (Suc i))
       (after_round (clock env (io_trace s)) (RequestTimeout cfg) (cp_stream (paths ! k)) (demo_request cfg c4 v4 i) (demo_reply cfg c4 v4 i) r s)"
proof -
  let ?st = "cp_stream (paths ! k)" and ?req = "demo_request cfg c4 v4 i"
  have "k < length paths" using assms(3,4) by simp
  then have acc: "stream_accepts env ?st" "\<And>tr st t. set_deadline env tr st t = None"
    using assms(2) by (auto simp: demo_env_def)
  obtain r where r: "read_frame (es_readers s ?st) = (Inr (demo_reply cfg c4 v4 i), r)" "content r = left"
    using frames.dec_enc [OF _ assms(5), of "demo_reply cfg c4 v4 i"] demo_frames_ok(2) [OF assms(1), of i]
    by (auto simp: encode_frame_eq)
  have wr: "write_frame_to env ?st ?req s0 =
      (emit (StreamWrite ?st ?req None) (emit (StreamWrite ?st (be32 (of_nat (length ?req))) None) s0), None)"
    for s0 :: echo_state
    by (rule write_frame_to_accepting [OF acc(1) demo_frames_ok(1) [OF assms(1)]])
  show ?thesis
  proof (rule that [OF r(2)])
    show "echo_rounds env cfg c4 v4 paths (Suc todo) i (fair_scheduler (length paths) i) s =
        echo_rounds env cfg c4 v4 paths todo (Suc i) (fair_scheduler (length paths) (Suc i))
          (after_round (clock env (io_trace s)) (RequestTimeout cfg) ?st ?req (demo_reply cfg c4 v4 i) r s)"
      using demo_exchange [OF assms(1), of i] acc(2)
      by (simp add: go_now_def fair_scheduler_picks assms(4) [symmetric] Let_def set_stream_deadline_def wr read_stream_def
          r(1) after_round_def emit_def count_op_def)
  qed
qed

lemma echo_rounds_succeed:
  assumes "demo_ok cfg c4 v4" "demo_env env paths" "paths \<noteq> []"
    "\<forall>j < length paths. content (es_readers s (cp_stream (paths ! j))) =
       concat (map frame_bytes (map (demo_reply cfg c4 v4) (rounds_on (length paths) j i todo))) @ rest j"
  shows "\<exists>s'. echo_rounds env cfg c4 v4 paths todo i (fair_scheduler (length paths) i) s = (s', None) \<and>
    (\<forall>j < length paths. wire (cp_stream (paths ! j)) (io_trace s') = wire (cp_stream (paths ! j)) (io_trace s) @
       concat (map frame_bytes (map (demo_request cfg c4 v4) (rounds_on (length paths) j i todo)))) \<and>
    txPackets (io_ctrs s') = txPackets (io_ctrs s) + of_nat todo \<and>
    rxPackets (io_ctrs s') = rxPackets (io_ctrs s) + of_nat todo \<and> errors (io_ctrs s') = errors (io_ctrs s)"
  using assms(4)
proof (induction todo arbitrary: i s)
  case 0
  then show ?case by (simp add: rounds_on_def)
next
  case (Suc todo)
  let ?n = "length paths" and ?k = "i mod length paths"
  let ?st = "cp_stream (paths ! ?k)"
  have n: "?k < ?n" using assms(3) by simp
  have distinct: "cp_stream (paths ! j) = ?st \<longleftrightarrow> j = ?k" if "j < ?n" for j
    using nth_eq_iff_index_eq [of "map cp_stream paths" j ?k] assms(2) n that by (simp add: demo_env_def)
  have "content (es_readers s ?st) = frame_bytes (demo_reply cfg c4 v4 i) @
      (concat (map frame_bytes (map (demo_reply cfg c4 v4) (rounds_on ?n ?k (Suc i) todo))) @ rest ?k)"
    using Suc.prems n by (simp add: rounds_on_Suc)
  then obtain r where r:
    "content r = concat (map frame_bytes (map (demo_reply cfg c4 v4) (rounds_on ?n ?k (Suc i) todo))) @ rest ?k"
    and step: "echo_rounds env cfg c4 v4 paths (Suc todo) i (fair_scheduler ?n i) s =
      echo_rounds env cfg c4 v4 paths todo (Suc i) (fair_scheduler ?n (Suc i))
        (after_round (clock env (io_trace s)) (RequestTimeout cfg) ?st (demo_request cfg c4 v4 i) (demo_reply cfg c4 v4 i) r s)"
    by (rule echo_round_succeeds [OF assms(1-3) refl, where todo = todo])
  let ?s1 = "after_round (clock env (io_trace s)) (RequestTimeout cfg) ?st (demo_request cfg c4 v4 i) (demo_reply cfg c4 v4 i) r s"
  have "\<forall>j < ?n. content (es_readers ?s1 (cp_stream (paths ! j))) =
      concat (map frame_bytes (map (demo_reply cfg c4 v4) (rounds_on ?n j (Suc i) todo))) @ rest j"
    using Suc.prems r distinct by (auto simp: after_round_def rounds_on_Suc)
  note IH = Suc.IH [OF this]
  obtain s' where s': "echo_rounds env cfg c4 v4 paths todo (Suc i) (fair_scheduler ?n (Suc i)) ?s1 = (s', None)"
    "\<forall>j < ?n. wire (cp_stream (paths ! j)) (io_trace s') = wire (cp_stream (paths ! j)) (io_trace ?s1) @
       concat (map frame_bytes (map (demo_request cfg c4 v4) (rounds_on ?n j (Suc i) todo)))"
    "txPackets (io_ctrs s') = txPackets (io_ctrs ?s1) + of_nat todo"
    "rxPackets (io_ctrs s') = rxPackets (io_ctrs ?s1) + of_nat todo" "errors (io_ctrs s') = errors (io_ctrs ?s1)"
    using IH by blast
  have "wire (cp_stream (paths ! j)) (io_trace ?s1) = wire (cp_stream (paths ! j)) (io_trace s) @
      (if ?k = j then frame_bytes (demo_request cfg c4 v4 i) else [])" if "j < ?n" for j
    using distinct [OF that] by (auto simp: after_round_def frame_bytes_def)
  with s'(2) have "\<forall>j < ?n. wire (cp_stream (paths ! j)) (io_trace s') = wire (cp_stream (paths ! j)) (io_trace s) @
       concat (map frame_bytes (map (demo_request cfg c4 v4) (rounds_on ?n j i (Suc todo))))"
    by (auto simp: rounds_on_Suc)
  moreover have "echo_rounds env cfg c4 v4 paths (Suc todo) i (fair_scheduler ?n i) s = (s', None)"
    unfolding step by (rule s'(1))
  ultimately show ?case using s'(3-5) by (auto simp: after_round_def)
qed

lemma dial_paths_from_frame:
  "dial_paths_from env ps specs s = (Inr qs, s') \<Longrightarrow>
   io_ctrs s' = io_ctrs s \<and> io_state.more s' = io_state.more s \<and> wire st (io_trace s') = wire st (io_trace s)"
proof (induction env ps specs s rule: dial_paths_from.induct)
  case (2 env ps spec specs s)
  obtain x s1 where d: "dial_client_path env spec s = (x, s1)" by fastforce
  then show ?case
    using 2 dial_frame(1,2) [OF d]
    by (cases rule: dial_cases [OF d]) auto
qed simp

lemma es_readers_io:
  assumes "io_state.more s' = io_state.more (s :: 'z echo_state_scheme)"
  shows "es_readers s' = es_readers s"
  using assms by (cases s, cases s') (simp add: echo_state.defs)

section \<open>Properties\<close>

text \<open>
  (C32) What the demo client accepts as a reply: at least 20 bytes whose first 20 have a zero
  checksum, an ICMP packet from the virtual address to the client, with a zero ICMP
  checksum, type 0, code 0, and exactly the identifier, sequence and payload of the request;
  in particular every reply that the server builds for a request of the client.
\<close>

theorem validation_accepts_exactly_the_reply:
  assumes "to4 v = Some v4" "to4 c = Some c4"
  shows "(validate_echo_reply reply v c i s payload = None \<longleftrightarrow>
      20 \<le> length reply \<and> checksum (take 20 reply) = 0 \<and>
      (\<exists>p m. parse_ipv4_packet reply = Inr p \<and> SourceIP p = v4 \<and> DestinationIP p = c4 \<and>
         checksum (Payload p) = 0 \<and> parse_icmp_packet (Payload p) = Inr m \<and>
         Type m = 0 \<and> Code m = 0 \<and> Identifier m = i \<and> Sequence m = s \<and> Data m = payload)) \<and>
    (length payload \<le> 65507 \<longrightarrow> (\<exists>request reply.
       build_icmp_echo_request c v i s payload = Inr request \<and>
       build_icmp_echo_reply request v c = Inr reply \<and>
       validate_echo_reply reply v c i s payload = None))"
proof -
  have "\<exists>request reply. build_icmp_echo_request c v i s payload = Inr request \<and>
      build_icmp_echo_reply request v c = Inr reply \<and> validate_echo_reply reply v c i s payload = None"
    if "length payload \<le> 65507"
    using exchange_built [OF assms(2,1) that] validate_built_reply [OF assms that] by blast
  then show ?thesis using validate_iff [OF assms, of reply i s payload] by (intro conjI impI)
qed

theorem validation_accepts_exactly_the_reply_witness:
  "\<exists>request reply. build_icmp_echo_request [10, 8, 0, 2] [10, 8, 0, 1] 1 7 [5] = Inr request \<and>
     build_icmp_echo_reply request [10, 8, 0, 1] [10, 8, 0, 2] = Inr reply \<and>
     validate_echo_reply reply [10, 8, 0, 1] [10, 8, 0, 2] 1 7 [5] = None"
proof -
  have "to4 [10, 8, 0, 1] = Some [10, 8, 0, 1]" "to4 [10, 8, 0, 2] = Some [10, 8, 0, 2]" by simp_all
  from validation_accepts_exactly_the_reply [OF this, of _ 1 7 "[5]", THEN conjunct2]
  show ?thesis by (rule mp) simp
qed

text \<open>
  (C19) Demo client and demo server together: if what every stream delivers is what the
  server puts on it when it reads the requests that go over this path, in any chunks, then
  the client's run ends without an error, having sent and received one packet per round,
  and what it put on each stream is exactly those requests, the rounds being dealt to the
  paths in turn.
\<close>

theorem demo_exchange_succeeds:
  assumes "Server0 cfg \<noteq> '''' \<or> Server1 cfg \<noteq> ''''" "to4 (VirtualIP cfg) = Some v4"
    "to4 (ClientIP cfg) = Some c4" "0 < EchoCount cfg" "length (EchoPayload cfg) \<le> 65507"
    "client_tls_config te (CAFile cfg) (TLSServerName cfg) (ClientCertFile cfg) (ClientKeyFile cfg) = Inr tls"
    "dial_client_paths env (Server0 cfg) (Server1 cfg) s = (Inr paths, s1)" "demo_env env paths"
    "\<forall>j < length paths. stream_accepts senv (cp_stream (paths ! j)) \<and>
       content (r j) = concat (map frame_bytes (map (demo_request cfg c4 v4)
         (rounds_on (length paths) j 0 (nat (EchoCount cfg))))) \<and>
       content (es_readers s (cp_stream (paths ! j))) = wire (cp_stream (paths ! j)) (io_trace
         (handle_quic_stream senv (cp_stream (paths ! j)) (VirtualIP cfg) (ClientIP cfg) (r j)
            \<lparr>io_trace = [], io_ctrs = zero_counters\<rparr>))"
  shows "\<exists>s'. run_client env te cfg s = (s', None) \<and>
    txPackets (io_ctrs s') = txPackets (io_ctrs s) + of_int (EchoCount cfg) \<and>
    rxPackets (io_ctrs s') = rxPackets (io_ctrs s) + of_int (EchoCount cfg) \<and>
    errors (io_ctrs s') = errors (io_ctrs s) \<and>
    (\<forall>j < length paths. wire (cp_stream (paths ! j)) (io_trace s') =
       wire (cp_stream (paths ! j)) (io_trace s) @ content (r j))"
proof -
  let ?todo = "nat (EchoCount cfg)"
  define cfg' where "cfg' = (if sint (RequestTimeout cfg) \<le> 0 then cfg\<lparr>RequestTimeout := defaultClientRequestTimeout\<rparr> else cfg)"
  have same: "EchoIdentifier cfg' = EchoIdentifier cfg" "EchoPayload cfg' = EchoPayload cfg"
    "CAFile cfg' = CAFile cfg" "TLSServerName cfg' = TLSServerName cfg" "ClientCertFile cfg' = ClientCertFile cfg"
    "ClientKeyFile cfg' = ClientKeyFile cfg" "Server0 cfg' = Server0 cfg" "Server1 cfg' = Server1 cfg"
    "EchoCount cfg' = EchoCount cfg"
    by (simp_all add: cfg'_def)
  have l: "length v4 = 4" "length c4 = 4" using assms(2,3) by (auto dest: length_to4)
  have ok: "demo_ok cfg' c4 v4" "demo_ok cfg c4 v4" using l assms(5) by (simp_all add: demo_ok_def same)
  have dial: "dial_paths_from env [] (client_path_specs (Server0 cfg) (Server1 cfg)) s = (Inr paths, s1)"
    using assms(7) by (simp add: dial_client_paths_def)
  have ne: "paths \<noteq> []"
    using dial_paths_from_spec [OF dial, of "[]"] assms(1)
    by (auto simp: no_leak_def client_path_specs_def Let_def split: if_splits)
  note frame = dial_paths_from_frame [OF dial]
  have readers: "es_readers s1 = es_readers s" using frame by (intro es_readers_io) blast
  have req: "demo_request cfg' c4 v4 = demo_request cfg c4 v4" "demo_reply cfg' c4 v4 = demo_reply cfg c4 v4"
    by (simp_all add: demo_request_def demo_reply_def same fun_eq_iff)
  have "content (es_readers s1 (cp_stream (paths ! j))) =
      concat (map frame_bytes (map (demo_reply cfg' c4 v4) (rounds_on (length paths) j 0 ?todo))) @ []"
    if "j < length paths" for j
    using assms(9) that server_answers [OF ok(2) assms(2,3), of senv "cp_stream (paths ! j)" "r j"]
    by (simp add: readers req)
  then obtain s2 where s2: "echo_rounds env cfg' c4 v4 paths ?todo 0 (fair_scheduler (length paths) 0) s1 = (s2, None)"
    "\<forall>j < length paths. wire (cp_stream (paths ! j)) (io_trace s2) = wire (cp_stream (paths ! j)) (io_trace s1) @
       concat (map frame_bytes (map (demo_request cfg' c4 v4) (rounds_on (length paths) j 0 ?todo)))"
    "txPackets (io_ctrs s2) = txPackets (io_ctrs s1) + of_nat ?todo"
    "rxPackets (io_ctrs s2) = rxPackets (io_ctrs s1) + of_nat ?todo" "errors (io_ctrs s2) = errors (io_ctrs s1)"
    using echo_rounds_succeed [OF ok(1) assms(8) ne, of s1 0 ?todo "\<lambda>_. []"] by blast
  have sched: "new_round_robin (int (length paths)) = Inr (fair_scheduler (length paths) 0)"
    using ne by (simp add: new_round_robin_def fair_scheduler_def)
  have run: "run_client env te cfg s = (close_client_paths paths s2, None)"
    using assms(1-4,6,7) sched s2(1) by (simp add: run_client_def Let_def cfg'_def [symmetric] same)
  obtain tr where "io_trace (close_client_paths paths s2) = io_trace s2 @ tr" "list_all silent tr"
    "io_ctrs (close_client_paths paths s2) = io_ctrs s2"
    using close_paths_frame by blast
  moreover have "wire st tr = []" for st using silent_nothing [OF \<open>list_all silent tr\<close>] by blast
  moreover have "(of_nat ?todo :: 64 word) = of_int (EchoCount cfg)"
    using assms(4) by (metis less_imp_le nat_0_le of_int_of_nat_eq)
  ultimately show ?thesis
    using run s2 frame assms(9) req by (intro exI [of _ "close_client_paths paths s2"]) simp
qed

definition demo_config :: client_config where
  \<comment> \<open>one path, two requests\<close>
  "demo_config = \<lparr>Server0 = ''a'', Server1 = '''', CAFile = '''', TLSServerName = '''', ClientCertFile = '''',
     ClientKeyFile = '''', VirtualIP = [10, 8, 0, 1], ClientIP = [10, 8, 0, 2], EchoIdentifier = 7,
     EchoCount = 2, EchoPayload = [1], RequestTimeout = 0, EchoStatsInterval = 0, EchoStatsJSON = False\<rparr>"

theorem demo_exchange_succeeds_witness:
  "\<exists>s s'. run_client calm_env example_tls_env demo_config s = (s', None) \<and> txPackets (io_ctrs s') = 2"
proof -
  let ?c4 = "[10, 8, 0, 2]" and ?v4 = "[10, 8, 0, 1]"
  let ?path = "\<lparr>cp_id = 0, cp_address = ''a'', cp_conn = Some 1, cp_stream = 2\<rparr>"
  let ?paths = "[?path]"
  define r where "r = \<lparr>chunks = map frame_bytes (map (demo_request demo_config ?c4 ?v4) (rounds_on 1 0 0 2)),
    end_err = io_eof, eager = False\<rparr>"
  define answers where "answers = wire 2 (io_trace (handle_quic_stream calm_env 2 ?v4 ?c4 r
    \<lparr>io_trace = [], io_ctrs = zero_counters\<rparr>))"
  define s where "s = \<lparr>io_trace = [], io_ctrs = zero_counters,
    es_readers = (\<lambda>_. \<lparr>chunks = [answers], end_err = io_eof, eager = False\<rparr>)\<rparr>"
  obtain tls where tls: "client_tls_config example_tls_env '''' '''' '''' '''' = Inr tls"
    by (simp add: tls_examples)
  obtain s1 where dial: "dial_client_paths calm_env ''a'' '''' s = (Inr ?paths, s1)"
    by (simp add: dial_client_paths_def client_path_specs_def dial_client_path_def calm_env_def Let_def)
  have env: "demo_env calm_env ?paths" "stream_accepts calm_env 2"
    by (simp_all add: demo_env_def stream_accepts_def calm_env_def)
  have "\<exists>s'. run_client calm_env example_tls_env demo_config s = (s', None) \<and>
    txPackets (io_ctrs s') = txPackets (io_ctrs s) + of_int (EchoCount demo_config) \<and>
    rxPackets (io_ctrs s') = rxPackets (io_ctrs s) + of_int (EchoCount demo_config) \<and>
    errors (io_ctrs s') = errors (io_ctrs s) \<and>
    (\<forall>j < length ?paths. wire (cp_stream (?paths ! j)) (io_trace s') =
       wire (cp_stream (?paths ! j)) (io_trace s) @ content r)"
    by (rule demo_exchange_succeeds [where senv = calm_env and r = "\<lambda>j. r" and ?v4.0 = "[10, 8, 0, 1]"
        and ?c4.0 = "[10, 8, 0, 2]"])
      (use tls dial env in \<open>simp_all add: demo_config_def r_def content_def s_def answers_def\<close>)
  then show ?thesis by (auto simp: s_def demo_config_def zero_counters_def)
qed

end
