(* ===== verification/Server_Run.thy ===== *)
theory Server_Run
  imports Server_Session Echo_Server Tls_Config Tun_Device
begin

text \<open>
  Starting the server, \<open>RunServer\<close> and \<open>runTUNServer\<close> of
  \<open>internal/quictransport/server.go\<close>, and the accept loops \<open>serveQUICPath\<close> and
  \<open>serveTUNQUICPath\<close>.  As on the client, a started goroutine is data.  The answers of
  \<open>quic.ListenAddr\<close> and of the successive \<open>Accept\<close> calls are arguments; at the end of
  the answers the loop is blocked in the next call.  The goroutine that closes the listener
  once the context has ended acts through these answers only: it makes the blocked
  \<open>Accept\<close> fail.  Its own \<open>Close\<close>, a second one beside the deferred call, is left out.
\<close>

section \<open>The accept loops\<close>

datatype serve_error = ListenFailed int string ext_error | AcceptFailed int ext_error | ServeContextDone

datatype serve_end = Accepting | Reported serve_error | Silent

fun accept_quic :: "env \<Rightarrow> int \<Rightarrow> (ext_error + nat) list \<Rightarrow> 'z io_state_scheme \<Rightarrow>
   'z io_state_scheme \<times> nat list \<times> serve_end" where
  \<comment> \<open>with the connections for which a handler was started, in order\<close>
  "accept_quic env pathID [] s = (s, [], Accepting)"
| "accept_quic env pathID (Inl err # answers) s =
     (let s = emit (Accept pathID) s in
      if is_done env s then (s, [], Reported ServeContextDone)
      else (count_op add_error s, [], Reported (AcceptFailed pathID err)))"
| "accept_quic env pathID (Inr conn # answers) s =
     (case accept_quic env pathID answers (emit (Accept pathID) s) of
        (s, conns, fin) \<Rightarrow> (s, conn # conns, fin))"

fun accept_tun_quic :: "env \<Rightarrow> int \<Rightarrow> (ext_error + nat) list \<Rightarrow> 'z io_state_scheme \<Rightarrow>
   'z io_state_scheme \<times> nat list \<times> serve_end" where
  \<comment> \<open>the TUN server does not report the end of the context\<close>
  "accept_tun_quic env pathID [] s = (s, [], Accepting)"
| "accept_tun_quic env pathID (Inl err # answers) s =
     (let s = emit (Accept pathID) s in
      if is_done env s then (s, [], Silent)
      else (count_op add_error s, [], Reported (AcceptFailed pathID err)))"
| "accept_tun_quic env pathID (Inr conn # answers) s =
     (case accept_tun_quic env pathID answers (emit (Accept pathID) s) of
        (s, conns, fin) \<Rightarrow> (s, conn # conns, fin))"

definition close_listener :: "int \<Rightarrow> serve_end \<Rightarrow> 'z io_state_scheme \<Rightarrow> 'z io_state_scheme" where
  \<comment> \<open>\<open>defer listener.Close()\<close> once the loop has returned\<close>
  "close_listener pathID fin s = (if fin = Accepting then s else emit (ListenerClose pathID) s)"

definition serve_quic_path ::
  "env \<Rightarrow> int \<Rightarrow> string \<Rightarrow> ext_error option \<Rightarrow> (ext_error + nat) list \<Rightarrow> 'z io_state_scheme \<Rightarrow>
   'z io_state_scheme \<times> nat list \<times> serve_end" where
  "serve_quic_path env pathID listenAddr listenErr answers s =
     (let s = emit (Listen pathID) s in
      case listenErr of
        Some err \<Rightarrow> (count_op add_error s, [], Reported (ListenFailed pathID listenAddr err))
      | None \<Rightarrow>
          (case accept_quic env pathID answers s of
             (s, conns, fin) \<Rightarrow> (close_listener pathID fin s, conns, fin)))"

definition serve_tun_quic_path ::
  "env \<Rightarrow> int \<Rightarrow> string \<Rightarrow> ext_error option \<Rightarrow> (ext_error + nat) list \<Rightarrow> 'z io_state_scheme \<Rightarrow>
   'z io_state_scheme \<times> nat list \<times> serve_end" where
  "serve_tun_quic_path env pathID listenAddr listenErr answers s =
     (let s = emit (Listen pathID) s in
      case listenErr of
        Some err \<Rightarrow> (count_op add_error s, [], Reported (ListenFailed pathID listenAddr err))
      | None \<Rightarrow>
          (case accept_tun_quic env pathID answers s of
             (s, conns, fin) \<Rightarrow> (close_listener pathID fin s, conns, fin)))"

section \<open>\<open>RunServer\<close> and \<open>runTUNServer\<close>\<close>

record server_config =
  scListen0 :: string
  scListen1 :: string
  scTLSCertFile :: string
  scTLSKeyFile :: string
  scClientCAFile :: string
  scAllowedCIDR :: string
  scVirtualIP :: ip
  scClientIP :: ip
  scStatsInterval :: duration
  scStatsJSON :: bool
  scUseTUN :: bool
  scDeviceName :: string

datatype server_error =
    NoListenAddress | ServerVirtualNotIPv4 ip | ServerClientNotIPv4 ip | ServerTLSFailed tls_error
  | ServerBadPolicy policy_error | ServerTunNotOpened tun_error
  | ServerContextEnded ext_error | PathFailed serve_error | ForwardFailed ext_error

datatype ('c, 'p) server_goroutine =
    ServeQUICPath int string "('c, 'p) tls_config" ip ip
  | ServeTUNQUICPath int string "('c, 'p) tls_config"
  | ForwardDevicePackets packet_policy
  | CloseServerDeviceWhenDone

datatype server_wake = ServerDone ext_error | Message "server_error option"

fun await_paths :: "nat \<Rightarrow> server_wake list \<Rightarrow> server_error option option" where
  \<comment> \<open>the loop at the end of \<open>RunServer\<close> over the wakes of its \<open>select\<close>; the outer
      \<open>None\<close> means it still waits\<close>
  "await_paths 0 wakes = Some None"
| "await_paths (Suc n) [] = None"
| "await_paths (Suc n) (ServerDone err # wakes) = Some (Some (ServerContextEnded err))"
| "await_paths (Suc n) (Message (Some err) # wakes) = Some (Some err)"
| "await_paths (Suc n) (Message None # wakes) = await_paths n wakes"

fun await_tun :: "server_wake list \<Rightarrow> server_error option" where
  \<comment> \<open>the endless loop at the end of \<open>runTUNServer\<close>; \<open>None\<close> means it still waits\<close>
  "await_tun [] = None"
| "await_tun (ServerDone err # wakes) = Some (ServerContextEnded err)"
| "await_tun (Message (Some err) # wakes) = Some err"
| "await_tun (Message None # wakes) = await_tun wakes"

record ('c, 'p) server_plan =
  sv_goroutines :: "('c, 'p) server_goroutine list"
  sv_capacity :: nat
  sv_paths :: nat

definition configured_listeners :: "server_config \<Rightarrow> (int \<times> string) list" where
  "configured_listeners cfg =
     (if scListen0 cfg \<noteq> '''' then [(0, scListen0 cfg)] else []) @
     (if scListen1 cfg \<noteq> '''' then [(1, scListen1 cfg)] else [])"

definition run_tun_server ::
  "unix_env \<Rightarrow> server_config \<Rightarrow> ('c, 'p) tls_config \<Rightarrow>
   (server_error + ('c, 'p) server_plan) \<times> fd_event list" where
  \<comment> \<open>with the system calls of \<open>tun.Open\<close>\<close>
  "run_tun_server ue cfg tlsConfig =
     (case new_packet_policy (scAllowedCIDR cfg) of
        Inl err \<Rightarrow> (Inl (ServerBadPolicy err), [])
      | Inr policy \<Rightarrow>
          (case open_tun ue (scDeviceName cfg) of
             (Inl err, calls) \<Rightarrow> (Inl (ServerTunNotOpened err), calls)
           | (Inr device, calls) \<Rightarrow>
               (Inr \<lparr>sv_goroutines = [CloseServerDeviceWhenDone, ForwardDevicePackets policy] @
                      (if scListen0 cfg \<noteq> '''' then [ServeTUNQUICPath 0 (scListen0 cfg) tlsConfig] else []) @
                      (if scListen1 cfg \<noteq> '''' then [ServeTUNQUICPath 1 (scListen1 cfg) tlsConfig] else []),
                    sv_capacity = 3, sv_paths = 0\<rparr>, calls)))"

definition run_server ::
  "('k, 'c, 'p) tls_env \<Rightarrow> unix_env \<Rightarrow> server_config \<Rightarrow>
   (server_error + ('c, 'p) server_plan) \<times> fd_event list" where
  "run_server te ue cfg =
     (if scListen0 cfg = '''' \<and> scListen1 cfg = '''' then (Inl NoListenAddress, [])
      else if \<not> scUseTUN cfg \<and> to4 (scVirtualIP cfg) = None
      then (Inl (ServerVirtualNotIPv4 (scVirtualIP cfg)), [])
      else if \<not> scUseTUN cfg \<and> to4 (scClientIP cfg) = None
      then (Inl (ServerClientNotIPv4 (scClientIP cfg)), [])
      else case server_tls_config te (scTLSCertFile cfg) (scTLSKeyFile cfg) (scClientCAFile cfg) of
        Inl err \<Rightarrow> (Inl (ServerTLSFailed err), [])
      | Inr tlsConfig \<Rightarrow>
          if scUseTUN cfg then run_tun_server ue cfg tlsConfig
          else let serve = \<lambda>pathID addr. ServeQUICPath pathID addr tlsConfig (scVirtualIP cfg) (scClientIP cfg);
                   goroutines = (if scListen0 cfg \<noteq> '''' then [serve 0 (scListen0 cfg)] else []) @
                     (if scListen1 cfg \<noteq> '''' then [serve 1 (scListen1 cfg)] else [])
               in (Inr \<lparr>sv_goroutines = goroutines, sv_capacity = 2, sv_paths = length goroutines\<rparr>, []))"

definition finish_server :: "server_config \<Rightarrow> ('c, 'p) server_plan \<Rightarrow> server_wake list \<Rightarrow> 'z io_state_scheme \<Rightarrow>
   server_error option option \<times> 'z io_state_scheme" where
  \<comment> \<open>what \<open>RunServer\<close> returns; in TUN mode \<open>defer device.Close()\<close> runs then\<close>
  "finish_server cfg plan wakes s =
     (if scUseTUN cfg
      then (case await_tun wakes of None \<Rightarrow> (None, s) | Some err \<Rightarrow> (Some (Some err), emit DeviceClose s))
      else (await_paths (sv_paths plan) wakes, s))"

section \<open>Facts\<close>

lemma finish_server_first_report:
  \<comment> \<open>the first error reported ends the server, whatever empty reports came before\<close>
  "k < sv_paths plan \<or> scUseTUN cfg \<Longrightarrow>
   fst (finish_server cfg plan (replicate k (Message None) @ Message (Some err) # wakes) s) = Some (Some err)"
proof -
  have "await_tun (replicate k (Message None) @ Message (Some err) # wakes) = Some err"
    by (induction k) simp_all
  moreover have "await_paths n (replicate k (Message None) @ Message (Some err) # wakes) = Some (Some err)"
    if "k < n" for n
    using that
  proof (induction k arbitrary: n)
    case 0
    then show ?case by (cases n) simp_all
  next
    case (Suc k)
    then show ?case by (cases n) simp_all
  qed
  ultimately show "k < sv_paths plan \<or> scUseTUN cfg \<Longrightarrow> ?thesis" by (auto simp: finish_server_def)
qed

lemma accept_quic_run:
  "accept_quic env pathID (map Inr conns @ Inl err # answers) s =
    (let s' = s\<lparr>io_trace := io_trace s @ replicate (length conns + 1) (Accept pathID)\<rparr>
     in if is_done env s' then (s', conns, Reported ServeContextDone)
        else (count_op add_error s', conns, Reported (AcceptFailed pathID err)))"
  by (induction conns arbitrary: s) (simp_all add: Let_def emit_def is_done_def)

lemma accept_tun_quic_run:
  "accept_tun_quic env pathID (map Inr conns @ Inl err # answers) s =
    (let s' = s\<lparr>io_trace := io_trace s @ replicate (length conns + 1) (Accept pathID)\<rparr>
     in if is_done env s' then (s', conns, Silent)
        else (count_op add_error s', conns, Reported (AcceptFailed pathID err)))"
  by (induction conns arbitrary: s) (simp_all add: Let_def emit_def is_done_def)

definition accept_events :: "int \<Rightarrow> nat \<Rightarrow> io_event list" where
  "accept_events pathID n = Listen pathID # replicate (n + 1) (Accept pathID)"

fun report_of :: "serve_end \<Rightarrow> server_error option" where
  "report_of (Reported err) = Some (PathFailed err)"
| "report_of _ = None"

fun goroutine_report :: "env \<Rightarrow> ext_error option \<Rightarrow> (ext_error + nat) list \<Rightarrow> read_result list \<Rightarrow>
  ('c, 'p) server_goroutine \<Rightarrow> server_state \<Rightarrow> server_error option" where
  \<comment> \<open>what a goroutine sends to the error channel, if anything, when it runs from this state with
      these answers to its listen, accept and read calls\<close>
  "goroutine_report env listenErr answers reads (ServeQUICPath pathID addr tls v c) s =
     report_of (snd (snd (serve_quic_path env pathID addr listenErr answers s)))"
| "goroutine_report env listenErr answers reads (ServeTUNQUICPath pathID addr tls) s =
     report_of (snd (snd (serve_tun_quic_path env pathID addr listenErr answers s)))"
| "goroutine_report env listenErr answers reads (ForwardDevicePackets pol) s =
     (case snd (forward_device_packets env pol reads s) of
        Failed err \<Rightarrow> Some (ForwardFailed err)
      | _ \<Rightarrow> None)"
| "goroutine_report env listenErr answers reads CloseServerDeviceWhenDone s = None"

definition may_report :: "('c, 'p) server_goroutine \<Rightarrow> bool" where
  "may_report g \<longleftrightarrow> (\<exists>env listenErr answers reads s. goroutine_report env listenErr answers reads g s \<noteq> None)"

definition tun_goroutines :: "server_config \<Rightarrow> ('c, 'p) tls_config \<Rightarrow> packet_policy \<Rightarrow>
  ('c, 'p) server_goroutine list" where
  "tun_goroutines cfg tls pol = [CloseServerDeviceWhenDone, ForwardDevicePackets pol] @
     map (\<lambda>(pathID, addr). ServeTUNQUICPath pathID addr tls) (configured_listeners cfg)"

definition demo_goroutines :: "server_config \<Rightarrow> ('c, 'p) tls_config \<Rightarrow> ('c, 'p) server_goroutine list" where
  "demo_goroutines cfg tls =
     map (\<lambda>(pathID, addr). ServeQUICPath pathID addr tls (scVirtualIP cfg) (scClientIP cfg)) (configured_listeners cfg)"

lemma configured_few: "length (configured_listeners cfg) \<le> 2"
  by (simp add: configured_listeners_def)

lemma closer_never_reports: "\<not> may_report CloseServerDeviceWhenDone"
  by (simp add: may_report_def)

lemma few_report:
  "length (filter may_report (tun_goroutines cfg tls pol)) \<le> 3"
  "length (filter may_report (demo_goroutines cfg tls)) \<le> 2"
proof -
  define loops where
    "loops = map (\<lambda>(pathID, addr). ServeTUNQUICPath pathID addr tls) (configured_listeners cfg)"
  have "length (filter may_report loops) \<le> 2"
  proof -
    have "length loops \<le> 2" using configured_few [of cfg] by (simp add: loops_def)
    then show ?thesis using length_filter_le [of may_report loops] by (rule order_trans [rotated])
  qed
  then show "length (filter may_report (tun_goroutines cfg tls pol)) \<le> 3"
    unfolding tun_goroutines_def loops_def [symmetric] by (simp add: closer_never_reports)
  show "length (filter may_report (demo_goroutines cfg tls)) \<le> 2"
    by (rule order_trans [OF length_filter_le]) (simp add: demo_goroutines_def configured_few)
qed

lemma run_tun_server_starts:
  assumes "run_tun_server ue cfg tls = (Inr plan, calls)"
  obtains pol device where "new_packet_policy (scAllowedCIDR cfg) = Inr pol"
    "open_tun ue (scDeviceName cfg) = (Inr device, [FdOpen (td_file device)])" "calls = [FdOpen (td_file device)]"
    "sv_goroutines plan = tun_goroutines cfg tls pol" "sv_capacity plan = 3"
proof -
  obtain pol device where p: "new_packet_policy (scAllowedCIDR cfg) = Inr pol"
    "open_tun ue (scDeviceName cfg) = (Inr device, calls)"
    "plan = \<lparr>sv_goroutines = tun_goroutines cfg tls pol, sv_capacity = 3, sv_paths = 0\<rparr>"
    using assms
    by (auto simp: run_tun_server_def tun_goroutines_def configured_listeners_def split: sum.splits prod.splits)
  moreover have "calls = [FdOpen (td_file device)]"
    using p(2) by (auto simp: open_tun_def Let_def split: sum.splits if_splits)
  ultimately show ?thesis using that [of pol device] by simp
qed

lemma run_server_starts:
  assumes "run_server te ue cfg = (Inr plan, calls)"
  obtains tls where "configured_listeners cfg \<noteq> []"
    "server_tls_config te (scTLSCertFile cfg) (scTLSKeyFile cfg) (scClientCAFile cfg) = Inr tls"
    "scUseTUN cfg \<Longrightarrow> run_tun_server ue cfg tls = (Inr plan, calls)"
    "\<not> scUseTUN cfg \<Longrightarrow> calls = [] \<and> to4 (scVirtualIP cfg) \<noteq> None \<and> to4 (scClientIP cfg) \<noteq> None \<and>
       sv_goroutines plan = demo_goroutines cfg tls \<and> sv_capacity plan = 2 \<and>
       sv_paths plan = length (configured_listeners cfg)"
proof -
  obtain tls where tls: "server_tls_config te (scTLSCertFile cfg) (scTLSKeyFile cfg) (scClientCAFile cfg) = Inr tls"
    using assms by (auto simp: run_server_def split: if_splits sum.splits)
  show ?thesis
    using that [OF _ tls] assms tls
    by (auto simp: run_server_def demo_goroutines_def configured_listeners_def Let_def split: if_splits)
qed

lemma failed_server_closes:
  "run_server te ue cfg = (Inl err, calls) \<Longrightarrow> calls = [] \<or> (\<exists>fd. calls = [FdOpen fd, FdClose fd])"
  by (auto simp: run_server_def run_tun_server_def open_tun_def Let_def split: if_splits sum.splits)

section \<open>Properties\<close>

text \<open>
  (C37) An accept loop starts one handler per accepted connection, in order, and none after
  the first failed \<open>Accept\<close>.  Then it closes its listener; a failure while the context is
  still alive is counted and reported, once; when the context has ended nothing is counted,
  and only the demo server reports it.
\<close>
theorem accept_loop_serves_every_connection:
  assumes "tr = io_trace s @ accept_events pathID (length conns)"
  shows "serve_quic_path env pathID addr None (map Inr conns @ Inl err # answers) s =
      (let s' = s\<lparr>io_trace := tr\<rparr>
       in if ctx_done env tr then (emit (ListenerClose pathID) s', conns, Reported ServeContextDone)
          else (emit (ListenerClose pathID) (count_op add_error s'), conns, Reported (AcceptFailed pathID err))) \<and>
    serve_tun_quic_path env pathID addr None (map Inr conns @ Inl err # answers) s =
      (let s' = s\<lparr>io_trace := tr\<rparr>
       in if ctx_done env tr then (emit (ListenerClose pathID) s', conns, Silent)
          else (emit (ListenerClose pathID) (count_op add_error s'), conns, Reported (AcceptFailed pathID err)))"
  using assms
  by (simp add: serve_quic_path_def serve_tun_quic_path_def accept_quic_run accept_tun_quic_run
      Let_def close_listener_def accept_events_def is_done_def emit_def)

theorem accept_loop_serves_every_connection_witness:
  "fst (snd (serve_quic_path calm_env 0 '':4433'' None [Inr 5, Inr 6, Inl io_eof] two_clients)) = [5, 6] \<and>
   snd (snd (serve_quic_path calm_env 0 '':4433'' None [Inr 5, Inr 6, Inl io_eof] two_clients)) =
     Reported (AcceptFailed 0 io_eof)"
  using accept_loop_serves_every_connection [OF refl, where s = two_clients and pathID = 0 and conns = "[5, 6]"
      and env = calm_env and addr = "'':4433''" and err = io_eof and answers = "[]"]
  by (simp add: calm_env_def Let_def)

text \<open>
  (C36) A server that starts runs exactly the goroutines of its mode: one accept loop for
  each configured address, path 0 before path 1 and at least one of them, each with the TLS
  configuration loaded from the configured files; in TUN mode the TUN loops, with the device
  open and its packets forwarded under the configured policy; otherwise the demo loops, with
  two IPv4 addresses.  A server that does not start leaves no descriptor open.  The error
  channel has room for every goroutine that can report, so no report blocks, and the first
  report of any of them, or the end of the context, is what ends the server and what it
  returns; the device is closed then.  Until one of the two happens the server waits.
\<close>
theorem server_starts_configured_paths:
  assumes "run_server te ue cfg = (r, calls)"
  shows "case r of
      Inl err \<Rightarrow> calls = [] \<or> (\<exists>fd. calls = [FdOpen fd, FdClose fd])
    | Inr plan \<Rightarrow>
        configured_listeners cfg \<noteq> [] \<and>
        (\<exists>tls. server_tls_config te (scTLSCertFile cfg) (scTLSKeyFile cfg) (scClientCAFile cfg) = Inr tls \<and>
          (if scUseTUN cfg
           then \<exists>pol device. new_packet_policy (scAllowedCIDR cfg) = Inr pol \<and>
             fst (open_tun ue (scDeviceName cfg)) = Inr device \<and> calls = [FdOpen (td_file device)] \<and>
             sv_goroutines plan = [CloseServerDeviceWhenDone, ForwardDevicePackets pol] @
               map (\<lambda>(pathID, addr). ServeTUNQUICPath pathID addr tls) (configured_listeners cfg)
           else calls = [] \<and> to4 (scVirtualIP cfg) \<noteq> None \<and> to4 (scClientIP cfg) \<noteq> None \<and>
             sv_goroutines plan = map (\<lambda>(pathID, addr).
               ServeQUICPath pathID addr tls (scVirtualIP cfg) (scClientIP cfg)) (configured_listeners cfg))) \<and>
        length (filter may_report (sv_goroutines plan)) \<le> sv_capacity plan \<and>
        (\<forall>g \<in> set (sv_goroutines plan). \<forall>env listenErr answers reads t err wakes s.
          goroutine_report env listenErr answers reads g t = Some err \<longrightarrow>
          finish_server cfg plan (Message (Some err) # wakes) s =
            (Some (Some err), if scUseTUN cfg then emit DeviceClose s else s)) \<and>
        (\<forall>err wakes s. finish_server cfg plan (ServerDone err # wakes) s =
            (Some (Some (ServerContextEnded err)), if scUseTUN cfg then emit DeviceClose s else s)) \<and>
        (\<forall>s. finish_server cfg plan [] s = (None, s))"
proof (cases r)
  case (Inl err)
  then show ?thesis using failed_server_closes assms by simp
next
  case (Inr plan)
  with assms have run: "run_server te ue cfg = (Inr plan, calls)" by simp
  then show ?thesis
  proof (rule run_server_starts)
    fix tls
    assume ne: "configured_listeners cfg \<noteq> []"
      and tls: "server_tls_config te (scTLSCertFile cfg) (scTLSKeyFile cfg) (scClientCAFile cfg) = Inr tls"
      and tun: "scUseTUN cfg \<Longrightarrow> run_tun_server ue cfg tls = (Inr plan, calls)"
      and demo: "\<not> scUseTUN cfg \<Longrightarrow> calls = [] \<and> to4 (scVirtualIP cfg) \<noteq> None \<and> to4 (scClientIP cfg) \<noteq> None \<and>
       sv_goroutines plan = demo_goroutines cfg tls \<and> sv_capacity plan = 2 \<and>
       sv_paths plan = length (configured_listeners cfg)"
    show ?thesis
    proof (cases "scUseTUN cfg")
      case True
      from tun [OF True] show ?thesis
      proof (rule run_tun_server_starts)
        fix pol device
        assume t: "new_packet_policy (scAllowedCIDR cfg) = Inr pol"
          "open_tun ue (scDeviceName cfg) = (Inr device, [FdOpen (td_file device)])"
          "calls = [FdOpen (td_file device)]" "sv_goroutines plan = tun_goroutines cfg tls pol"
          "sv_capacity plan = 3"
        show ?thesis
          using True ne tls t few_report(1) [of cfg tls pol] by (simp add: Inr finish_server_def tun_goroutines_def)
      qed
    next
      case False
      obtain n where "sv_paths plan = Suc n" using demo [OF False] ne by (cases "configured_listeners cfg") auto
      moreover note d = demo [OF False]
      ultimately have "await_paths (sv_paths plan) [] = None"
        "await_paths (sv_paths plan) (Message (Some err) # wakes) = Some (Some err)"
        "await_paths (sv_paths plan) (ServerDone e # wakes) = Some (Some (ServerContextEnded e))" for err e wakes
        by simp_all
      with d False ne tls few_report(2) [of cfg tls] show ?thesis
        by (simp add: Inr finish_server_def demo_goroutines_def)
    qed
  qed
qed

definition plain_server_config :: server_config where
  "plain_server_config = \<lparr>scListen0 = '''', scListen1 = '':4434'', scTLSCertFile = '''', scTLSKeyFile = '''',
     scClientCAFile = '''', scAllowedCIDR = '''', scVirtualIP = [], scClientIP = [],
     scStatsInterval = 0, scStatsJSON = False, scUseTUN = True,
     scDeviceName = ''tun10''\<rparr>"

theorem server_starts_configured_paths_witness:
  "\<exists>plan tls. run_server example_tls_env plain_unix plain_server_config = (Inr plan, [FdOpen 3]) \<and>
     sv_goroutines plan = [CloseServerDeviceWhenDone, ForwardDevicePackets \<lparr>allowedCIDR = None\<rparr>,
       ServeTUNQUICPath 1 '':4434'' tls]"
proof -
  obtain plan where plan: "run_server example_tls_env plain_unix plain_server_config = (Inr plan, [FdOpen 3])"
    by (simp add: run_server_def run_tun_server_def plain_server_config_def tls_examples Let_def
        new_packet_policy_def open_tun_def plain_unix_def)
  have "configured_listeners plain_server_config = [(1, '':4434'')]" "scUseTUN plain_server_config"
    "scAllowedCIDR plain_server_config = ''''"
    by (simp_all add: configured_listeners_def plain_server_config_def)
  moreover have "new_packet_policy '''' = Inr \<lparr>allowedCIDR = None\<rparr>" by (simp add: new_packet_policy_def)
  ultimately show ?thesis using server_starts_configured_paths [OF plan] plan by auto
qed

end
