(* ===== verification/Commands.thy ===== *)
theory Commands
  imports Env_Config Go_Flag Client_Run Echo_Client Server_Run
begin

text \<open>
  The two programs, \<open>cmd/client/main.go\<close> and \<open>cmd/server/main.go\<close>: the flags with their
  defaults from the environment, and the configuration each command starts with.
\<close>

section \<open>Defaults from the environment\<close>

definition bind_result :: "'e + 'a \<Rightarrow> ('a \<Rightarrow> 'e + 'b) \<Rightarrow> 'e + 'b" where
  "bind_result r f = (case r of Inl err \<Rightarrow> Inl err | Inr x \<Rightarrow> f x)"

lemma bind_result_simps [simp]: "bind_result (Inl e) f = Inl e" "bind_result (Inr x) f = f x"
  by (simp_all add: bind_result_def)

lemma bind_result_Inr: "bind_result r f = Inr y \<Longrightarrow> \<exists>x. r = Inr x \<and> f x = Inr y"
  by (cases r) auto

datatype exit_reason =
    FatalEnv env_error          \<comment> \<open>\<open>log.Fatal\<close> in a \<open>must\<close> function\<close>
  | FlagsRefused flag_error     \<comment> \<open>\<open>flag.Parse\<close> ends the program\<close>
  | FatalIdentifier "64 word"

definition must :: "env_error + 'a \<Rightarrow> exit_reason + 'a" where
  "must r = (case r of Inl err \<Rightarrow> Inl (FatalEnv err) | Inr x \<Rightarrow> Inr x)"

definition must_bool_env :: "environment \<Rightarrow> string \<Rightarrow> bool \<Rightarrow> exit_reason + bool" where
  "must_bool_env lookup name fallback = must (env_bool lookup name fallback)"

definition must_duration_env :: "environment \<Rightarrow> string \<Rightarrow> duration \<Rightarrow> exit_reason + duration" where
  "must_duration_env lookup name fallback = must (env_duration lookup name fallback)"

definition must_int_env :: "environment \<Rightarrow> string \<Rightarrow> int \<Rightarrow> exit_reason + int" where
  "must_int_env lookup name fallback = must (env_int lookup name fallback)"

definition must_uint_env :: "environment \<Rightarrow> string \<Rightarrow> 64 word \<Rightarrow> exit_reason + 64 word" where
  "must_uint_env lookup name fallback = must (env_uint lookup name fallback)"

definition string_bytes :: "string \<Rightarrow> bytes" where
  "string_bytes s = map (\<lambda>c. of_nat (char_val c)) s"

section \<open>The client\<close>

record client_flags =
  cfServer0 :: string
  cfServer1 :: string
  cfCACert :: string
  cfServerName :: string
  cfClientCert :: string
  cfClientKey :: string
  cfVirtualIP :: string
  cfClientIP :: string
  cfCount :: int
  cfIdentifier :: "64 word"
  cfPayload :: string
  cfTimeout :: duration
  cfStatsInterval :: duration
  cfStatsJSON :: bool
  cfTun :: bool
  cfTunName :: string
  cfTunAllowedCIDR :: string
  cfReconnectMin :: duration
  cfReconnectMax :: duration
  cfVersion :: bool

definition client_flag_set :: "client_flags flag_set" where
  "client_flag_set =
     [string_flag ''server0'' (\<lambda>v. cfServer0_update (\<lambda>_. v)),
      string_flag ''server1'' (\<lambda>v. cfServer1_update (\<lambda>_. v)),
      string_flag ''ca-cert'' (\<lambda>v. cfCACert_update (\<lambda>_. v)),
      string_flag ''server-name'' (\<lambda>v. cfServerName_update (\<lambda>_. v)),
      string_flag ''client-cert'' (\<lambda>v. cfClientCert_update (\<lambda>_. v)),
      string_flag ''client-key'' (\<lambda>v. cfClientKey_update (\<lambda>_. v)),
      string_flag ''virtual-ip'' (\<lambda>v. cfVirtualIP_update (\<lambda>_. v)),
      string_flag ''client-ip'' (\<lambda>v. cfClientIP_update (\<lambda>_. v)),
      int_flag ''count'' (\<lambda>v. cfCount_update (\<lambda>_. v)),
      uint_flag ''identifier'' (\<lambda>v. cfIdentifier_update (\<lambda>_. v)),
      string_flag ''payload'' (\<lambda>v. cfPayload_update (\<lambda>_. v)),
      duration_flag ''timeout'' (\<lambda>v. cfTimeout_update (\<lambda>_. v)),
      duration_flag ''stats-interval'' (\<lambda>v. cfStatsInterval_update (\<lambda>_. v)),
      bool_flag ''stats-json'' (\<lambda>v. cfStatsJSON_update (\<lambda>_. v)),
      bool_flag ''tun'' (\<lambda>v. cfTun_update (\<lambda>_. v)),
      string_flag ''tun-name'' (\<lambda>v. cfTunName_update (\<lambda>_. v)),
      string_flag ''tun-allow-cidr'' (\<lambda>v. cfTunAllowedCIDR_update (\<lambda>_. v)),
      duration_flag ''reconnect-min'' (\<lambda>v. cfReconnectMin_update (\<lambda>_. v)),
      duration_flag ''reconnect-max'' (\<lambda>v. cfReconnectMax_update (\<lambda>_. v)),
      bool_flag ''version'' (\<lambda>v. cfVersion_update (\<lambda>_. v))]"

definition client_defaults :: "environment \<Rightarrow> exit_reason + client_flags" where
  "client_defaults lookup =
     bind_result (must_int_env lookup ''MVPVPN_CLIENT_COUNT'' 4) (\<lambda>count.
     bind_result (must_uint_env lookup ''MVPVPN_CLIENT_IDENTIFIER'' 0x4d56) (\<lambda>identifier.
     bind_result (must_duration_env lookup ''MVPVPN_CLIENT_TIMEOUT'' 5000000000) (\<lambda>timeout.
     bind_result (must_duration_env lookup ''MVPVPN_CLIENT_STATS_INTERVAL'' 10000000000) (\<lambda>statsInterval.
     bind_result (must_bool_env lookup ''MVPVPN_CLIENT_STATS_JSON'' False) (\<lambda>statsJSON.
     bind_result (must_bool_env lookup ''MVPVPN_CLIENT_TUN'' False) (\<lambda>tunMode.
     bind_result (must_duration_env lookup ''MVPVPN_CLIENT_RECONNECT_MIN'' DefaultTUNReconnectMinInterval) (\<lambda>reconnectMin.
     bind_result (must_duration_env lookup ''MVPVPN_CLIENT_RECONNECT_MAX'' DefaultTUNReconnectMaxInterval) (\<lambda>reconnectMax.
     Inr \<lparr>cfServer0 = env_string lookup ''MVPVPN_CLIENT_SERVER0'' ''localhost:4433'',
       cfServer1 = env_string lookup ''MVPVPN_CLIENT_SERVER1'' ''localhost:4434'',
       cfCACert = env_string lookup ''MVPVPN_CLIENT_CA_CERT'' '''',
       cfServerName = env_string lookup ''MVPVPN_CLIENT_SERVER_NAME'' '''',
       cfClientCert = env_string lookup ''MVPVPN_CLIENT_TLS_CERT'' '''',
       cfClientKey = env_string lookup ''MVPVPN_CLIENT_TLS_KEY'' '''',
       cfVirtualIP = env_string lookup ''MVPVPN_CLIENT_VIRTUAL_IP'' ''10.8.0.1'',
       cfClientIP = env_string lookup ''MVPVPN_CLIENT_CLIENT_IP'' ''10.8.0.2'',
       cfCount = count, cfIdentifier = identifier,
       cfPayload = env_string lookup ''MVPVPN_CLIENT_PAYLOAD'' ''mvp-vpn-lite'',
       cfTimeout = timeout, cfStatsInterval = statsInterval, cfStatsJSON = statsJSON, cfTun = tunMode,
       cfTunName = env_string lookup ''MVPVPN_CLIENT_TUN_NAME'' DefaultDeviceName,
       cfTunAllowedCIDR = env_string lookup ''MVPVPN_CLIENT_TUN_ALLOW_CIDR'' '''',
       cfReconnectMin = reconnectMin, cfReconnectMax = reconnectMax, cfVersion = False\<rparr>))))))))"

datatype client_action =
    ClientExits exit_reason
  | ClientVersion string
  | StartTUNClient tun_client_config
  | StartDemoClient client_config

definition client_action_of :: "string \<Rightarrow> string \<Rightarrow> client_flags \<Rightarrow> client_action" where
  \<comment> \<open>what \<open>main\<close> does with the parsed flags\<close>
  "client_action_of version commit f =
     (if cfVersion f then ClientVersion (version_string version commit ''mvp-vpn-lite-client'')
      else if cfTun f then StartTUNClient
        \<lparr>tcServer0 = cfServer0 f, tcServer1 = cfServer1 f, tcCAFile = cfCACert f,
         tcServerName = cfServerName f, tcClientCertFile = cfClientCert f, tcClientKeyFile = cfClientKey f,
         tcAllowedCIDR = cfTunAllowedCIDR f, tcDeviceName = cfTunName f,
         tcStatsInterval = cfStatsInterval f, tcStatsJSON = cfStatsJSON f,
         tcReconnectMin = cfReconnectMin f, tcReconnectMax = cfReconnectMax f\<rparr>
      else if 0xffff < cfIdentifier f then ClientExits (FatalIdentifier (cfIdentifier f))
      else StartDemoClient
        \<lparr>Server0 = cfServer0 f, Server1 = cfServer1 f, CAFile = cfCACert f, TLSServerName = cfServerName f,
         ClientCertFile = cfClientCert f, ClientKeyFile = cfClientKey f,
         VirtualIP = parse_ip (cfVirtualIP f), ClientIP = parse_ip (cfClientIP f),
         EchoIdentifier = ucast (cfIdentifier f), EchoCount = cfCount f,
         EchoPayload = string_bytes (cfPayload f), RequestTimeout = cfTimeout f,
         EchoStatsInterval = cfStatsInterval f, EchoStatsJSON = cfStatsJSON f\<rparr>)"

definition client_main :: "string \<Rightarrow> string \<Rightarrow> environment \<Rightarrow> string list \<Rightarrow> client_action" where
  "client_main version commit lookup args =
     (case client_defaults lookup of
        Inl reason \<Rightarrow> ClientExits reason
      | Inr defaults \<Rightarrow>
          (case parse_flags client_flag_set args defaults of
             Inl err \<Rightarrow> ClientExits (FlagsRefused err)
           | Inr f \<Rightarrow> client_action_of version commit f))"

section \<open>The server\<close>

record server_flags =
  sfListen0 :: string
  sfListen1 :: string
  sfTLSCert :: string
  sfTLSKey :: string
  sfClientCA :: string
  sfVirtualIP :: string
  sfClientIP :: string
  sfStatsInterval :: duration
  sfStatsJSON :: bool
  sfTun :: bool
  sfTunName :: string
  sfTunAllowedCIDR :: string
  sfVersion :: bool

definition server_flag_set :: "server_flags flag_set" where
  "server_flag_set =
     [string_flag ''listen0'' (\<lambda>v. sfListen0_update (\<lambda>_. v)),
      string_flag ''listen1'' (\<lambda>v. sfListen1_update (\<lambda>_. v)),
      string_flag ''tls-cert'' (\<lambda>v. sfTLSCert_update (\<lambda>_. v)),
      string_flag ''tls-key'' (\<lambda>v. sfTLSKey_update (\<lambda>_. v)),
      string_flag ''client-ca'' (\<lambda>v. sfClientCA_update (\<lambda>_. v)),
      string_flag ''virtual-ip'' (\<lambda>v. sfVirtualIP_update (\<lambda>_. v)),
      string_flag ''client-ip'' (\<lambda>v. sfClientIP_update (\<lambda>_. v)),
      duration_flag ''stats-interval'' (\<lambda>v. sfStatsInterval_update (\<lambda>_. v)),
      bool_flag ''stats-json'' (\<lambda>v. sfStatsJSON_update (\<lambda>_. v)),
      bool_flag ''tun'' (\<lambda>v. sfTun_update (\<lambda>_. v)),
      string_flag ''tun-name'' (\<lambda>v. sfTunName_update (\<lambda>_. v)),
      string_flag ''tun-allow-cidr'' (\<lambda>v. sfTunAllowedCIDR_update (\<lambda>_. v)),
      bool_flag ''version'' (\<lambda>v. sfVersion_update (\<lambda>_. v))]"

definition server_defaults :: "environment \<Rightarrow> exit_reason + server_flags" where
  "server_defaults lookup =
     bind_result (must_duration_env lookup ''MVPVPN_SERVER_STATS_INTERVAL'' 10000000000) (\<lambda>statsInterval.
     bind_result (must_bool_env lookup ''MVPVPN_SERVER_STATS_JSON'' False) (\<lambda>statsJSON.
     bind_result (must_bool_env lookup ''MVPVPN_SERVER_TUN'' False) (\<lambda>tunMode.
     Inr \<lparr>sfListen0 = env_string lookup ''MVPVPN_SERVER_LISTEN0'' '':4433'',
       sfListen1 = env_string lookup ''MVPVPN_SERVER_LISTEN1'' '':4434'',
       sfTLSCert = env_string lookup ''MVPVPN_SERVER_TLS_CERT'' '''',
       sfTLSKey = env_string lookup ''MVPVPN_SERVER_TLS_KEY'' '''',
       sfClientCA = env_string lookup ''MVPVPN_SERVER_CLIENT_CA'' '''',
       sfVirtualIP = env_string lookup ''MVPVPN_SERVER_VIRTUAL_IP'' ''10.8.0.1'',
       sfClientIP = env_string lookup ''MVPVPN_SERVER_CLIENT_IP'' ''10.8.0.2'',
       sfStatsInterval = statsInterval, sfStatsJSON = statsJSON, sfTun = tunMode,
       sfTunName = env_string lookup ''MVPVPN_SERVER_TUN_NAME'' DefaultServerDeviceName,
       sfTunAllowedCIDR = env_string lookup ''MVPVPN_SERVER_TUN_ALLOW_CIDR'' '''',
       sfVersion = False\<rparr>)))"

datatype server_action =
    ServerExits exit_reason
  | ServerVersion string
  | StartServer server_config

definition server_action_of :: "string \<Rightarrow> string \<Rightarrow> server_flags \<Rightarrow> server_action" where
  "server_action_of version commit f =
     (if sfVersion f then ServerVersion (version_string version commit ''mvp-vpn-lite-server'')
      else StartServer
        \<lparr>scListen0 = sfListen0 f, scListen1 = sfListen1 f, scTLSCertFile = sfTLSCert f,
         scTLSKeyFile = sfTLSKey f, scClientCAFile = sfClientCA f, scAllowedCIDR = sfTunAllowedCIDR f,
         scVirtualIP = parse_ip (sfVirtualIP f), scClientIP = parse_ip (sfClientIP f),
         scStatsInterval = sfStatsInterval f, scStatsJSON = sfStatsJSON f,
         scUseTUN = sfTun f, scDeviceName = sfTunName f\<rparr>)"

definition server_main :: "string \<Rightarrow> string \<Rightarrow> environment \<Rightarrow> string list \<Rightarrow> server_action" where
  "server_main version commit lookup args =
     (case server_defaults lookup of
        Inl reason \<Rightarrow> ServerExits reason
      | Inr defaults \<Rightarrow>
          (case parse_flags server_flag_set args defaults of
             Inl err \<Rightarrow> ServerExits (FlagsRefused err)
           | Inr f \<Rightarrow> server_action_of version commit f))"

section \<open>Facts\<close>

lemma client_defaults_version: "client_defaults lookup = Inr d \<Longrightarrow> \<not> cfVersion d"
  unfolding client_defaults_def by (auto dest!: bind_result_Inr)

lemma flag_names [simp]:
  "map_of client_flag_set ''identifier'' =
     Some (False, \<lambda>v r. case parse_uint v of Inl err \<Rightarrow> None | Inr n \<Rightarrow> Some (cfIdentifier_update (\<lambda>_. n) r))"
  by (simp add: client_flag_set_def string_flag_def bool_flag_def int_flag_def uint_flag_def duration_flag_def)

lemma parse_identifier:
  assumes "n < 2 ^ 64"
  shows "parse_flags client_flag_set [''-identifier='' @ show_nat n] d = Inr (d\<lparr>cfIdentifier := of_nat n\<rparr>)"
proof -
  have "parse_uint (show_nat n) = Inr (of_nat n)" using assms by (simp add: parse_uint_def parse_uint_show)
  then show ?thesis
    using parse_flag_value [OF flag_names, where v = "show_nat n" and args = "[]" and r = d]
    by (simp add: set_flag_def)
qed

lemma parse_identifier_range:
  assumes "2 ^ 64 \<le> n"
  shows "parse_flags client_flag_set [''-identifier='' @ show_nat n] d =
    Inl (InvalidFlagValue ''identifier'' (show_nat n))"
proof -
  have "parse_uint (show_nat n) = Inl RangeError" using assms by (simp add: parse_uint_def parse_uint_range)
  then show ?thesis
    using parse_flag_value [OF flag_names, where v = "show_nat n" and args = "[]" and r = d]
    by (simp add: set_flag_def)
qed

lemma no_environment [simp]:
  "must_int_env (\<lambda>_. None) name i = Inr i" "must_uint_env (\<lambda>_. None) name u = Inr u"
  "must_duration_env (\<lambda>_. None) name t = Inr t" "must_bool_env (\<lambda>_. None) name b = Inr b"
  "env_string (\<lambda>_. None) name s = s"
  by (simp_all add: must_int_env_def must_uint_env_def must_duration_env_def must_bool_env_def must_def
      env_int_def env_uint_def env_duration_def env_bool_def env_string_def)

lemma default_addresses:
  "parse_ip ''10.8.0.1'' = net_ipv4 10 8 0 1" "parse_ip ''10.8.0.2'' = net_ipv4 10 8 0 2"
proof -
  have "show_ipv4 10 8 0 1 = ''10.8.0.1''" "show_ipv4 10 8 0 2 = ''10.8.0.2''"
    by (simp_all add: show_ipv4_def show_nat_small digit_char_def char_of_def bit_0)
  with parse_ip_show_ipv4 show "parse_ip ''10.8.0.1'' = net_ipv4 10 8 0 1" "parse_ip ''10.8.0.2'' = net_ipv4 10 8 0 2"
    by metis+
qed

section \<open>Properties\<close>

text \<open>
  The two commands fit together as they come: without environment and flags the client
  starts the demo over the two addresses that the server listens on, both use the same two
  virtual IPv4 addresses, and the configuration is one that both accept.
\<close>
theorem default_commands_fit:
  "\<exists>c s. client_main version commit (\<lambda>_. None) [] = StartDemoClient c \<and>
    server_main version commit (\<lambda>_. None) [] = StartServer s \<and>
    map spec_address (client_path_specs (Server0 c) (Server1 c)) =
      map (\<lambda>l. ''localhost'' @ snd l) (configured_listeners s) \<and>
    length (configured_listeners s) = 2 \<and> \<not> scUseTUN s \<and>
    VirtualIP c = scVirtualIP s \<and> to4 (VirtualIP c) = Some [10, 8, 0, 1] \<and>
    ClientIP c = scClientIP s \<and> to4 (ClientIP c) = Some [10, 8, 0, 2] \<and>
    EchoCount c = 4 \<and> EchoIdentifier c = 0x4d56 \<and> length (EchoPayload c) \<le> 65507"
proof -
  obtain d where d: "client_defaults (\<lambda>_. None) = Inr d" "cfServer0 d = ''localhost:4433''"
    "cfServer1 d = ''localhost:4434''" "cfVirtualIP d = ''10.8.0.1''" "cfClientIP d = ''10.8.0.2''"
    "cfCount d = 4" "cfIdentifier d = 0x4d56" "cfPayload d = ''mvp-vpn-lite''" "\<not> cfTun d" "\<not> cfVersion d"
    by (simp add: client_defaults_def)
  obtain e where e: "server_defaults (\<lambda>_. None) = Inr e" "sfListen0 e = '':4433''" "sfListen1 e = '':4434''"
    "sfVirtualIP e = ''10.8.0.1''" "sfClientIP e = ''10.8.0.2''" "\<not> sfTun e" "\<not> sfVersion e"
    by (simp add: server_defaults_def)
  have "(ucast (0x4d56 :: 64 word) :: 16 word) = 0x4d56" by simp
  with d e show ?thesis
    by (simp add: client_main_def client_action_of_def server_main_def server_action_of_def default_addresses
        configured_listeners_def client_path_specs_def string_bytes_def)
qed

text \<open>
  (C40) The ICMP identifier is never truncated: for any environment with which the program
  gets to its flags, \<open>-identifier\<close> given in decimal replaces the value of the environment.
  A number that does not fit 64 bits is refused as a flag value.  Otherwise the program
  starts the TUN client, which has no identifier, if the environment asks for it; if not, it
  starts the demo with exactly this identifier when it fits 16 bits, and ends with an error
  that names it when it does not.
\<close>
theorem identifier_is_exact:
  assumes "client_defaults lookup = Inr d"
  shows "case client_main version commit lookup [''-identifier='' @ show_nat n] of
      StartDemoClient cfg \<Rightarrow> \<not> cfTun d \<and> unat (EchoIdentifier cfg) = n \<and> Server0 cfg = cfServer0 d
    | StartTUNClient cfg \<Rightarrow> cfTun d \<and> n < 2 ^ 64 \<and> tcServer0 cfg = cfServer0 d
    | ClientExits reason \<Rightarrow>
        if n < 2 ^ 64 then \<not> cfTun d \<and> 65535 < n \<and> reason = FatalIdentifier (of_nat n)
        else reason = FlagsRefused (InvalidFlagValue ''identifier'' (show_nat n))
    | ClientVersion v \<Rightarrow> False"
proof (cases "n < 2 ^ 64")
  case True
  then have n: "unat (of_nat n :: 64 word) = n" by (simp add: unat_of_nat)
  then have big: "0xffff < (of_nat n :: 64 word) \<longleftrightarrow> 65535 < n" by (simp add: word_less_nat_alt)
  have "unat (ucast (of_nat n :: 64 word) :: 16 word) = n" if "n \<le> 65535"
  proof -
    have "unat (ucast (of_nat n :: 64 word) :: 16 word) = take_bit 16 (unat (of_nat n :: 64 word))"
      by (simp add: unsigned_ucast_eq)
    then show ?thesis using that n by (simp add: take_bit_nat_eq_self)
  qed
  with big parse_identifier [OF True, of d] client_defaults_version [OF assms] assms True
  show ?thesis by (simp add: client_main_def client_action_of_def)
next
  case False
  then show ?thesis using parse_identifier_range [of n d] assms by (simp add: client_main_def)
qed

theorem identifier_is_exact_witness:
  "(case client_main ''1.0'' '''' (\<lambda>_. None) [''-identifier='' @ show_nat 65536] of
      StartDemoClient cfg \<Rightarrow> False
    | StartTUNClient cfg \<Rightarrow> False
    | ClientExits reason \<Rightarrow> reason = FatalIdentifier 65536
    | ClientVersion v \<Rightarrow> False) \<and>
   (case client_main ''1.0'' '''' (\<lambda>_. None) [''-identifier='' @ show_nat (2 ^ 64)] of
      ClientExits reason \<Rightarrow> reason = FlagsRefused (InvalidFlagValue ''identifier'' (show_nat (2 ^ 64)))
    | _ \<Rightarrow> False)"
proof -
  obtain d where d: "client_defaults (\<lambda>_. None) = Inr d" "\<not> cfTun d"
    by (simp add: client_defaults_def)
  have "unat (EchoIdentifier cfg) \<noteq> 65536" "unat (EchoIdentifier cfg) \<noteq> 2 ^ 64" for cfg
  proof -
    have "unat (EchoIdentifier cfg) < 65536" using unsigned_less [of "EchoIdentifier cfg"] by simp
    then show "unat (EchoIdentifier cfg) \<noteq> 65536" "unat (EchoIdentifier cfg) \<noteq> 2 ^ 64" by simp_all
  qed
  with d(2) identifier_is_exact [OF d(1), of 65536 "''1.0''" "''''"]
    identifier_is_exact [OF d(1), of "2 ^ 64" "''1.0''" "''''"]
  show ?thesis by (auto split: client_action.splits)
qed

end
