(* ===== verification/Exit_Status.thy ===== *)
theory Exit_Status
  imports Commands
begin

text \<open>
  How the two programs end, the last lines of \<open>cmd/client/main.go\<close> and \<open>cmd/server/main.go\<close>:
  \<open>log.Fatal\<close> unless the error is nil or \<open>errors.Is(err, context.Canceled)\<close>.  That test
  follows the wrapped errors; the functions here give, for each type of error, the error of
  another package it wraps, if any.  The contexts of the program are cancelled and have no
  deadline, so \<open>ctx.Err()\<close> of an ended context is \<open>context.Canceled\<close>.
\<close>

section \<open>Wrapped errors\<close>

definition context_canceled :: ext_error where
  "context_canceled = \<lparr>is_eof = False, is_closed = False, is_canceled = True, app_code = None,
     ext_text = ''context canceled''\<rparr>"

fun frame_cause :: "frame_error \<Rightarrow> ext_error option" where
  "frame_cause (FrameIO e) = Some e"
| "frame_cause _ = None"

fun dial_cause :: "dial_error \<Rightarrow> ext_error option" where
  "dial_cause (DialFailed _ _ e) = Some e"
| "dial_cause (OpenStreamFailed _ e) = Some e"

fun tls_cause :: "tls_error \<Rightarrow> ext_error option" where
  "tls_cause (GenerateKey e) = Some e"
| "tls_cause (GenerateSerial e) = Some e"
| "tls_cause (CreateCertificate e) = Some e"
| "tls_cause (LoadKeyPair e) = Some e"
| "tls_cause (LoadClientKeyPair e) = Some e"
| "tls_cause (ReadCertificate _ e) = Some e"
| "tls_cause _ = None"

fun tun_cause :: "tun_error \<Rightarrow> ext_error option" where
  "tun_cause (InvalidDeviceName _ e) = Some e"
| "tun_cause (OpenDevicePath e) = Some e"
| "tun_cause NilFile = None"
| "tun_cause (ConfigureTUN _ e) = Some e"

fun run_cause :: "run_error \<Rightarrow> ext_error option" where
  "run_cause (TLSFailed e) = tls_cause e"
| "run_cause (DialFailure e) = dial_cause e"
| "run_cause (SetDeadlineFailed _ e) = Some e"
| "run_cause (WriteRequestFailed _ e) = frame_cause e"
| "run_cause (ReadReplyFailed _ e) = frame_cause e"
| "run_cause (ClearDeadlineFailed _ e) = Some e"
| "run_cause _ = None"

fun tun_client_cause :: "tun_client_error \<Rightarrow> ext_error option" where
  "tun_client_cause (TunNotOpened e) = tun_cause e"
| "tun_client_cause (TunTLSFailed e) = tls_cause e"
| "tun_client_cause (PumpEnded e) = Some e"
| "tun_client_cause _ = None"

fun serve_cause :: "serve_error \<Rightarrow> ext_error option" where
  "serve_cause (ListenFailed _ _ e) = Some e"
| "serve_cause (AcceptFailed _ e) = Some e"
| "serve_cause ServeContextDone = Some context_canceled"

fun server_cause :: "server_error \<Rightarrow> ext_error option" where
  "server_cause (ServerTLSFailed e) = tls_cause e"
| "server_cause (ServerTunNotOpened e) = tun_cause e"
| "server_cause (ServerContextEnded e) = Some e"
| "server_cause (PathFailed e) = serve_cause e"
| "server_cause (ForwardFailed e) = Some e"
| "server_cause _ = None"

section \<open>The exit status\<close>

datatype exit_status = Exit_OK | Exit_Fatal

definition exit_after :: "('e \<Rightarrow> ext_error option) \<Rightarrow> 'e option \<Rightarrow> exit_status" where
  "exit_after cause err =
     (case err of
        None \<Rightarrow> Exit_OK
      | Some e \<Rightarrow> (case cause e of
          Some c \<Rightarrow> if is_canceled c then Exit_OK else Exit_Fatal
        | None \<Rightarrow> Exit_Fatal))"

definition tun_client_exit :: "tun_client_error \<Rightarrow> exit_status" where
  "tun_client_exit err = exit_after tun_client_cause (Some err)"

definition demo_client_exit :: "run_error option \<Rightarrow> exit_status" where
  "demo_client_exit = exit_after run_cause"

definition server_exit :: "server_error option \<Rightarrow> exit_status" where
  "server_exit = exit_after server_cause"

section \<open>Stopping by a signal\<close>

lemma signal_ends_server_cleanly:
  \<comment> \<open>in both modes, while nothing but empty reports came before\<close>
  assumes "scUseTUN cfg \<or> k < sv_paths plan"
  shows "\<exists>r. fst (finish_server cfg plan (replicate k (Message None) @ ServerDone context_canceled # wakes) s) = Some r \<and>
    server_exit r = Exit_OK"
proof -
  have "await_tun (replicate k (Message None) @ ServerDone e # wakes) = Some (ServerContextEnded e)" for e
    by (induction k) simp_all
  moreover have "await_paths n (replicate k (Message None) @ ServerDone e # wakes) = Some (Some (ServerContextEnded e))"
    if "k < n" for n e
    using that
  proof (induction k arbitrary: n)
    case 0
    then show ?case by (cases n) simp_all
  next
    case (Suc k)
    then show ?case by (cases n) simp_all
  qed
  ultimately show ?thesis
    using assms by (auto simp: finish_server_def server_exit_def exit_after_def context_canceled_def)
qed

lemma signal_ends_tun_client_cleanly:
  \<comment> \<open>once \<open>pumpTUN\<close> runs and wakes up because the context has ended\<close>
  assumes "pump_tun run paths reconnect s = (err, s')"
    "\<forall>start t. fst (run start t) = ContextEnded context_canceled"
  shows "tun_client_exit (PumpEnded err) = Exit_OK"
  using assms
  by (auto simp: pump_tun_def Let_def tun_client_exit_def exit_after_def context_canceled_def split: prod.splits)
    (metis fst_conv wake_error.simps(1) ext_error.select_convs(3))

section \<open>The demo client and its context\<close>

lemma writer_without_context: "stream_writer (env\<lparr>ctx_done := d\<rparr>) = stream_writer env"
  by (simp add: fun_eq_iff stream_writer_def)

lemma without_context:
  "go_now (env\<lparr>ctx_done := d\<rparr>) = go_now env"
  "set_stream_deadline (env\<lparr>ctx_done := d\<rparr>) = set_stream_deadline env"
  "write_frame_to (env\<lparr>ctx_done := d\<rparr>) = write_frame_to env"
  "dial_client_path (env\<lparr>ctx_done := d\<rparr>) = dial_client_path env"
  by (simp_all add: fun_eq_iff go_now_def set_stream_deadline_def write_frame_to_def writer_without_context
      dial_client_path_def Let_def cong: sum.case_cong)

lemma echo_rounds_without_context:
  "echo_rounds (env\<lparr>ctx_done := d\<rparr>) cfg c4 v4 paths todo i scheduler s =
   echo_rounds env cfg c4 v4 paths todo i scheduler s"
  by (induction todo arbitrary: i scheduler s) 
    (simp_all add: without_context Let_def cong: sum.case_cong option.case_cong prod.case_cong)

lemma dial_without_context:
  "dial_paths_from (env\<lparr>ctx_done := d\<rparr>) paths specs s = dial_paths_from env paths specs s"
  by (induction specs arbitrary: paths s) (auto simp: without_context split: prod.split sum.split)

text \<open>
  Once its paths are dialled the demo client does not look at its context: whatever the
  context does, the requests, the result and every event are the same.  A signal, which
  \<open>signal.NotifyContext\<close> turns into a cancellation, ends the client only after the replies
  or their deadlines.
\<close>
theorem demo_client_ignores_cancellation:
  "run_client (env\<lparr>ctx_done := d\<rparr>) te cfg s = run_client env te cfg s"
  unfolding run_client_def dial_client_paths_def dial_without_context echo_rounds_without_context ..

end
