(* ===== verification/Spec2Isabelle.thy ===== *)
theory Spec2Isabelle
  imports Tunnel Tunnel_System Path_Map Exit_Status
begin

text \<open>
  A model of mvp-vpn-lite, a small VPN in Go that carries IPv4 packets between two TUN
  devices over one or two QUIC connections, and the theorems that make it correct.

  THE PROGRAM.  A client (\<open>cmd/client\<close>) and a server (\<open>cmd/server\<close>) read their settings
  from flags whose defaults come from environment variables (\<open>internal/envconfig\<close>) and
  call \<open>RunClient\<close>, \<open>RunTUNClient\<close> or \<open>RunServer\<close> of \<open>internal/quictransport\<close>.  In TUN
  mode the client dials every configured path, opens the TUN device (\<open>internal/tun\<close>) and
  starts goroutines: one sends the packets of the device, each over the next active path,
  with failover; one per path writes what arrives to the device; one per configured path
  redials it after a loss.  The server accepts connections, keeps their streams in a
  session, writes what arrives to its device and forwards the packets of its device over
  the streams in turn.  Packets are framed by a four-byte length; a policy may restrict
  them to an IPv4 network; counters (\<open>internal/stats\<close>) record what happens.  In demo mode
  client and server exchange ICMP echo packets (\<open>internal/packet\<close>) instead of using a
  device, and the client chooses paths with \<open>internal/multipath\<close>.

  THE THEORIES, in the order of the imports.

    \<^item> Prelude: bytes (\<open>8 word\<close>), Go slices, \<open>copy\<close> and the big-endian accessors.
    \<^item> Checksum, Packet (\<open>internal/packet\<close>): the Internet checksum, and parsing and building
      of IPv4 and ICMP echo packets with every error as a constructor of \<open>packet_error\<close>.
      Lemmas: the checksum is the ones' complement sum, built packets parse back, the
      responder answers exactly the well-formed echo requests.
    \<^item> Go_Net, Go_IO, Go_Strconv, Go_Flag: the parts of Go's standard library the source
      uses: \<open>net\<close>, \<open>net/netip\<close>, \<open>strings\<close>; \<open>io.Reader\<close>, \<open>io.ReadFull\<close> and \<open>errors.Is\<close>;
      \<open>strconv\<close> and \<open>time.ParseDuration\<close>; \<open>flag\<close>.
    \<^item> Framing (\<open>framing.go\<close>): \<open>WriteFrame\<close> and \<open>ReadFrame\<close>.  The locale \<open>frame_codec\<close> is
      the interface of the codec; its interpretation gives the round trip of sequences.
    \<^item> Policy (\<open>packet_policy.go\<close>), Device_Errors (\<open>device_errors.go\<close>), Stats (\<open>stats.go\<close>),
      Scheduler (\<open>internal/multipath\<close>).  The locale \<open>round_robin_cursor\<close> states that a
      cursor visits every index in turn; the scheduler, the client's path set and the
      server's session interpret it.
    \<^item> Path_Pool: the list operations and the locale \<open>path_pool\<close> (pick a member, discard a
      member) that the path set and the session share.
    \<^item> Client_Paths (\<open>clientPathSet\<close>, \<open>clientPathHealth\<close> of \<open>client.go\<close>): the record
      \<open>client_path_set\<close>, each method, its invariant \<open>path_set_ok\<close>, the fairness of its
      cursor.  Path_Map: under every sequence of operations the set refines a map from path
      identifiers to paths.
    \<^item> Backoff (\<open>reconnectBackoff\<close>, \<open>normalizeTUNReconnectIntervals\<close>): durations are 64 bits
      wide and wrap.
    \<^item> Transport: the world of the goroutines.  The record \<open>io_state\<close> holds the events so far
      and the counters; the record \<open>env\<close> answers every external call (stream writes,
      device writes, deadlines, the clock, the context) from the history of events, so a
      theorem for every \<open>env\<close> holds for every behaviour of QUIC and of the device.
    \<^item> Tun_Pump: the loop over \<open>device.Read\<close> of \<open>sendTUNPackets\<close> and \<open>forwardDevicePackets\<close>
      and the loop over \<open>ReadFrame\<close> of \<open>receivePathPackets\<close> and \<open>handleTUNQUICConnection\<close>.
      The locale \<open>packet_forwarder\<close> is what the first relies on; client and server
      interpret it with their own way of sending a packet.
    \<^item> Client_Tun (\<open>sendTUNPackets\<close>, \<open>receivePathPackets\<close>), Client_Dial (the dial functions,
      \<open>clientQUICConfig\<close>, \<open>reconnectClientPath\<close>), Client_Run (\<open>RunTUNClient\<close>, \<open>pumpTUN\<close>, with
      the descriptors that \<open>tun.Open\<close> opens and closes as events).
    \<^item> Systems: the locales for step relations: \<open>step_invariant\<close>, and \<open>system_part\<close> with
      \<open>invariant_part\<close> for a system inside a larger one, which inherits its invariants.
    \<^item> Client_System: the same goroutines interleaved, as a step relation whose steps are the
      critical sections of the path set; also a path that nobody closes after the return of
      \<open>pumpTUN\<close> (\<open>shutdown_can_leak_a_path\<close>).
    \<^item> Server_Session (\<open>serverTUNSession\<close>, \<open>handleTUNQUICConnection\<close>), Server_Run
      (\<open>RunServer\<close>, \<open>runTUNServer\<close>, the accept loops; a plan lists the goroutines with their
      TLS configuration, and what each may report is computed from the loops).
    \<^item> Frame_Writer: \<open>WriteFrame\<close> in steps, with writes that stop half way.  The locale
      \<open>frame_sender\<close> extends \<open>step_invariant\<close> by how a system may use such a writer; it gives
      that streams hold whole frames and at most a part of one more, only grow, and are mute
      after a failure.
      Client_Wire extends Client_System by the packets and bytes, Server_System interleaves
      the forwarder and the connection handlers of the server; both interpret the locale, and
      both have a refinement of the sequential functions.  Tunnel_System joins them.
    \<^item> Tls_Config (\<open>tls.go\<close>, \<open>generateSelfSignedTLSConfig\<close>), Tun_Device (\<open>internal/tun\<close>),
      Echo_Server and Echo_Client (the demo mode), Env_Config (\<open>internal/envconfig\<close>,
      \<open>internal/buildinfo\<close>), Commands (the two \<open>main\<close> functions), Exit_Status (how they end).
    \<^item> Tunnel: a stream's writer and reader together.  This theory: the tunnel end to end, for
      the sequential functions.

  PARTIAL WRITES.  In the sequential functions a write succeeds as a whole or puts nothing on
  the stream (\<open>wire\<close> of Transport); what a failing write may leave behind is in the step
  relations (Frame_Writer), which is where the theorems on whole frames are stated.  There
  the return of a successful \<open>WriteFrame\<close> and \<open>markSuccess\<close> are one step of the sender.

  WHAT IS SHOWN.  End to end: under every interleaving and every failure the server's device
  gets no packet more often than the client took it, in the order of each stream, and only
  packets that both policies allow (\<open>tunnel_delivers_at_most_once\<close>, and
  \<open>replies_keep_their_order\<close> for the way back); a path that does not fail loses nothing
  (\<open>reliable_tunnel_is_lossless\<close>).  Client: failover to the next path, no active path is ever
  closed and every one is read, a lost path can return, the path set is a map.  Server: every
  path of the session belongs to a live handler, a stream that left never comes back, the
  device keeps the order of each stream.
  Formats: frames, IPv4 and ICMP packets round trip; the checksum is the ones' complement
  sum.  Configuration: what is refused, in which order, and what is started otherwise.

  HOW CODE BECOMES DEFINITIONS.  Structs are records, errors are constructors of one
  datatype per function, \<open>Inl\<close> is the error branch.  A stream, connection or file
  descriptor is a number; two are the same exactly when the numbers are.  A deferred call
  is written where it runs.  A goroutine that is started is a value in the list of started
  goroutines in Client_Run and Server_Run, and a program point in the step relations.

  BOUNDS.  There is no fuel.  A loop that waits for the outside world runs over the list of
  answers it gets (device reads, frames of a reader, \<open>Accept\<close> answers, wakes of a
  \<open>select\<close>) and is blocked at the end of the list, so every finite behaviour is a list and
  no theorem is about a truncated run.  The failover loop \<open>send_packet\<close> is a recursion
  bounded by the number of active paths, which is enough because each failure removes one
  (\<open>failover_tries_each_path_once\<close>).  \<open>reconnect_loop\<close> takes the number of rounds it has
  run; statements about it hold for every number or name the number that suffices.

  PARAMETERS.  Code outside the repository is an argument: \<open>env\<close> (quic-go, the device file,
  the clock), \<open>tls_env\<close> (crypto, PEM files), \<open>unix_env\<close> (golang.org/x/sys/unix).  Nothing
  is assumed about them beyond the named hypotheses of a theorem, each of which has a
  witness with a concrete instance.

  NOT MODELLED.  Log lines (output only); the moment the periodic log goroutine runs (its
  loop is \<open>log_every\<close>); the goroutine that closes a listener once the context has ended (it
  makes the pending \<open>Accept\<close> fail, which is an answer of the list); signal delivery (it
  cancels the context, which may end at any point of the history); timing (a timeout is an
  error any call may answer); the memory model of Go: accesses to shared state are under a mutex or
  atomic, and each critical section is one step; counters in the step relations (their
  increments are atomic and commute, see Stats).  Scripts, compose files and documents carry no Go code.
\<close>

section \<open>Instances for the witnesses\<close>

definition one_path :: client_state where
  "one_path = \<lparr>io_trace = [], io_ctrs = zero_counters, cs_paths = new_client_path_set [example_path 0 10]\<rparr>"

lemma one_path_facts:
  "path_set_ok (cs_paths one_path)" "cps_paths (cs_paths one_path) = [example_path 0 10]" "io_trace one_path = []"
proof -
  have "path_set_ok (new_client_path_set [example_path 0 10])" by (rule path_set_ok_new) simp_all
  then show "path_set_ok (cs_paths one_path)" by (simp add: one_path_def)
qed (simp_all add: one_path_def new_client_path_set_def)

lemma calm_accepts: "device_accepts calm_env" "stream_write calm_env tr st bs = None"
  by (simp_all add: device_accepts_def calm_env_def)

lemma calm_blocked:
  "snd (send_tun_packets calm_env pol (map ReadData bss) s) = Blocked"
proof -
  have "snd (device_pump calm_env pol f n (map ReadData bss) s) = Blocked" for n s and
    f :: "bytes \<Rightarrow> client_state \<Rightarrow> client_state"
    by (induction bss arbitrary: n s) (simp_all add: Let_def del: take_eq_Nil)
  then show ?thesis by (simp add: send_tun_packets_def)
qed

section \<open>Properties\<close>

text \<open>
  (C7) Client to server, end to end, in the sequential models: the client reads packets and
  sends them over its paths, any of its writes may fail; a path that is still active
  afterwards has a stream that carried nothing before; the server's handler of this stream
  receives any part of its bytes so far, cut into any chunks, and any of the server's device
  writes may fail.  Then the packets the handler has written to the server's TUN device are
  some of the packets the client read from its own device, in the same order, each of them
  unchanged and allowed by both policies.
\<close>
theorem tunnel_preserves_packets:
  assumes "path_set_ok (cs_paths s)" "send_tun_packets env pol reads s = (s', fin)"
    "q \<in> set (cps_paths (cs_paths s'))" "wire (cp_stream q) (io_trace s) = []"
    "prefix (content r) (wire (cp_stream q) (io_trace s'))"
  shows "\<exists>ps. subseq ps (filter (\<lambda>p. allow pol p \<and> allow spol p) (read_packets reads)) \<and>
    delivered (io_trace (handle_tun_quic_connection senv spol pathID conn (Inr (stream, r)) t)) =
      delivered (io_trace t) @ ps"
proof -
  have s': "s' = fst (device_pump env pol (send_packet env) 0 reads s)"
    using assms(2) by (simp add: send_tun_packets_def)
  have "cp_stream q \<in> active_streams s'" using assms(3) by (simp add: active_streams_def)
  then obtain ps where ps: "subseq ps (filter (allow pol) (read_packets reads))"
    "prefix (content r) (concat (map frame_bytes ps))"
    using client_sender.pump_wire [OF assms(1), where st = "cp_stream q"] assms(4,5) s' by fastforce
  obtain n where n: "delivered (io_trace (handle_tun_quic_connection senv spol pathID conn (Inr (stream, r)) t)) =
      delivered (io_trace t) @ take n (allowed_frames spol r)"
    using handler_delivers_part by blast
  have "subseq (fst (read_frames r)) ps"
    using read_part_of_frames [OF ps(2) allowed_packets_ok [OF ps(1)]] by (rule prefix_imp_subseq)
  with ps(1) have "subseq (fst (read_frames r)) (filter (allow pol) (read_packets reads))"
    using subseq_order.order_trans by blast
  from subseq_filter [OF this, of "allow spol"]
  have "subseq (allowed_frames spol r) (filter (\<lambda>p. allow pol p \<and> allow spol p) (read_packets reads))"
    by (simp add: conj_commute)
  then have "subseq (take n (allowed_frames spol r)) (filter (\<lambda>p. allow pol p \<and> allow spol p) (read_packets reads))"
    by (meson prefix_imp_subseq subseq_order.order_trans take_is_prefix)
  with n show ?thesis by blast
qed

theorem tunnel_preserves_packets_witness:
  "\<exists>ps. subseq ps [[1, 2, 3]] \<and>
    delivered (io_trace (handle_tun_quic_connection (calm_env\<lparr>device_write := (\<lambda>tr p. Some unexpected_eof)\<rparr>)
      \<lparr>allowedCIDR = None\<rparr> 0 5
      (Inr (12, \<lparr>chunks = [[0, 0], [0, 3, 1, 2, 3]], end_err = io_eof, eager = False\<rparr>)) two_clients)) = ps"
proof -
  let ?r = "\<lparr>chunks = [[0, 0], [0, 3, 1, 2, 3]], end_err = io_eof, eager = False\<rparr>"
  have "example_path 0 10 \<in> set (cps_paths (cs_paths after_one_packet))"
    by (simp add: after_one_packet_def new_client_path_set_def)
  moreover have "wire (cp_stream (example_path 0 10)) (io_trace (two_paths [])) = []"
    by (simp add: two_paths_def)
  moreover have "prefix (content ?r) (wire (cp_stream (example_path 0 10)) (io_trace after_one_packet))"
    by (simp add: content_def after_one_packet_def example_path_def)
  ultimately show ?thesis
    using tunnel_preserves_packets [OF two_paths_ok example_run,
        where q = "example_path 0 10" and r = ?r and spol = "\<lparr>allowedCIDR = None\<rparr>"
          and pathID = 0 and conn = 5 and stream = 12 and t = two_clients
          and senv = "calm_env\<lparr>device_write := (\<lambda>tr p. Some unexpected_eof)\<rparr>"]
    by (simp add: two_clients_def MaxFrameSize_def allow_def)
qed

text \<open>
  (C6) A tunnel of one path whose writes succeed loses nothing: the server hands its TUN
  device exactly the packets the client read that both policies allow, in order.
\<close>
theorem reliable_tunnel_is_lossless:
  assumes "path_set_ok (cs_paths s)" "cps_paths (cs_paths s) = [q]"
    "\<forall>tr bs. stream_write env tr (cp_stream q) bs = None"
    "send_tun_packets env pol reads s = (s', Blocked)" "wire (cp_stream q) (io_trace s) = []"
    "content r = wire (cp_stream q) (io_trace s')" "device_accepts senv"
  shows "delivered (io_trace (handle_tun_quic_connection senv spol pathID conn (Inr (stream, r)) t)) =
      delivered (io_trace t) @ filter (\<lambda>p. allow pol p \<and> allow spol p) (read_packets reads)"
proof -
  let ?ps = "filter (allow pol) (read_packets reads)"
  have "content r = concat (map frame_bytes ?ps)"
    using reliable_pump [OF assms(1,2), of env pol reads] assms(3-6) by simp
  moreover have "list_all frame_ok ?ps"
    using allowed_packets_ok [where ps = ?ps and pol = pol and reads = reads] by simp
  ultimately show ?thesis
    using handler_delivers_frames [OF assms(7), of r ?ps spol pathID conn stream t]
    by (simp add: conj_commute)
qed

theorem reliable_tunnel_is_lossless_witness:
  "\<exists>r. delivered (io_trace (handle_tun_quic_connection calm_env \<lparr>allowedCIDR = None\<rparr> 0 5 (Inr (12, r)) two_clients)) =
     [[1, 2, 3], [4]]"
proof -
  let ?s = "send_tun_packets calm_env \<lparr>allowedCIDR = None\<rparr> (map ReadData [[1, 2, 3], [4]]) one_path"
  let ?w = "wire (cp_stream (example_path 0 10)) (io_trace (fst ?s))"
  let ?r = "\<lparr>chunks = [?w], end_err = io_eof, eager = False\<rparr>"
  have "?s = (fst ?s, Blocked)" using calm_blocked by (metis prod.collapse)
  moreover have "content ?r = ?w" by (simp add: content_def)
  moreover have "wire (cp_stream (example_path 0 10)) (io_trace one_path) = []" by (simp add: one_path_facts)
  ultimately have "delivered (io_trace (handle_tun_quic_connection calm_env \<lparr>allowedCIDR = None\<rparr> 0 5 (Inr (12, ?r)) two_clients)) =
      delivered (io_trace two_clients) @
      filter (\<lambda>p. allow \<lparr>allowedCIDR = None\<rparr> p \<and> allow \<lparr>allowedCIDR = None\<rparr> p) (read_packets (map ReadData [[1, 2, 3], [4]]))"
    using calm_accepts(2)
    by (intro reliable_tunnel_is_lossless [OF one_path_facts(1,2) _ _ _ _ calm_accepts(1)]) auto
  then have "delivered (io_trace (handle_tun_quic_connection calm_env \<lparr>allowedCIDR = None\<rparr> 0 5 (Inr (12, ?r)) two_clients)) =
      [[1, 2, 3], [4]]"
    by (simp add: two_clients_def MaxFrameSize_def allow_def)
  then show ?thesis by blast
qed

text \<open>
  Server to client, end to end: the packets that a client's receiver hands its TUN
  device from a stream that is still in the server's session are some of the packets the
  server read from its own device, in the same order, allowed by both policies.
\<close>
theorem tunnel_preserves_replies:
  assumes "session_ok (ss t)" "forward_device_packets senv spol reads t = (t', fin)"
    "path \<in> set (sess_paths (ss t'))" "wire (sp_stream path) (io_trace t) = []"
    "content r = wire (sp_stream path) (io_trace t')" "device_accepts env"
  shows "\<exists>ps. subseq ps (filter (\<lambda>p. allow spol p \<and> allow pol p) (read_packets reads)) \<and>
    delivered (io_trace (fst (receive_path_packets env pol q r s))) = delivered (io_trace s) @ ps"
proof -
  have t': "t' = fst (device_pump senv spol (forward_packet senv) 0 reads t)"
    using assms(2) by (simp add: forward_device_packets_def)
  have "sp_stream path \<in> server_streams t'" using assms(3) by (simp add: server_streams_def)
  then obtain ps where ps: "subseq ps (filter (allow spol) (read_packets reads))"
    "content r = concat (map frame_bytes ps)"
    using server_sender.pump_wire [OF assms(1), where st = "sp_stream path"] assms(4,5) t' by fastforce
  have "subseq (filter (allow pol) ps) (filter (\<lambda>p. allow spol p \<and> allow pol p) (read_packets reads))"
    using subseq_filter [OF ps(1), of "allow pol"] by (simp add: conj_commute)
  with receiver_delivers_frames [OF assms(6) ps(2) allowed_packets_ok [OF ps(1)], of pol q s]
  show ?thesis by blast
qed

theorem tunnel_preserves_replies_witness:
  "\<exists>ps. subseq ps [[1, 2, 3]] \<and>
    delivered (io_trace (fst (receive_path_packets calm_env \<lparr>allowedCIDR = None\<rparr> (example_path 0 10)
      \<lparr>chunks = [[0, 0, 0], [3, 1, 2, 3]], end_err = io_eof, eager = False\<rparr> one_path))) = ps"
proof -
  let ?r = "\<lparr>chunks = [[0, 0, 0], [3, 1, 2, 3]], end_err = io_eof, eager = False\<rparr>"
  have "content ?r = wire 10 (io_trace after_one_reply)"
    by (simp add: content_def after_one_reply_def)
  then show ?thesis
    using tunnel_preserves_replies [OF two_clients_ok calm_run first_session_path _ _ calm_accepts(1),
        where r = ?r and pol = "\<lparr>allowedCIDR = None\<rparr>" and q = "example_path 0 10" and s = one_path]
    by (simp add: two_clients_def one_path_facts MaxFrameSize_def allow_def)
qed

end
